(* ===== verification/GoStrings.thy ===== *)
theory GoStrings
  imports Prelude
begin

text \<open>
  The functions of Go's \<^verbatim>\<open>strings\<close>, \<^verbatim>\<open>bytes\<close> and \<^verbatim>\<open>strconv\<close> packages that the modelled sources
  call.  A Go string or byte slice is a \<^typ>\<open>string\<close>, one \<^typ>\<open>char\<close> per byte, so \<^const>\<open>length\<close> is
  Go's \<^verbatim>\<open>len\<close>.  Where Go decodes UTF-8 (the white space recognised by \<^verbatim>\<open>TrimSpace\<close> and \<^verbatim>\<open>Fields\<close>) the
  model matches the encoded byte sequences of the white space runes.  Those encodings start with
  a byte that is never a continuation byte, so matching them bytewise from either end finds
  exactly the runes that Go's decoder finds, also in strings that are not valid UTF-8.
\<close>

subsection \<open>Prefixes, suffixes and searching\<close>

definition HasPrefix :: "string \<Rightarrow> string \<Rightarrow> bool" where
  "HasPrefix s p \<longleftrightarrow> take (length p) s = p"

definition HasSuffix :: "string \<Rightarrow> string \<Rightarrow> bool" where
  "HasSuffix s p \<longleftrightarrow> length p \<le> length s \<and> drop (length s - length p) s = p"

definition TrimPrefix :: "string \<Rightarrow> string \<Rightarrow> string" where
  "TrimPrefix s p = (if HasPrefix s p then drop (length p) s else s)"

definition TrimSuffix :: "string \<Rightarrow> string \<Rightarrow> string" where
  "TrimSuffix s p = (if HasSuffix s p then take (length s - length p) s else s)"

text \<open>\<^verbatim>\<open>strings.Index\<close>; Go's \<open>-1\<close> is \<^const>\<open>None\<close>.\<close>

fun Index :: "string \<Rightarrow> string \<Rightarrow> nat option" where
  "Index [] p = (if p = [] then Some 0 else None)"
| "Index (c # s) p = (if HasPrefix (c # s) p then Some 0 else map_option Suc (Index s p))"

definition Contains :: "string \<Rightarrow> string \<Rightarrow> bool" where
  "Contains s p \<longleftrightarrow> Index s p \<noteq> None"

fun IndexByte :: "string \<Rightarrow> char \<Rightarrow> nat option" where
  "IndexByte [] b = None"
| "IndexByte (c # s) b = (if c = b then Some 0 else map_option Suc (IndexByte s b))"

subsection \<open>Splitting and joining\<close>

text \<open>
  \<^verbatim>\<open>strings.Split\<close> and \<^verbatim>\<open>strings.SplitN\<close> with a one-byte separator, the only use in the sources.
  \<open>SplitN c n s\<close> returns at most \<open>n\<close> pieces; the last piece is the unsplit remainder.
\<close>

fun Split :: "char \<Rightarrow> string \<Rightarrow> string list" where
  "Split c [] = [[]]"
| "Split c (x # xs) =
     (if x = c then [] # Split c xs
      else (case Split c xs of [] \<Rightarrow> [[x]] | w # ws \<Rightarrow> (x # w) # ws))"

fun SplitN :: "char \<Rightarrow> nat \<Rightarrow> string \<Rightarrow> string list" where
  "SplitN c 0 s = []"
| "SplitN c (Suc 0) s = [s]"
| "SplitN c (Suc (Suc n)) s =
     (if c \<in> set s
      then takeWhile (\<lambda>x. x \<noteq> c) s # SplitN c (Suc n) (tl (dropWhile (\<lambda>x. x \<noteq> c) s))
      else [s])"

fun Join :: "string list \<Rightarrow> string \<Rightarrow> string" where
  "Join [] sep = []"
| "Join [w] sep = w"
| "Join (w # ws) sep = w @ sep @ Join ws sep"

subsection \<open>Replacing\<close>

text \<open>
  \<^verbatim>\<open>strings.ReplaceAll(s, old, new)\<close> for a non-empty \<open>old\<close>; occurrences are replaced from the left
  and do not overlap.  The counter skips the bytes of a match that has been replaced.
\<close>

fun replace_skip :: "nat \<Rightarrow> string \<Rightarrow> string \<Rightarrow> string \<Rightarrow> string" where
  "replace_skip k old new [] = []"
| "replace_skip (Suc k) old new (x # xs) = replace_skip k old new xs"
| "replace_skip 0 old new (x # xs) =
     (if old \<noteq> [] \<and> HasPrefix (x # xs) old
      then new @ replace_skip (length old - 1) old new xs
      else x # replace_skip 0 old new xs)"

definition ReplaceAll :: "string \<Rightarrow> string \<Rightarrow> string \<Rightarrow> string" where
  "ReplaceAll s old new = replace_skip 0 old new s"

subsection \<open>White space\<close>

definition tab :: char where "tab = CHR 0x09"
definition newline :: char where "newline = CHR 0x0A"
definition carriage_return :: char where "carriage_return = CHR 0x0D"

text \<open>The UTF-8 encodings of the runes for which \<^verbatim>\<open>unicode.IsSpace\<close> holds.\<close>

definition utf8_spaces :: "string list" where
  "utf8_spaces =
     [[CHR 0x09], [CHR 0x0A], [CHR 0x0B], [CHR 0x0C], [CHR 0x0D], [CHR 0x20],
      [CHR 0xC2, CHR 0x85], [CHR 0xC2, CHR 0xA0], [CHR 0xE1, CHR 0x9A, CHR 0x80],
      [CHR 0xE2, CHR 0x80, CHR 0x80], [CHR 0xE2, CHR 0x80, CHR 0x81],
      [CHR 0xE2, CHR 0x80, CHR 0x82], [CHR 0xE2, CHR 0x80, CHR 0x83],
      [CHR 0xE2, CHR 0x80, CHR 0x84], [CHR 0xE2, CHR 0x80, CHR 0x85],
      [CHR 0xE2, CHR 0x80, CHR 0x86], [CHR 0xE2, CHR 0x80, CHR 0x87],
      [CHR 0xE2, CHR 0x80, CHR 0x88], [CHR 0xE2, CHR 0x80, CHR 0x89],
      [CHR 0xE2, CHR 0x80, CHR 0x8A], [CHR 0xE2, CHR 0x80, CHR 0xA8],
      [CHR 0xE2, CHR 0x80, CHR 0xA9], [CHR 0xE2, CHR 0x80, CHR 0xAF],
      [CHR 0xE2, CHR 0x81, CHR 0x9F], [CHR 0xE3, CHR 0x80, CHR 0x80]]"

definition lead_len :: "string list \<Rightarrow> string \<Rightarrow> nat" where
  "lead_len ws s = (case find (\<lambda>w. w \<noteq> [] \<and> HasPrefix s w) ws of None \<Rightarrow> 0 | Some w \<Rightarrow> length w)"

lemma lead_len_Nil [simp]: "lead_len ws [] = 0"
  by (auto simp: lead_len_def HasPrefix_def split: option.splits dest!: find_Some_iff')

function trim_lead :: "string list \<Rightarrow> string \<Rightarrow> string" where
  "trim_lead ws s = (if lead_len ws s = 0 then s else trim_lead ws (drop (lead_len ws s) s))"
  by pat_completeness auto
termination
proof (relation "measure (\<lambda>(ws, s). length s)")
  fix ws s assume "lead_len ws s \<noteq> 0"
  moreover from this have "s \<noteq> []" by auto
  ultimately show "((ws, drop (lead_len ws s) s), ws, s) \<in> measure (\<lambda>(ws, s). length s)"
    by (cases s) auto
qed simp

declare trim_lead.simps [simp del]

definition TrimSpace :: "string \<Rightarrow> string" where
  "TrimSpace s = rev (trim_lead (map rev utf8_spaces) (rev (trim_lead utf8_spaces s)))"

text \<open>\<^verbatim>\<open>strings.TrimRight\<close> and \<^verbatim>\<open>strings.TrimLeft\<close> with a cutset of ASCII bytes.\<close>

definition TrimRight :: "string \<Rightarrow> string \<Rightarrow> string" where
  "TrimRight s cutset = rev (dropWhile (\<lambda>c. c \<in> set cutset) (rev s))"

text \<open>\<^verbatim>\<open>strings.Fields\<close>.\<close>

function fields_from :: "string \<Rightarrow> string \<Rightarrow> string list" where
  "fields_from cur s =
     (if s = [] then (if cur = [] then [] else [rev cur])
      else if lead_len utf8_spaces s = 0 then fields_from (hd s # cur) (tl s)
      else (if cur = [] then [] else [rev cur]) @ fields_from [] (drop (lead_len utf8_spaces s) s))"
  by pat_completeness auto
termination
  by (relation "measure (\<lambda>(cur, s). length s)") auto

declare fields_from.simps [simp del]

definition Fields :: "string \<Rightarrow> string list" where
  "Fields s = fields_from [] s"

subsection \<open>Case, numbers\<close>

text \<open>
  ASCII lower-casing.  The sources call \<^verbatim>\<open>strings.ToLower\<close> before looking for the ASCII strings
  \<^verbatim>\<open>%2e%2e\<close> and \<^verbatim>\<open>%252e\<close>; no rune outside ASCII has one of the bytes of those strings as its lower
  case form, so lower-casing the ASCII letters decides the same searches.
\<close>

definition to_lower_byte :: "char \<Rightarrow> char" where
  "to_lower_byte c =
     (let n = of_char c :: nat in if 65 \<le> n \<and> n \<le> 90 then char_of (n + 32) else c)"

definition ToLowerASCII :: "string \<Rightarrow> string" where
  "ToLowerASCII s = map to_lower_byte s"

definition hex_digit_value :: "char \<Rightarrow> nat option" where
  "hex_digit_value c =
     (let n = of_char c :: nat in
      if 48 \<le> n \<and> n \<le> 57 then Some (n - 48)
      else if 97 \<le> n \<and> n \<le> 102 then Some (n - 97 + 10)
      else if 65 \<le> n \<and> n \<le> 70 then Some (n - 65 + 10)
      else None)"

definition hex_digit :: "nat \<Rightarrow> char" where
  "hex_digit d = char_of (if d < 10 then d + 48 else d - 10 + 97)"

text \<open>The hexadecimal digits of a number, and the \<^verbatim>\<open>%04x\<close> verb (at least four digits).\<close>

fun hex_digits :: "nat \<Rightarrow> string" where
  "hex_digits n = (if n < 16 then [hex_digit n] else hex_digits (n div 16) @ [hex_digit (n mod 16)])"

declare hex_digits.simps [simp del]

definition fmt_04x :: "nat \<Rightarrow> string" where
  "fmt_04x n = (let ds = hex_digits n in replicate (4 - length ds) (CHR ''0'') @ ds)"

fun dec_digits :: "nat \<Rightarrow> string" where
  "dec_digits n = (if n < 10 then [char_of (n + 48)] else dec_digits (n div 10) @ [char_of (n mod 10 + 48)])"

declare dec_digits.simps [simp del]

definition dec_digit_value :: "char \<Rightarrow> nat option" where
  "dec_digit_value c = (let n = of_char c :: nat in if 48 \<le> n \<and> n \<le> 57 then Some (n - 48) else None)"

fun dec_value :: "nat \<Rightarrow> string \<Rightarrow> nat option" where
  "dec_value acc [] = Some acc"
| "dec_value acc (c # cs) =
     (case dec_digit_value c of None \<Rightarrow> None | Some d \<Rightarrow> dec_value (10 * acc + d) cs)"

text \<open>
  \<^verbatim>\<open>strconv.Atoi\<close> on a 64-bit platform: an optional sign, at least one decimal digit, and a value
  that fits an \<^verbatim>\<open>int64\<close>; anything else is an error.
\<close>

definition Atoi :: "string \<Rightarrow> int option" where
  "Atoi s =
     (let neg = (s \<noteq> [] \<and> hd s = CHR ''-'');
          ds = (if s \<noteq> [] \<and> (hd s = CHR ''-'' \<or> hd s = CHR ''+'') then tl s else s) in
      if ds = [] then None
      else case dec_value 0 ds of
             None \<Rightarrow> None
           | Some n \<Rightarrow>
               (let v = (if neg then - int n else int n) in
                if - (2 ^ 63) \<le> v \<and> v < 2 ^ 63 then Some v else None))"

subsection \<open>Lemmas: prefixes and searching\<close>

lemma HasPrefix_iff: "HasPrefix s p \<longleftrightarrow> (\<exists>t. s = p @ t)"
  unfolding HasPrefix_def by (metis append_eq_conv_conj append_take_drop_id)

lemma HasPrefix_append [simp]: "HasPrefix (p @ s) p"
  by (auto simp: HasPrefix_iff)

lemma HasPrefix_Nil [simp]: "HasPrefix s []"
  by (simp add: HasPrefix_def)

lemma HasPrefix_Nil_left [simp]: "HasPrefix [] p \<longleftrightarrow> p = []"
  by (auto simp: HasPrefix_def)

lemma HasPrefix_Cons [simp]: "HasPrefix (c # s) (d # p) \<longleftrightarrow> c = d \<and> HasPrefix s p"
  by (auto simp: HasPrefix_def)

lemma HasSuffix_iff: "HasSuffix s p \<longleftrightarrow> (\<exists>t. s = t @ p)"
proof
  assume "HasSuffix s p"
  then show "\<exists>t. s = t @ p"
    unfolding HasSuffix_def by (metis append_take_drop_id)
qed (auto simp: HasSuffix_def)

lemma HasSuffix_append [simp]: "HasSuffix (s @ p) p"
  by (auto simp: HasSuffix_iff)

lemma TrimSuffix_append [simp]: "TrimSuffix (s @ p) p = s"
  by (simp add: TrimSuffix_def)

lemma TrimPrefix_append [simp]: "TrimPrefix (p @ s) p = s"
  by (simp add: TrimPrefix_def)

lemma TrimSuffix_single [simp]: "TrimSuffix (s @ [c]) [c] = s"
  using TrimSuffix_append [of s "[c]"] by simp

lemma TrimSuffix_notin: "c \<notin> set s \<Longrightarrow> TrimSuffix s [c] = s"
  by (auto simp: TrimSuffix_def HasSuffix_iff)

lemma Index_Some_decomp:
  "Index s p = Some i \<Longrightarrow> s = take i s @ p @ drop (i + length p) s"
proof (induction s arbitrary: i)
  case Nil
  then show ?case by (auto split: if_splits)
next
  case (Cons c s)
  show ?case
  proof (cases "HasPrefix (c # s) p")
    case True
    with Cons.prems have "i = 0" by simp
    moreover from True obtain t where "c # s = p @ t" by (auto simp: HasPrefix_iff)
    ultimately show ?thesis by simp
  next
    case False
    with Cons.prems obtain j where j: "Index s p = Some j" "i = Suc j" by auto
    from Cons.IH [OF j(1)] j(2) show ?thesis by simp
  qed
qed

lemma Index_append_Some: "\<exists>i. Index (a @ p @ b) p = Some i"
proof (induction a)
  case Nil
  have "HasPrefix (p @ b) p" by simp
  then show ?case by (cases "p @ b") simp_all
next
  case (Cons c a)
  then show ?case by auto
qed

lemma Contains_iff: "Contains s p \<longleftrightarrow> (\<exists>a b. s = a @ p @ b)"
proof
  assume "Contains s p"
  then obtain i where "Index s p = Some i" by (auto simp: Contains_def)
  then have "s = take i s @ p @ drop (i + length p) s" by (rule Index_Some_decomp)
  then show "\<exists>a b. s = a @ p @ b" by blast
next
  assume "\<exists>a b. s = a @ p @ b"
  then show "Contains s p" using Index_append_Some by (auto simp: Contains_def)
qed

lemma IndexByte_None_iff: "IndexByte s b = None \<longleftrightarrow> b \<notin> set s"
  by (induction s) auto

lemma IndexByte_SomeD: "IndexByte s b = Some i \<Longrightarrow> take i s = takeWhile (\<lambda>x. x \<noteq> b) s \<and> drop (Suc i) s = tl (dropWhile (\<lambda>x. x \<noteq> b) s)"
  by (induction s arbitrary: i) (auto split: if_splits)

lemma IndexByte_append: "b \<notin> set s \<Longrightarrow> IndexByte (s @ b # t) b = Some (length s)"
  by (induction s) auto

subsection \<open>Lemmas: splitting and joining\<close>

lemma Split_not_Nil [simp]: "Split c s \<noteq> []"
  by (induction s) (auto split: list.splits)

lemma Split_notin: "c \<notin> set s \<Longrightarrow> Split c s = [s]"
  by (induction s) auto

lemma Split_append: "c \<notin> set s \<Longrightarrow> Split c (s @ c # t) = s # Split c t"
  by (induction s) auto

lemma Split_append_sep: "Split c (s @ c # t) = Split c s @ Split c t"
  by (induction s) (auto split: list.splits)

lemma Split_pieces: "w \<in> set (Split c s) \<Longrightarrow> c \<notin> set w"
  by (induction s arbitrary: w) (auto split: list.splits if_splits)

lemma Join_Cons: "ws \<noteq> [] \<Longrightarrow> Join (w # ws) sep = w @ sep @ Join ws sep"
  by (cases ws) auto

lemma Join_Split: "Join (Split c s) [c] = s"
proof (induction s)
  case (Cons x s)
  obtain w ws where ww: "Split c s = w # ws" by (cases "Split c s") auto
  with Cons show ?case by (cases ws) auto
qed simp

lemma Split_Join:
  "ws \<noteq> [] \<Longrightarrow> \<forall>w \<in> set ws. c \<notin> set w \<Longrightarrow> Split c (Join ws [c]) = ws"
proof (induction ws rule: induct_list012)
  case (3 w w' ws)
  then show ?case using Split_append [of c w "Join (w' # ws) [c]"] by simp
qed (auto simp: Split_notin)

lemma SplitN_append:
  "c \<notin> set a \<Longrightarrow> SplitN c (Suc (Suc n)) (a @ c # b) = a # SplitN c (Suc n) b"
  by simp

lemma SplitN_notin: "c \<notin> set s \<Longrightarrow> SplitN c (Suc n) s = [s]"
  by (cases n) auto

lemma Join_SplitN: "Join (SplitN c (Suc n) s) [c] = s"
proof (induction n arbitrary: s)
  case (Suc n)
  show ?case
  proof (cases "c \<in> set s")
    case True
    have "SplitN c (Suc n) t \<noteq> []" for t by (cases n) auto
    with True Suc show ?thesis
      using takeWhile_dropWhile_hd [OF True] by (simp add: Join_Cons)
  qed simp
qed simp

lemma length_SplitN: "length (SplitN c n s) \<le> n"
proof (induction n arbitrary: s rule: less_induct)
  case (less n)
  show ?case
  proof (cases n)
    case (Suc m)
    with less show ?thesis by (cases m) auto
  qed simp
qed

subsection \<open>Lemmas: replacing\<close>

lemma replace_skip_drop: "k \<le> length s \<Longrightarrow> replace_skip k old new s = replace_skip 0 old new (drop k s)"
proof (induction k arbitrary: s)
  case (Suc k)
  then show ?case by (cases s) auto
qed simp

lemma ReplaceAll_Nil [simp]: "ReplaceAll [] old new = []"
  by (simp add: ReplaceAll_def)

lemma ReplaceAll_match:
  "old \<noteq> [] \<Longrightarrow> ReplaceAll (old @ s) old new = new @ ReplaceAll s old new"
proof (cases old)
  case (Cons x xs)
  have "replace_skip (length xs) old new (xs @ s) = replace_skip 0 old new s"
    using replace_skip_drop [of "length xs" "xs @ s" old new] by simp
  with Cons show ?thesis by (simp add: ReplaceAll_def)
qed simp

lemma ReplaceAll_nomatch:
  "\<not> HasPrefix (x # xs) old \<Longrightarrow> ReplaceAll (x # xs) old new = x # ReplaceAll xs old new"
  by (simp add: ReplaceAll_def)

lemma ReplaceAll_hd_notin: "old \<noteq> [] \<Longrightarrow> hd old \<notin> set s \<Longrightarrow> ReplaceAll s old new = s"
  by (induction s) (auto simp: ReplaceAll_nomatch HasPrefix_iff Cons_eq_append_conv neq_Nil_conv)

subsection \<open>Lemmas: white space and numbers\<close>

lemma trim_lead_id: "lead_len ws s = 0 \<Longrightarrow> trim_lead ws s = s"
  by (subst trim_lead.simps) simp

lemma trim_lead_suffix: "\<exists>w. s = w @ trim_lead ws s"
proof (induction ws s rule: trim_lead.induct)
  case (1 ws s)
  show ?case
  proof (cases "lead_len ws s = 0")
    case True
    then show ?thesis by (simp add: trim_lead_id)
  next
    case False
    with 1 obtain w where "drop (lead_len ws s) s = w @ trim_lead ws (drop (lead_len ws s) s)"
      by blast
    moreover from False have "trim_lead ws (drop (lead_len ws s) s) = trim_lead ws s"
      by (subst (2) trim_lead.simps) simp
    ultimately have "s = (take (lead_len ws s) s @ w) @ trim_lead ws s"
      by (metis append_assoc append_take_drop_id)
    then show ?thesis ..
  qed
qed

lemma set_TrimSpace: "set (TrimSpace s) \<subseteq> set s"
proof -
  obtain u where u: "s = u @ trim_lead utf8_spaces s" using trim_lead_suffix by blast
  obtain v where v: "rev (trim_lead utf8_spaces s) = v @ rev (TrimSpace s)"
    unfolding TrimSpace_def using trim_lead_suffix by fastforce
  have "set (TrimSpace s) \<subseteq> set (rev (trim_lead utf8_spaces s))" by (subst v) auto
  moreover have "set (trim_lead utf8_spaces s) \<subseteq> set s" by (subst u) auto
  ultimately show ?thesis by auto
qed

lemma TrimRight_decomp: "\<exists>w. s = TrimRight s cs @ w \<and> set w \<subseteq> set cs"
proof -
  let ?P = "\<lambda>c. c \<in> set cs"
  have "rev s = takeWhile ?P (rev s) @ dropWhile ?P (rev s)" by simp
  then have "s = TrimRight s cs @ rev (takeWhile ?P (rev s))"
    unfolding TrimRight_def by (metis rev_append rev_rev_ident)
  then show ?thesis by (metis set_rev set_takeWhileD subsetI)
qed

lemma TrimRight_last: "s \<noteq> [] \<Longrightarrow> last s \<notin> set cs \<Longrightarrow> TrimRight s cs = s"
  by (cases s rule: rev_cases) (auto simp: TrimRight_def)

lemma TrimRight_Nil [simp]: "TrimRight [] cs = []"
  by (simp add: TrimRight_def)

lemma TrimRight_append_cut: "set w \<subseteq> set cs \<Longrightarrow> TrimRight (s @ w) cs = TrimRight s cs"
  by (induction w rule: rev_induct) (auto simp: TrimRight_def)

lemma hex_digit_value_hex_digit: "d < 16 \<Longrightarrow> hex_digit_value (hex_digit d) = Some d"
  by (cases "d < 10") (simp_all add: hex_digit_value_def hex_digit_def Let_def)

lemma length_hex_digits_le: "n < 16 ^ Suc k \<Longrightarrow> length (hex_digits n) \<le> Suc k"
proof (induction k arbitrary: n)
  case 0
  then show ?case by (simp add: hex_digits.simps)
next
  case (Suc k)
  show ?case
  proof (cases "n < 16")
    case False
    from Suc.prems have "n div 16 < 16 ^ Suc k" by (simp add: less_mult_imp_div_less mult.commute)
    with Suc.IH False show ?thesis by (subst hex_digits.simps) simp
  qed (simp add: hex_digits.simps)
qed

lemma length_fmt_04x: "n < 65536 \<Longrightarrow> length (fmt_04x n) = 4"
  using length_hex_digits_le [of n 3] by (simp add: fmt_04x_def Let_def)

end
