(* ===== verification/GitTypes.thy ===== *)
theory GitTypes
  imports GoStrings
begin

text \<open>
  Data that crosses the git components: ref updates (\<^verbatim>\<open>internal/portal/gitref/types.go\<close>), policy
  rejections (\<^verbatim>\<open>internal/portal/prereceive/types.go\<close>), and the view of a go-git repository that the
  portal's code has.  go-git is a library outside the repository, so a repository is a record of
  the library functions the sources call; every model that uses one takes it as an argument.
\<close>

record RefUpdate =
  u_ref :: string
  u_old :: string
  u_new :: string

text \<open>
  The \<^verbatim>\<open>Message\<close> of a rejection is kept as the arguments of the \<^verbatim>\<open>fmt.Sprintf\<close> call that renders it,
  one constructor per format; the texts of library errors inside a message are not kept.
\<close>

datatype reject_msg =
    MsgNamespace string string string
  | MsgOldUnresolved string string
  | MsgNewUnresolved string string
  | MsgAncestryFailed string
  | MsgNotAncestor string string string
  | MsgSharedBase string
  | MsgWalkFailed
  | MsgIterationFailed
  | MsgMissingTrailers string "string list"
  | MsgOutOfScope string "string list"
  | MsgPackTooLarge int int
  | MsgPlaygroundLimit

datatype detail = DStr string | DStrs "string list" | DInt int

record Rejection =
  rj_code :: string
  rj_message :: reject_msg
  rj_details :: "(string \<times> detail) list"

definition CodeScopeViolation :: string where "CodeScopeViolation = ''push.scope_violation''"
definition CodeRefNamespaceViolation :: string where
  "CodeRefNamespaceViolation = ''push.ref_namespace_violation''"
definition CodeMissingTrailer :: string where "CodeMissingTrailer = ''push.missing_trailer''"
definition CodeSizeLimit :: string where "CodeSizeLimit = ''push.size_limit''"
definition CodeForcePushRejected :: string where
  "CodeForcePushRejected = ''push.force_push_rejected''"
definition CodePlaygroundSizeExceeded :: string where
  "CodePlaygroundSizeExceeded = ''playground.size_exceeded''"

lemmas push_code_defs =
  CodeScopeViolation_def CodeRefNamespaceViolation_def CodeMissingTrailer_def CodeSizeLimit_def
  CodeForcePushRejected_def CodePlaygroundSizeExceeded_def

subsection \<open>The go-git repository as the sources see it\<close>

record Commit =
  c_hash :: string
  c_message :: string
  c_author_name :: string
  c_author_email :: string
  c_parents :: "string list"

text \<open>
  The calls on \<^verbatim>\<open>*git.Repository\<close> and \<^verbatim>\<open>*object.Commit\<close>.  \<^const>\<open>None\<close> is the error return of a call.
  \<open>g_new_hash\<close> is \<^verbatim>\<open>plumbing.NewHash(s).String()\<close>; \<open>g_commit\<close> is \<^verbatim>\<open>CommitObject\<close>; \<open>g_log\<close> is \<^verbatim>\<open>Log\<close>, the
  commits its iterator yields in order and whether the iteration ends with an error; \<open>g_refs\<close> is
  \<^verbatim>\<open>References\<close>, each ref with the flag that it is symbolic, and whether the iteration ends with an
  error; \<open>g_diff\<close> is \<^verbatim>\<open>object.DiffTreeWithOptions\<close> with the default options, each change as its
  \<^verbatim>\<open>From.Name\<close> and \<^verbatim>\<open>To.Name\<close>, the empty name for an absent side.
\<close>

record 't git_repo =
  g_new_hash :: "string \<Rightarrow> string"
  g_commit :: "string \<Rightarrow> Commit option"
  g_is_ancestor :: "Commit \<Rightarrow> Commit \<Rightarrow> bool option"
  g_log :: "string \<Rightarrow> (Commit list \<times> bool) option"
  g_refs :: "((string \<times> bool) list \<times> bool) option"
  g_tree :: "Commit \<Rightarrow> 't option"
  g_first_parent :: "Commit \<Rightarrow> Commit option"
  g_diff :: "'t option \<Rightarrow> 't \<Rightarrow> (string \<times> string) list option"

end
