(* ===== verification/PktLine.thy ===== *)
theory PktLine
  imports GitTypes
begin

text \<open>
  The pkt-line codec of the git smart-HTTP endpoint (\<^verbatim>\<open>internal/portal/githttp/pktline.go\<close>) and the two
  pure helpers of the receive-pack handler, \<^verbatim>\<open>findBaseRefUpdate\<close> and \<^verbatim>\<open>looksLikeReportStatus\<close>
  (\<^verbatim>\<open>internal/portal/githttp/receive_pack.go\<close>).  A reader is the list of bytes that are still unread;
  a writer is the list of bytes written.
\<close>

datatype pkt_error =
    ShortLength | BadHexDigit char | BadLength nat | ShortPayload | MalformedLine string

subsection \<open>Reading\<close>

fun hex_prefix_value :: "nat \<Rightarrow> string \<Rightarrow> char + nat" where
  "hex_prefix_value n [] = Inr n"
| "hex_prefix_value n (c # cs) =
     (case hex_digit_value c of None \<Rightarrow> Inl c | Some d \<Rightarrow> hex_prefix_value (16 * n + d) cs)"

definition readPktLineLen :: "string \<Rightarrow> pkt_error + nat \<times> string" where
  "readPktLineLen r =
     (if length r < 4 then Inl ShortLength
      else case hex_prefix_value 0 (take 4 r) of
             Inl c \<Rightarrow> Inl (BadHexDigit c)
           | Inr n \<Rightarrow> Inr (n, drop 4 r))"

definition zeroSHA :: string where
  "zeroSHA = replicate 40 (CHR ''0'')"

text \<open>The part of a command payload before the NUL, and the capabilities after it.\<close>

definition commandLine :: "string \<Rightarrow> string \<times> string list" where
  "commandLine payload =
     (case IndexByte payload (CHR 0x00) of
        None \<Rightarrow> (TrimSuffix payload [newline], [])
      | Some idx \<Rightarrow> (TrimSuffix (take idx payload) [newline],
                     Fields (TrimSuffix (drop (idx + 1) payload) [newline])))"

function readCommands ::
  "RefUpdate list \<Rightarrow> string set \<Rightarrow> string \<Rightarrow> pkt_error + RefUpdate list \<times> string set \<times> string"
where
  "readCommands updates caps br =
     (case readPktLineLen br of
        Inl e \<Rightarrow> Inl e
      | Inr (n, br1) \<Rightarrow>
          if n = 0 then Inr (updates, caps, br1)
          else if n < 4 then Inl (BadLength n)
          else if length br1 < n - 4 then Inl ShortPayload
          else (case commandLine (take (n - 4) br1) of
                  (line, newCaps) \<Rightarrow>
                    (case SplitN (CHR '' '') 3 line of
                       [oldSHA, newSHA, ref] \<Rightarrow>
                         readCommands
                           (updates @ [\<lparr>u_ref = ref,
                                        u_old = (if oldSHA = zeroSHA then [] else oldSHA),
                                        u_new = newSHA\<rparr>])
                           (caps \<union> set newCaps)
                           (drop (n - 4) br1)
                     | _ \<Rightarrow> Inl (MalformedLine line))))"
  by pat_completeness auto
termination
  by (relation "measure (\<lambda>(updates, caps, br). length br)")
     (auto simp: readPktLineLen_def split: if_splits sum.splits)

declare readCommands.simps [simp del]

definition readCommandList :: "string \<Rightarrow> pkt_error + RefUpdate list \<times> string set \<times> string" where
  "readCommandList r = readCommands [] {} r"

subsection \<open>Writing\<close>

definition writePktLine :: "string \<Rightarrow> string" where
  "writePktLine payload = fmt_04x (length payload + 4) @ payload"

definition writeSidebandPktLine :: "char \<Rightarrow> string \<Rightarrow> string" where
  "writeSidebandPktLine band payload = fmt_04x (4 + 1 + length payload) @ [band] @ payload"

definition writeFlushPkt :: string where
  "writeFlushPkt = ''0000''"

text \<open>One step of the loop that collects a reason per ref and a global reason.\<close>

definition rejectionRef :: "Rejection \<Rightarrow> string option" where
  "rejectionRef r = (case map_of (rj_details r) ''ref'' of
                       Some (DStr ref) \<Rightarrow> if ref \<noteq> [] then Some ref else None
                     | _ \<Rightarrow> None)"

fun collectReasons ::
  "(reject_msg \<Rightarrow> string) \<Rightarrow> Rejection list \<Rightarrow> (string \<rightharpoonup> string) \<times> string \<Rightarrow> (string \<rightharpoonup> string) \<times> string"
where
  "collectReasons render [] acc = acc"
| "collectReasons render (r # rs) (perRef, globalReason) =
     collectReasons render rs
       (case rejectionRef r of
          Some ref \<Rightarrow>
            (if perRef ref = None then perRef(ref \<mapsto> render (rj_message r)) else perRef, globalReason)
        | None \<Rightarrow>
            (perRef, if globalReason = [] then render (rj_message r) else globalReason))"

definition refReason :: "(string \<rightharpoonup> string) \<times> string \<Rightarrow> string \<Rightarrow> string" where
  "refReason acc ref =
     (let r0 = (case fst acc ref of None \<Rightarrow> [] | Some s \<Rightarrow> s);
          r1 = (if r0 = [] then snd acc else r0)
      in if r1 = [] then ''rejected by server policy'' else r1)"

definition reportLine :: "string \<Rightarrow> string" where
  "reportLine payload = writeSidebandPktLine (CHR 0x01) (writePktLine payload)"

definition ngLine :: "(reject_msg \<Rightarrow> string) \<Rightarrow> Rejection list \<Rightarrow> RefUpdate \<Rightarrow> string" where
  "ngLine render rejections u =
     ''ng '' @ u_ref u @ '' '' @
     refReason (collectReasons render rejections (Map.empty, [])) (u_ref u) @ [newline]"

definition writeReportStatusRejection ::
  "(reject_msg \<Rightarrow> string) \<Rightarrow> RefUpdate list \<Rightarrow> Rejection list \<Rightarrow> string" where
  "writeReportStatusRejection render updates rejections =
     reportLine (''unpack ok'' @ [newline]) @
     concat (map (\<lambda>u. reportLine (ngLine render rejections u)) updates) @
     writeSidebandPktLine (CHR 0x01) ''0000'' @
     writeFlushPkt"

subsection \<open>Helpers of the receive-pack handler\<close>

definition findBaseRefUpdate :: "string \<Rightarrow> RefUpdate list \<Rightarrow> RefUpdate option" where
  "findBaseRefUpdate sessionID updates =
     find (\<lambda>u. u_ref u = ''refs/heads/jam/'' @ sessionID @ ''/base'' \<and>
               length (filter (\<lambda>c. c = CHR ''/'') (TrimPrefix (u_ref u) ''refs/heads/jam/'')) = 1)
       updates"

definition looksLikeReportStatus :: "string \<Rightarrow> bool" where
  "looksLikeReportStatus buf =
     (if length buf < 8 then False
      else case hex_prefix_value 0 (take 4 buf) of
             Inl _ \<Rightarrow> False
           | Inr pktLen \<Rightarrow>
               if pktLen < 4 then False
               else if length buf < pktLen then False
               else HasPrefix (drop 4 (take pktLen buf)) ''unpack '')"

subsection \<open>Specification side: a receiver of pkt-lines\<close>

text \<open>
  What a git client does with the bytes: it reads pkt-lines up to the flush packet.  The receiver
  is built on the reader of the source.
\<close>

function receivePkts :: "string \<Rightarrow> pkt_error + string list \<times> string" where
  "receivePkts r =
     (case readPktLineLen r of
        Inl e \<Rightarrow> Inl e
      | Inr (n, r1) \<Rightarrow>
          if n = 0 then Inr ([], r1)
          else if n < 4 then Inl (BadLength n)
          else if length r1 < n - 4 then Inl ShortPayload
          else (case receivePkts (drop (n - 4) r1) of
                  Inl e \<Rightarrow> Inl e
                | Inr (ps, rest) \<Rightarrow> Inr (take (n - 4) r1 # ps, rest)))"
  by pat_completeness auto
termination
  by (relation "measure length") (auto simp: readPktLineLen_def split: if_splits sum.splits)

declare receivePkts.simps [simp del]

text \<open>A command as a git client sends it, with the capability list of the first line if any.\<close>

record push_command =
  pc_old :: string
  pc_new :: string
  pc_ref :: string
  pc_caps :: "string option"

definition encodeCommand :: "push_command \<Rightarrow> string" where
  "encodeCommand c =
     writePktLine (pc_old c @ '' '' @ pc_new c @ '' '' @ pc_ref c @
       (case pc_caps c of None \<Rightarrow> [] | Some cs \<Rightarrow> CHR 0x00 # cs) @ [newline])"

definition wfCommand :: "push_command \<Rightarrow> bool" where
  "wfCommand c \<longleftrightarrow>
     CHR '' '' \<notin> set (pc_old c) \<union> set (pc_new c) \<and>
     {CHR 0x00, newline} \<inter> (set (pc_old c) \<union> set (pc_new c) \<union> set (pc_ref c)) = {} \<and>
     length (pc_old c) + length (pc_new c) + length (pc_ref c) +
       (case pc_caps c of None \<Rightarrow> 0 | Some cs \<Rightarrow> Suc (length cs)) + 3 < 65532"

definition commandUpdate :: "push_command \<Rightarrow> RefUpdate" where
  "commandUpdate c =
     \<lparr>u_ref = pc_ref c, u_old = (if pc_old c = zeroSHA then [] else pc_old c), u_new = pc_new c\<rparr>"

definition commandCaps :: "push_command \<Rightarrow> string set" where
  "commandCaps c = (case pc_caps c of None \<Rightarrow> {} | Some cs \<Rightarrow> set (Fields cs))"

subsection \<open>Lemmas: the length prefix\<close>

lemma hex_prefix_value_append:
  "hex_prefix_value n (xs @ ys) =
     (case hex_prefix_value n xs of Inl c \<Rightarrow> Inl c | Inr m \<Rightarrow> hex_prefix_value m ys)"
  by (induction xs arbitrary: n) (auto split: option.splits)

lemma hex_prefix_value_zeros: "hex_prefix_value 0 (replicate k (CHR ''0'')) = Inr 0"
  by (induction k) (auto simp: hex_digit_value_def)

lemma hex_prefix_value_hex_digits: "hex_prefix_value 0 (hex_digits n) = Inr n"
proof (induction n rule: hex_digits.induct)
  case (1 n)
  show ?case
  proof (cases "n < 16")
    case True
    then show ?thesis by (simp add: hex_digits.simps hex_digit_value_hex_digit)
  next
    case False
    with 1 have "hex_prefix_value 0 (hex_digits (n div 16)) = Inr (n div 16)" by simp
    with False show ?thesis
      by (subst hex_digits.simps)
         (simp add: hex_prefix_value_append hex_digit_value_hex_digit)
  qed
qed

lemma hex_prefix_value_fmt_04x: "hex_prefix_value 0 (fmt_04x n) = Inr n"
  by (simp add: fmt_04x_def Let_def hex_prefix_value_append hex_prefix_value_zeros
      hex_prefix_value_hex_digits)

lemma readPktLineLen_fmt [go_simps]:
  "n < 65536 \<Longrightarrow> readPktLineLen (fmt_04x n @ rest) = Inr (n, rest)"
  by (simp add: readPktLineLen_def length_fmt_04x hex_prefix_value_fmt_04x)

lemma readPktLineLen_flush [go_simps]: "readPktLineLen (writeFlushPkt @ rest) = Inr (0, rest)"
  by (simp add: readPktLineLen_def writeFlushPkt_def hex_digit_value_def)

lemma readPktLineLen_write:
  "length p < 65532 \<Longrightarrow> readPktLineLen (writePktLine p @ rest) = Inr (length p + 4, p @ rest)"
  by (simp add: writePktLine_def readPktLineLen_fmt)

subsection \<open>Lemmas: reading what was written\<close>

lemma receivePkts_flush: "receivePkts (writeFlushPkt @ rest) = Inr ([], rest)"
  by (subst receivePkts.simps) (simp add: readPktLineLen_flush)

lemma receivePkts_write:
  assumes "length p < 65532"
  shows "receivePkts (writePktLine p @ rest) =
           (case receivePkts rest of Inl e \<Rightarrow> Inl e | Inr (ps, t) \<Rightarrow> Inr (p # ps, t))"
  by (subst receivePkts.simps)
     (cases "receivePkts rest"; auto simp: readPktLineLen_write [OF assms])

lemma writeSideband_as_write: "writeSidebandPktLine b p = writePktLine (b # p)"
  by (simp add: writeSidebandPktLine_def writePktLine_def)

lemma receivePkts_writes:
  "\<forall>p \<in> set ps. length p < 65532 \<Longrightarrow>
   receivePkts (concat (map writePktLine ps) @ writeFlushPkt @ rest) = Inr (ps, rest)"
  by (induction ps) (simp_all add: receivePkts_flush receivePkts_write)

lemma commandLine_encode:
  assumes "wfCommand c"
  shows "commandLine (pc_old c @ '' '' @ pc_new c @ '' '' @ pc_ref c @
           (case pc_caps c of None \<Rightarrow> [] | Some cs \<Rightarrow> CHR 0x00 # cs) @ [newline]) =
         (pc_old c @ '' '' @ pc_new c @ '' '' @ pc_ref c,
          case pc_caps c of None \<Rightarrow> [] | Some cs \<Rightarrow> Fields cs)"
proof -
  let ?l = "pc_old c @ '' '' @ pc_new c @ '' '' @ pc_ref c"
  have nul: "CHR 0x00 \<notin> set ?l" and nl: "newline \<notin> set ?l"
    using assms by (auto simp: wfCommand_def newline_def)
  show ?thesis
  proof (cases "pc_caps c")
    case None
    have "IndexByte (?l @ [newline]) (CHR 0x00) = None"
      using nul by (simp add: IndexByte_None_iff newline_def)
    then have "commandLine (?l @ [newline]) = (?l, [])"
      using TrimSuffix_single [of ?l newline] by (simp add: commandLine_def)
    with None show ?thesis by simp
  next
    case (Some cs)
    have "IndexByte (?l @ CHR 0x00 # cs @ [newline]) (CHR 0x00) = Some (length ?l)"
      by (rule IndexByte_append [OF nul])
    moreover have "take (length ?l) (?l @ CHR 0x00 # cs @ [newline]) = ?l"
      "drop (length ?l + 1) (?l @ CHR 0x00 # cs @ [newline]) = cs @ [newline]"
      by (simp_all del: append_assoc)
    ultimately have "commandLine (?l @ CHR 0x00 # cs @ [newline]) = (?l, Fields cs)"
      unfolding commandLine_def using TrimSuffix_single [of cs newline] TrimSuffix_notin [OF nl]
      by (simp del: append_assoc)
    with Some show ?thesis by simp
  qed
qed

lemma SplitN_command:
  assumes "wfCommand c"
  shows "SplitN (CHR '' '') 3 (pc_old c @ '' '' @ pc_new c @ '' '' @ pc_ref c) =
           [pc_old c, pc_new c, pc_ref c]"
  using assms by (simp add: wfCommand_def numeral_3_eq_3)

lemma readCommands_step:
  assumes "readPktLineLen br = Inr (n, br1)" and "4 \<le> n" and "n - 4 \<le> length br1"
    and "commandLine (take (n - 4) br1) = (line, newCaps)"
    and "SplitN (CHR '' '') 3 line = [a, b, r]"
  shows "readCommands us caps br =
           readCommands (us @ [\<lparr>u_ref = r, u_old = (if a = zeroSHA then [] else a), u_new = b\<rparr>])
             (caps \<union> set newCaps) (drop (n - 4) br1)"
  using assms by (subst readCommands.simps) simp

lemma readCommands_encode:
  assumes "wfCommand c"
  shows "readCommands us caps (encodeCommand c @ rest) =
           readCommands (us @ [commandUpdate c]) (caps \<union> commandCaps c) rest"
proof -
  let ?p = "pc_old c @ '' '' @ pc_new c @ '' '' @ pc_ref c @
       (case pc_caps c of None \<Rightarrow> [] | Some cs \<Rightarrow> CHR 0x00 # cs) @ [newline]"
  have len: "length ?p < 65532"
    using assms by (auto simp: wfCommand_def split: option.splits)
  have "readCommands us caps (writePktLine ?p @ rest) =
          readCommands (us @ [commandUpdate c])
            (caps \<union> set (case pc_caps c of None \<Rightarrow> [] | Some cs \<Rightarrow> Fields cs))
            (drop (length ?p + 4 - 4) (?p @ rest))"
    unfolding commandUpdate_def
  proof (rule readCommands_step [OF readPktLineLen_write [OF len] _ _ _ SplitN_command [OF assms]])
    show "commandLine (take (length ?p + 4 - 4) (?p @ rest)) =
        (pc_old c @ '' '' @ pc_new c @ '' '' @ pc_ref c,
         case pc_caps c of None \<Rightarrow> [] | Some cs \<Rightarrow> Fields cs)"
      using commandLine_encode [OF assms] by (simp del: append_assoc)
  qed simp_all
  moreover have "set (case pc_caps c of None \<Rightarrow> [] | Some cs \<Rightarrow> Fields cs) = commandCaps c"
    by (simp add: commandCaps_def split: option.split)
  moreover have "drop (length ?p + 4 - 4) (?p @ rest) = rest" by (simp del: append_assoc)
  ultimately show ?thesis by (simp only: encodeCommand_def)
qed

lemma readCommands_encodes:
  "\<forall>c \<in> set cs. wfCommand c \<Longrightarrow>
   readCommands us caps (concat (map encodeCommand cs) @ writeFlushPkt @ pack) =
     Inr (us @ map commandUpdate cs, caps \<union> (\<Union>c \<in> set cs. commandCaps c), pack)"
proof (induction cs arbitrary: us caps)
  case Nil
  show ?case by (subst readCommands.simps) (simp add: readPktLineLen_flush)
next
  case (Cons c cs)
  then show ?case by (simp add: readCommands_encode Un_assoc)
qed

lemma readCommands_suffix:
  "readCommands us caps br = Inr (us', caps', pack) \<Longrightarrow>
     (\<exists>cmds. br = cmds @ pack \<and> 4 \<le> length cmds) \<and> (\<exists>new. us' = us @ new)"
proof (induction us caps br rule: readCommands.induct)
  case (1 us caps br)
  from "1.prems" obtain n br1 where len: "readPktLineLen br = Inr (n, br1)"
    by (subst (asm) readCommands.simps) (auto split: sum.splits)
  then have br: "br = take 4 br @ br1" "4 \<le> length br"
    by (auto simp: readPktLineLen_def split: if_splits sum.splits)
  show ?case
  proof (cases "n = 0")
    case True
    with "1.prems" len have "us' = us" "pack = br1"
      by (auto simp: readCommands.simps [of us caps br])
    with br show ?thesis by (metis append_Nil2 length_take min.absorb2 order_refl)
  next
    case False
    with "1.prems" len obtain line caps1 a b r where
      st: "\<not> n < 4" "\<not> length br1 < n - 4" "commandLine (take (n - 4) br1) = (line, caps1)"
        "SplitN (CHR '' '') 3 line = [a, b, r]"
      and rec: "readCommands
          (us @ [\<lparr>u_ref = r, u_old = (if a = zeroSHA then [] else a), u_new = b\<rparr>])
          (caps \<union> set caps1) (drop (n - 4) br1) = Inr (us', caps', pack)"
      by (subst (asm) readCommands.simps)
         (auto split: if_splits prod.splits list.splits)
    from "1.IH" [OF len refl False st(1,2) st(3) [symmetric] st(4) refl refl refl rec]
    have "(\<exists>cmds. drop (n - 4) br1 = cmds @ pack) \<and>
          (\<exists>new. us' = us @ [\<lparr>u_ref = r, u_old = (if a = zeroSHA then [] else a), u_new = b\<rparr>] @ new)"
      by auto
    then obtain cmds new where "drop (n - 4) br1 = cmds @ pack"
      and us': "us' = us @ [\<lparr>u_ref = r, u_old = (if a = zeroSHA then [] else a), u_new = b\<rparr>] @ new"
      by blast
    then have "br = (take 4 br @ take (n - 4) br1 @ cmds) @ pack"
      using br(1) by (metis append.assoc append_take_drop_id)
    moreover have "4 \<le> length (take 4 br @ take (n - 4) br1 @ cmds)"
      using br(2) by simp
    ultimately show ?thesis using us' by blast
  qed
qed

subsection \<open>Lemmas: the report and its shape\<close>

lemma reportLine_as_write: "reportLine p = writePktLine (CHR 0x01 # writePktLine p)"
  by (simp add: reportLine_def writeSideband_as_write)

lemma length_writePktLine: "length p < 65532 \<Longrightarrow> length (writePktLine p) = length p + 4"
  by (simp add: writePktLine_def length_fmt_04x)

lemma looksLikeReportStatus_first_line:
  assumes "HasPrefix w ''unpack ''" and "4 \<le> length w" and "length w < 65532"
  shows "looksLikeReportStatus (writePktLine w @ rest)"
  using assms
  by (simp add: looksLikeReportStatus_def writePktLine_def length_fmt_04x hex_prefix_value_fmt_04x)

lemma report_as_writes:
  "writeReportStatusRejection render updates rejections =
     concat (map writePktLine
       (map (\<lambda>p. CHR 0x01 # writePktLine p)
          ((''unpack ok'' @ [newline]) # map (ngLine render rejections) updates) @
        [CHR 0x01 # ''0000''])) @ writeFlushPkt"
  by (simp add: writeReportStatusRejection_def reportLine_as_write writeSideband_as_write
      comp_def writeFlushPkt_def)

lemma fmt_04x_five_digits:
  assumes "65536 \<le> n" and "n < 1048576"
  shows "fmt_04x n = fmt_04x (n div 16) @ [hex_digit (n mod 16)]"
proof -
  have long: "4 \<le> length (hex_digits m)" if "4096 \<le> m" for m
  proof -
    have "hex_digits m = hex_digits (m div 16 div 16 div 16) @
            [hex_digit (m div 16 div 16 mod 16), hex_digit (m div 16 mod 16), hex_digit (m mod 16)]"
    proof -
      have a: "256 \<le> m div 16" using div_le_mono [OF that, of 16] by simp
      have "16 \<le> m div 16 div 16" using div_le_mono [OF a, of 16] by simp
      with a that show ?thesis
        by (subst hex_digits.simps, subst hex_digits.simps, subst hex_digits.simps) simp
    qed
    moreover have "1 \<le> length (hex_digits k)" for k by (subst hex_digits.simps) simp
    ultimately show ?thesis by simp
  qed
  have "hex_digits n = hex_digits (n div 16) @ [hex_digit (n mod 16)]"
    using assms(1) by (subst hex_digits.simps) simp
  moreover have "4 \<le> length (hex_digits (n div 16))" using assms(1) by (intro long) simp
  ultimately show ?thesis by (simp add: fmt_04x_def Let_def)
qed

subsection \<open>Properties\<close>



text \<open>
  C32: A rejected push is reported in a form the client can parse: reading the bytes of
  \<^verbatim>\<open>writeReportStatusRejection\<close> as pkt-lines consumes all of them, every packet is on side band 1, and
  the demultiplexed stream reads again as \<^verbatim>\<open>unpack ok\<close> followed by one \<^verbatim>\<open>ng\<close> line per ref update, in the
  order of the updates, closed by the inner flush.  The condition is that no line is too long for
  a pkt-line.
\<close>

theorem report_status_demultiplexes:
  assumes "\<forall>u \<in> set updates. length (ngLine render rejections u) < 65527"
  shows "\<exists>packets.
           receivePkts (writeReportStatusRejection render updates rejections) = Inr (packets, []) \<and>
           list_all (\<lambda>p. take 1 p = [CHR 0x01]) packets \<and>
           receivePkts (concat (map (drop 1) packets)) =
             Inr ((''unpack ok'' @ [newline]) # map (ngLine render rejections) updates, [])"
proof -
  let ?lines = "(''unpack ok'' @ [newline]) # map (ngLine render rejections) updates"
  let ?packets = "map (\<lambda>p. CHR 0x01 # writePktLine p) ?lines @ [CHR 0x01 # ''0000'']"
  have short: "\<forall>p \<in> set ?lines. length p < 65527" using assms by auto
  then have "\<forall>p \<in> set ?packets. length p < 65532"
    by (auto simp: length_writePktLine)
  from receivePkts_writes [OF this, of "[]"]
  have outer: "receivePkts (writeReportStatusRejection render updates rejections) = Inr (?packets, [])"
    by (simp only: report_as_writes append_Nil2)
  have "concat (map (drop 1) ?packets) = concat (map writePktLine ?lines) @ writeFlushPkt"
    by (simp add: comp_def writeFlushPkt_def)
  moreover have "\<forall>p \<in> set ?lines. length p < 65532" using short by auto
  ultimately have "receivePkts (concat (map (drop 1) ?packets)) = Inr (?lines, [])"
    using receivePkts_writes [of ?lines "[]"] by (simp only: append_Nil2)
  moreover have "list_all (\<lambda>p. take 1 p = [CHR 0x01]) ?packets" by (simp add: list_all_iff)
  ultimately show ?thesis using outer by blast
qed

theorem report_status_demultiplexes_witness:
  "\<exists>packets.
     receivePkts (writeReportStatusRejection (\<lambda>_. ''no'')
       [\<lparr>u_ref = ''refs/heads/main'', u_old = [], u_new = ''ab''\<rparr>] []) = Inr (packets, []) \<and>
     list_all (\<lambda>p. take 1 p = [CHR 0x01]) packets \<and>
     receivePkts (concat (map (drop 1) packets)) =
       Inr ((''unpack ok'' @ [newline]) #
            map (ngLine (\<lambda>_. ''no'') []) [\<lparr>u_ref = ''refs/heads/main'', u_old = [], u_new = ''ab''\<rparr>], [])"
  by (rule report_status_demultiplexes) (simp add: ngLine_def refReason_def)

text \<open>
  The length prefix has no escape for long lines: a payload of 65532 bytes or more (up to the
  next digit) is announced with five hexadecimal digits, so a reader takes the first four of them
  and sees a sixteenth of the length, with the fifth digit as the first byte of the payload.  A
  rejection message that lists many out-of-scope paths reaches this size.
\<close>

theorem writePktLine_oversize:
  assumes "65532 \<le> length p" and "length p < 1048572"
  shows "readPktLineLen (writePktLine p @ rest) =
           Inr ((length p + 4) div 16, hex_digit ((length p + 4) mod 16) # p @ rest)"
proof -
  have "fmt_04x (length p + 4) = fmt_04x ((length p + 4) div 16) @ [hex_digit ((length p + 4) mod 16)]"
    using assms by (intro fmt_04x_five_digits) simp_all
  moreover have "(length p + 4) div 16 < 65536" using assms by simp
  ultimately show ?thesis by (simp add: writePktLine_def readPktLineLen_fmt)
qed

theorem writePktLine_oversize_witness:
  "readPktLineLen (writePktLine (replicate 65532 (CHR ''x'')) @ []) =
     Inr ((length (replicate 65532 (CHR ''x'')) + 4) div 16,
          hex_digit ((length (replicate 65532 (CHR ''x'')) + 4) mod 16) #
          replicate 65532 (CHR ''x'') @ [])"
  by (rule writePktLine_oversize; subst length_replicate; simp)

text \<open>
  \<^verbatim>\<open>looksLikeReportStatus\<close> recognises a plain report-status whose first pkt-line fits, and does not
  recognise one that is wrapped in the side band: the very bytes \<^verbatim>\<open>writeReportStatusRejection\<close> sends are
  not recognised as a report-status.
\<close>

theorem looksLikeReportStatus_plain_and_sideband:
  "(length status < 65525 \<longrightarrow>
      looksLikeReportStatus (writePktLine (''unpack '' @ status) @ rest)) \<and>
   (length (writePktLine p) < 65531 \<longrightarrow>
      \<not> looksLikeReportStatus (writeSidebandPktLine (CHR 0x01) (writePktLine p) @ rest)) \<and>
   \<not> looksLikeReportStatus (writeReportStatusRejection render updates rejections)"
proof -
  have sideband: "\<not> looksLikeReportStatus (writeSidebandPktLine (CHR 0x01) q @ r)"
    if "length q < 65531" for q r
  proof -
    have "4 \<le> length (fmt_04x (4 + 1 + length q))" by (simp add: fmt_04x_def Let_def)
    with that show ?thesis
      by (auto simp: looksLikeReportStatus_def writeSidebandPktLine_def length_fmt_04x
          hex_prefix_value_fmt_04x HasPrefix_def split: if_splits)
  qed
  moreover have "looksLikeReportStatus (writePktLine (''unpack '' @ status) @ rest)"
    if "length status < 65525"
    by (rule looksLikeReportStatus_first_line) (use that in simp_all)
  moreover have "\<not> looksLikeReportStatus (writeReportStatusRejection render updates rejections)"
    using sideband [of "writePktLine (''unpack ok'' @ [newline])"]
    by (simp add: writeReportStatusRejection_def reportLine_def length_writePktLine)
  ultimately show ?thesis by blast
qed

theorem looksLikeReportStatus_plain_and_sideband_witness:
  "looksLikeReportStatus (writePktLine (''unpack '' @ ''ok'') @ []) \<and>
   \<not> looksLikeReportStatus (writeSidebandPktLine (CHR 0x01) (writePktLine ''ok'') @ []) \<and>
   \<not> looksLikeReportStatus (writeReportStatusRejection (\<lambda>_. ''no'') [] [])"
  using looksLikeReportStatus_plain_and_sideband [of "''ok''" "[]" "''ok''" "\<lambda>_. ''no''" "[]" "[]"]
  by (simp add: length_writePktLine)

end
