(* ===== verification/GoJSON.thy ===== *)
theory GoJSON
  imports GoStrings
begin

text \<open>
  Go's \<^verbatim>\<open>json.Unmarshal\<close> into a \<^verbatim>\<open>[]string\<close>, the only JSON decoding the policy code does.  The call
  succeeds exactly on \<^verbatim>\<open>null\<close> and on an array whose elements are strings or \<^verbatim>\<open>null\<close>; any other
  input, a syntax error or a value of another JSON type, returns an error.  Escapes are decoded,
  lone surrogates and bytes that are not valid UTF-8 become U+FFFD, as the decoder's \<^verbatim>\<open>unquote\<close> does.
\<close>

definition byte :: "char \<Rightarrow> nat" where
  "byte c = of_char c"

definition json_space :: "char \<Rightarrow> bool" where
  "json_space c \<longleftrightarrow> byte c \<in> {0x20, 0x09, 0x0A, 0x0D}"

definition skip_ws :: "string \<Rightarrow> string" where
  "skip_ws s = dropWhile json_space s"

definition replacement_char :: string where
  "replacement_char = [CHR 0xEF, CHR 0xBF, CHR 0xBD]"

subsection \<open>UTF-8\<close>

definition cont_byte :: "nat \<Rightarrow> nat \<Rightarrow> string \<Rightarrow> nat \<Rightarrow> bool" where
  "cont_byte lo hi s i \<longleftrightarrow> i < length s \<and> lo \<le> byte (s ! i) \<and> byte (s ! i) \<le> hi"

text \<open>The length of the valid encoding at the front of a string, 0 when there is none.\<close>

definition utf8_len :: "string \<Rightarrow> nat" where
  "utf8_len s =
     (if s = [] then 0
      else let b = byte (hd s) in
        if b < 0x80 then 1
        else if 0xC2 \<le> b \<and> b \<le> 0xDF then (if cont_byte 0x80 0xBF s 1 then 2 else 0)
        else if 0xE0 \<le> b \<and> b \<le> 0xEF then
          (let lo = if b = 0xE0 then 0xA0 else 0x80; hi = if b = 0xED then 0x9F else 0xBF in
           if cont_byte lo hi s 1 \<and> cont_byte 0x80 0xBF s 2 then 3 else 0)
        else if 0xF0 \<le> b \<and> b \<le> 0xF4 then
          (let lo = if b = 0xF0 then 0x90 else 0x80; hi = if b = 0xF4 then 0x8F else 0xBF in
           if cont_byte lo hi s 1 \<and> cont_byte 0x80 0xBF s 2 \<and> cont_byte 0x80 0xBF s 3
           then 4 else 0)
        else 0)"

text \<open>\<^verbatim>\<open>utf8.AppendRune\<close> for a rune that is not a surrogate.\<close>

definition utf8_encode :: "nat \<Rightarrow> string" where
  "utf8_encode r =
     (if r < 0x80 then [char_of r]
      else if r < 0x800 then [char_of (0xC0 + r div 64), char_of (0x80 + r mod 64)]
      else if r < 0x10000 then
        [char_of (0xE0 + r div 4096), char_of (0x80 + (r div 64) mod 64), char_of (0x80 + r mod 64)]
      else
        [char_of (0xF0 + r div 262144), char_of (0x80 + (r div 4096) mod 64),
         char_of (0x80 + (r div 64) mod 64), char_of (0x80 + r mod 64)])"

subsection \<open>Strings\<close>

definition getu4 :: "string \<Rightarrow> nat option" where
  "getu4 s =
     (case s of
        a # b # c # d # _ \<Rightarrow>
          (case (hex_digit_value a, hex_digit_value b, hex_digit_value c, hex_digit_value d) of
             (Some w, Some x, Some y, Some z) \<Rightarrow> Some (w * 4096 + x * 256 + y * 16 + z)
           | _ \<Rightarrow> None)
      | _ \<Rightarrow> None)"

definition escape_char :: "char \<Rightarrow> char option" where
  "escape_char c =
     (if c = CHR 0x22 \<or> c = CHR 0x5C \<or> c = CHR 0x2F then Some c
      else if c = CHR ''b'' then Some (CHR 0x08)
      else if c = CHR ''f'' then Some (CHR 0x0C)
      else if c = CHR ''n'' then Some (CHR 0x0A)
      else if c = CHR ''r'' then Some (CHR 0x0D)
      else if c = CHR ''t'' then Some (CHR 0x09)
      else None)"

text \<open>The low half of a surrogate pair that follows an escape, when there is one.\<close>

definition low_surrogate :: "string \<Rightarrow> nat option" where
  "low_surrogate s =
     (case s of
        b # u # r \<Rightarrow>
          (if b = CHR 0x5C \<and> u = CHR ''u''
           then (case getu4 r of
                   Some v \<Rightarrow> if 0xDC00 \<le> v \<and> v \<le> 0xDFFF then Some v else None
                 | None \<Rightarrow> None)
           else None)
      | _ \<Rightarrow> None)"

text \<open>The text of a string literal and the rest of the input, from behind the opening quote.\<close>

function json_string :: "string \<Rightarrow> (string \<times> string) option" where
  "json_string s =
     (case s of
        [] \<Rightarrow> None
      | c # r \<Rightarrow>
          if c = CHR 0x22 then Some ([], r)
          else if byte c < 0x20 then None
          else if c = CHR 0x5C then
            (case r of
               [] \<Rightarrow> None
             | e # r2 \<Rightarrow>
                 if e = CHR ''u'' then
                   (case getu4 r2 of
                      None \<Rightarrow> None
                    | Some v \<Rightarrow>
                        if 0xD800 \<le> v \<and> v \<le> 0xDBFF \<and> low_surrogate (drop 4 r2) \<noteq> None
                        then map_option
                          (apfst (append (utf8_encode (0x10000 + (v - 0xD800) * 1024
                             + (the (low_surrogate (drop 4 r2)) - 0xDC00)))))
                          (json_string (drop 10 r2))
                        else map_option
                          (apfst (append (if 0xD800 \<le> v \<and> v \<le> 0xDFFF then replacement_char
                                          else utf8_encode v)))
                          (json_string (drop 4 r2)))
                 else (case escape_char e of
                         None \<Rightarrow> None
                       | Some x \<Rightarrow> map_option (apfst (Cons x)) (json_string r2)))
          else if utf8_len s = 0
            then map_option (apfst (append replacement_char)) (json_string r)
          else map_option (apfst (append (take (utf8_len s) s))) (json_string (drop (utf8_len s) s)))"
  by pat_completeness auto
termination
  by (relation "measure length") (auto)

declare json_string.simps [simp del]

subsection \<open>Arrays of strings\<close>

definition json_null :: "string \<Rightarrow> string option" where
  "json_null s = (if HasPrefix s ''null'' then Some (drop 4 s) else None)"

text \<open>An element: a string, or \<^verbatim>\<open>null\<close>, which leaves the element's zero value.\<close>

definition json_element :: "string \<Rightarrow> (string \<times> string) option" where
  "json_element s =
     (case s of
        c # r \<Rightarrow> if c = CHR 0x22 then json_string r else map_option (Pair []) (json_null s)
      | [] \<Rightarrow> None)"

lemma json_string_length:
  "json_string s = Some (w, r) \<Longrightarrow> length r < length s"
proof (induction s arbitrary: w r rule: measure_induct_rule[of length])
  case (less s)
  have IH: "length r' < length s" if "json_string y = Some (w', r')" "length y < length s" for y w' r'
    using less.IH[OF that(2,1)] that(2) by simp
  from less.prems show ?case
    by (subst (asm) json_string.simps)
       (auto split: list.splits if_splits option.splits dest!: IH simp: apfst_def map_prod_def)
qed

lemma json_element_length: "json_element s = Some (w, r) \<Longrightarrow> length r < length s"
  by (auto simp: json_element_def json_null_def HasPrefix_iff
           split: list.splits if_splits dest!: json_string_length)

lemma json_elements_decr:
  assumes e: "json_element (skip_ws s) = Some (w, r)" and s: "skip_ws r = c # r2"
  shows "length r2 < length s"
proof -
  have "length (skip_ws s) \<le> length s" and "length (skip_ws r) \<le> length r"
    by (simp_all add: skip_ws_def length_dropWhile_le)
  with json_element_length[OF e] s show ?thesis by simp
qed

text \<open>The elements of a non-empty array and the rest of the input, from behind the bracket.\<close>

function json_elements :: "string \<Rightarrow> (string list \<times> string) option" where
  "json_elements s =
     (case json_element (skip_ws s) of
        None \<Rightarrow> None
      | Some (w, r) \<Rightarrow>
          (case skip_ws r of
             [] \<Rightarrow> None
           | c # r2 \<Rightarrow>
               if c = CHR 0x2C then map_option (apfst (Cons w)) (json_elements r2)
               else if c = CHR 0x5D then Some ([w], r2)
               else None))"
  by pat_completeness auto
termination
  by (relation "measure length") (auto dest: json_elements_decr)

declare json_elements.simps [simp del]

definition UnmarshalStrings :: "string \<Rightarrow> string list option" where
  "UnmarshalStrings raw =
     (let s = skip_ws raw in
      if HasPrefix s ''null'' then (if skip_ws (drop 4 s) = [] then Some [] else None)
      else if HasPrefix s [CHR 0x5B] then
        (if HasPrefix (skip_ws (drop 1 s)) [CHR 0x5D]
         then (if skip_ws (drop 1 (skip_ws (drop 1 s))) = [] then Some [] else None)
         else (case json_elements (drop 1 s) of
                 None \<Rightarrow> None
               | Some (ws, r) \<Rightarrow> if skip_ws r = [] then Some ws else None))
      else None)"

lemma UnmarshalStrings_example:
  "UnmarshalStrings ([CHR 0x5B, CHR 0x22] @ ''src/**'' @ [CHR 0x22, CHR 0x2C, CHR 0x20, CHR 0x22,
     CHR 0x5C, CHR ''n'', CHR 0x22, CHR 0x5D]) = Some [''src/**'', [CHR 0x0A]]"
  by code_simp

subsection \<open>Encoding strings\<close>

text \<open>
  \<^verbatim>\<open>json.Marshal\<close> of a string: quotes, backslashes and control bytes are escaped, the HTML
  characters and U+2028, U+2029 as \<^verbatim>\<open>\u\<close> escapes, and a byte that is not valid UTF-8 as the escape
  of U+FFFD.
\<close>

definition u_escape :: "nat \<Rightarrow> string" where
  "u_escape n = [CHR 0x5C, CHR ''u''] @ fmt_04x n"

definition escape_byte :: "char \<Rightarrow> string" where
  "escape_byte c =
     (if c = CHR 0x22 \<or> c = CHR 0x5C then [CHR 0x5C, c]
      else if c = CHR 0x08 then [CHR 0x5C, CHR ''b'']
      else if c = CHR 0x0C then [CHR 0x5C, CHR ''f'']
      else if c = CHR 0x0A then [CHR 0x5C, CHR ''n'']
      else if c = CHR 0x0D then [CHR 0x5C, CHR ''r'']
      else if c = CHR 0x09 then [CHR 0x5C, CHR ''t'']
      else if byte c < 0x20 \<or> c = CHR ''<'' \<or> c = CHR ''>'' \<or> c = CHR ''&'' then u_escape (byte c)
      else [c])"

function json_quote_body :: "string \<Rightarrow> string" where
  "json_quote_body s =
     (case s of
        [] \<Rightarrow> []
      | c # r \<Rightarrow>
          if byte c < 0x80 then escape_byte c @ json_quote_body r
          else if utf8_len s = 0 then u_escape 0xFFFD @ json_quote_body r
          else if take 3 s = utf8_encode 0x2028 then u_escape 0x2028 @ json_quote_body (drop 3 s)
          else if take 3 s = utf8_encode 0x2029 then u_escape 0x2029 @ json_quote_body (drop 3 s)
          else take (utf8_len s) s @ json_quote_body (drop (utf8_len s) s))"
  by pat_completeness auto
termination
  by (relation "measure length") (auto)

declare json_quote_body.simps [simp del]

definition json_quote :: "string \<Rightarrow> string" where
  "json_quote s = CHR 0x22 # json_quote_body s @ [CHR 0x22]"

definition MarshalStrings :: "string list \<Rightarrow> string" where
  "MarshalStrings xs = CHR 0x5B # Join (map json_quote xs) [CHR 0x2C] @ [CHR 0x5D]"

text \<open>A struct whose fields are strings: the fields in their order of declaration.\<close>

definition MarshalObject :: "(string \<times> string) list \<Rightarrow> string" where
  "MarshalObject kvs =
     CHR 0x7B # Join (map (\<lambda>(k, v). json_quote k @ CHR 0x3A # json_quote v) kvs) [CHR 0x2C] @ [CHR 0x7D]"

lemma MarshalStrings_example:
  "MarshalStrings [''a'', [CHR 0x0A, CHR 0x22, CHR ''<'']] =
     [CHR 0x5B, CHR 0x22, CHR ''a'', CHR 0x22, CHR 0x2C, CHR 0x22, CHR 0x5C, CHR ''n'', CHR 0x5C,
      CHR 0x22, CHR 0x5C] @ ''u003c'' @ [CHR 0x22, CHR 0x5D]"
  by code_simp

end
