(* ===== verification/StoreTypes.thy ===== *)
theory StoreTypes
  imports GoStrings
begin

text \<open>
  Domain rows of the store that several components read (\<^verbatim>\<open>internal/db/store/store.go\<close>).  A
  \<^verbatim>\<open>time.Time\<close> is an integer number of nanoseconds, a nullable column an \<^typ>\<open>'a option\<close>.
\<close>

type_synonym time = int

record Session =
  s_id :: string
  s_org :: string
  s_name :: string
  s_goal :: string
  s_writable_scope :: string
  s_default_mode :: string
  s_base_sha :: "string option"
  s_status :: string
  s_created_at :: time
  s_ended_at :: "time option"
  s_end_reason :: "string option"
  s_finalize_locked_by :: "string option"
  s_last_activity_at :: "time option"
  s_hard_cap_at :: "time option"
  s_idle_timeout_at :: "time option"

record Account =
  a_id :: string
  a_email :: string
  a_display_name :: string
  a_github_user_id :: "string option"
  a_created_at :: time
  a_is_anonymous :: bool

end
