(* ===== verification/CommitTrailers.thy ===== *)
theory CommitTrailers
  imports GoStrings
begin

text \<open>
  The trailer block of a commit message (\<^verbatim>\<open>internal/portal/prereceive/trailers.go\<close>): the last
  paragraph of the message, when every line of it is a trailer or a folded continuation.  The
  theory shows that what a client writes as a trailer block is read back, whatever the text in
  front of it, and what the required-trailer check accepts.
\<close>

subsection \<open>The parser\<close>

record trailer =
  t_key :: string
  t_value :: string

definition ascii_letter :: "char \<Rightarrow> bool" where
  "ascii_letter c \<longleftrightarrow>
     (let n = of_char c :: nat in (65 \<le> n \<and> n \<le> 90) \<or> (97 \<le> n \<and> n \<le> 122))"

definition ascii_digit :: "char \<Rightarrow> bool" where
  "ascii_digit c \<longleftrightarrow> (let n = of_char c :: nat in 48 \<le> n \<and> n \<le> 57)"

definition trailer_key_char :: "char \<Rightarrow> bool" where
  "trailer_key_char c \<longleftrightarrow> ascii_letter c \<or> ascii_digit c \<or> c = CHR ''_'' \<or> c = CHR ''-''"

text \<open>The class \<^verbatim>\<open>\s\<close> of Go's regular expressions.\<close>

definition re_space :: "char \<Rightarrow> bool" where
  "re_space c \<longleftrightarrow> c \<in> {tab, newline, CHR 0x0C, carriage_return, CHR '' ''}"

text \<open>
  \<^verbatim>\<open>trailerRe.FindStringSubmatch\<close> on a line without a newline, as the two groups.  The expression is
  \<^verbatim>\<open>^([A-Za-z][A-Za-z0-9_-]*):\s+(.+)$\<close>; \<^verbatim>\<open>\s+\<close> is greedy and gives back one character when nothing
  else is left for \<^verbatim>\<open>.+\<close>.
\<close>

definition trailerRe :: "string \<Rightarrow> (string \<times> string) option" where
  "trailerRe l =
     (let k = takeWhile trailer_key_char l; r = dropWhile trailer_key_char l in
      if k = [] \<or> \<not> ascii_letter (hd k) \<or> r = [] \<or> hd r \<noteq> CHR '':'' then None
      else let ws = takeWhile re_space (tl r); v = dropWhile re_space (tl r) in
        if ws = [] then None
        else if v \<noteq> [] then Some (k, v)
        else if 2 \<le> length ws then Some (k, [last ws])
        else None)"

fun parseBlock :: "trailer list \<Rightarrow> string list \<Rightarrow> trailer list option" where
  "parseBlock out [] = Some out"
| "parseBlock out (l # ls) =
     (if l = [] then None
      else if (hd l = CHR '' '' \<or> hd l = tab) \<and> out \<noteq> [] then
        parseBlock (butlast out @
          [(last out)\<lparr>t_value := t_value (last out) @ '' '' @ TrimSpace l\<rparr>]) ls
      else (case trailerRe l of
              None \<Rightarrow> None
            | Some (k, v) \<Rightarrow> parseBlock (out @ [\<lparr>t_key = k, t_value = v\<rparr>]) ls))"

definition nonblank :: "string \<Rightarrow> bool" where
  "nonblank l \<longleftrightarrow> TrimSpace l \<noteq> []"

definition parseTrailers :: "string \<Rightarrow> trailer list option" where
  "parseTrailers message =
     (let msg = TrimRight (ReplaceAll message [carriage_return, newline] [newline]) [newline] in
      if msg = [] then None
      else
        let lines = Split newline msg;
            blockStart = length lines - length (takeWhile nonblank (rev lines)) in
        if blockStart = 0 then None
        else let block = drop blockStart lines in
          if block = [] then None else parseBlock [] block)"

definition insert_first :: "trailer \<Rightarrow> (string \<rightharpoonup> string) \<Rightarrow> (string \<rightharpoonup> string)" where
  "insert_first t m = (if m (t_key t) = None then m(t_key t \<mapsto> t_value t) else m)"

definition Trailers :: "string \<Rightarrow> (string \<rightharpoonup> string) option" where
  "Trailers message =
     (case parseTrailers message of
        None \<Rightarrow> None
      | Some ts \<Rightarrow> Some (fold insert_first ts Map.empty))"

definition CheckRequiredTrailers :: "string \<Rightarrow> string list \<Rightarrow> string list" where
  "CheckRequiredTrailers message required =
     (let have = (case Trailers message of None \<Rightarrow> Map.empty | Some m \<Rightarrow> m) in
      filter (\<lambda>key. case have key of None \<Rightarrow> True | Some val \<Rightarrow> TrimSpace val = []) required)"

subsection \<open>What a client writes\<close>

definition trailerLine :: "trailer \<Rightarrow> string" where
  "trailerLine t = t_key t @ '': '' @ t_value t"

definition wfTrailer :: "trailer \<Rightarrow> bool" where
  "wfTrailer t \<longleftrightarrow>
     t_key t \<noteq> [] \<and> ascii_letter (hd (t_key t)) \<and> list_all trailer_key_char (t_key t) \<and>
     t_value t \<noteq> [] \<and> \<not> re_space (hd (t_value t)) \<and>
     newline \<notin> set (t_value t) \<and> carriage_return \<notin> set (t_value t)"

definition withTrailers :: "string \<Rightarrow> trailer list \<Rightarrow> string" where
  "withTrailers body ts = body @ [newline, newline] @ Join (map trailerLine ts) [newline]"

subsection \<open>Lemmas\<close>

lemma trailer_key_char_facts:
  "\<not> trailer_key_char (CHR '':'')" "\<not> trailer_key_char newline" "\<not> trailer_key_char carriage_return"
  "\<not> trailer_key_char (CHR '' '')" "\<not> trailer_key_char tab"
  by (simp_all add: trailer_key_char_def ascii_letter_def ascii_digit_def newline_def
        carriage_return_def tab_def)

lemma takeWhile_all_append:
  "list_all P xs \<Longrightarrow> \<not> P y \<Longrightarrow> takeWhile P (xs @ y # ys) = xs \<and> dropWhile P (xs @ y # ys) = y # ys"
  by (induction xs) auto

lemma trailerRe_trailerLine:
  assumes "wfTrailer t"
  shows "trailerRe (trailerLine t) = Some (t_key t, t_value t)"
proof -
  obtain v vs where v: "t_value t = v # vs" and nv: "\<not> re_space v"
    using assms by (cases "t_value t") (auto simp: wfTrailer_def)
  from assms have "list_all trailer_key_char (t_key t)" by (simp add: wfTrailer_def)
  from takeWhile_all_append[OF this trailer_key_char_facts(1)]
  have tw: "takeWhile trailer_key_char (trailerLine t) = t_key t"
    and dw: "dropWhile trailer_key_char (trailerLine t) = '': '' @ t_value t"
    by (auto simp: trailerLine_def)
  have sp: "re_space (CHR '' '')" by (simp add: re_space_def)
  show ?thesis
    unfolding trailerRe_def Let_def tw dw using assms nv sp
    by (simp add: wfTrailer_def v)
qed

lemma trailerLine_shape:
  assumes "wfTrailer t"
  shows "\<exists>c cs. trailerLine t = c # cs \<and> ascii_letter c"
    and "newline \<notin> set (trailerLine t)" and "carriage_return \<notin> set (trailerLine t)"
  using assms trailer_key_char_facts
  by (auto simp: trailerLine_def wfTrailer_def list_all_iff newline_def carriage_return_def neq_Nil_conv)

lemma trim_lead_Nil_set: "trim_lead ws s = [] \<Longrightarrow> set s \<subseteq> set (concat ws)"
proof (induction ws s rule: trim_lead.induct)
  case (1 ws s)
  show ?case
  proof (cases "lead_len ws s = 0")
    case True
    with "1.prems" show ?thesis by (simp add: trim_lead_id)
  next
    case False
    then obtain w where w: "find (\<lambda>w. w \<noteq> [] \<and> HasPrefix s w) ws = Some w" "lead_len ws s = length w"
      by (auto simp: lead_len_def split: option.splits)
    from find_Some_iff'[OF w(1)] have "set (take (length w) s) \<subseteq> set (concat ws)"
      by (auto simp: HasPrefix_def)
    moreover have "set (drop (length w) s) \<subseteq> set (concat ws)"
      using "1.IH"[OF False] "1.prems" w(2) False by (subst (asm) (2) trim_lead.simps) simp
    ultimately show ?thesis
      using append_take_drop_id[of "length w" s] by (metis Un_least set_append)
  qed
qed

lemma letter_not_space: "ascii_letter c \<Longrightarrow> c \<notin> set (concat utf8_spaces)"
  by (auto simp: utf8_spaces_def ascii_letter_def)

lemma letter_nonblank:
  assumes "ascii_letter c"
  shows "nonblank (c # cs)"
  unfolding nonblank_def
proof
  assume "TrimSpace (c # cs) = []"
  then have "set (rev (trim_lead utf8_spaces (c # cs))) \<subseteq> set (concat (map rev utf8_spaces))"
    by (intro trim_lead_Nil_set) (simp add: TrimSpace_def)
  moreover {
  have "lead_len utf8_spaces (c # cs) = 0"
    using letter_not_space[OF assms]
    by (auto simp: lead_len_def split: option.splits dest!: find_Some_iff' simp: HasPrefix_iff
        neq_Nil_conv)
  then have "trim_lead utf8_spaces (c # cs) = c # cs" by (rule trim_lead_id)
  }
  ultimately have "c \<in> set (concat (map rev utf8_spaces))" by simp
  also have "set (concat (map rev utf8_spaces)) = set (concat utf8_spaces)" by simp
  finally show False using letter_not_space[OF assms] by blast
qed

lemma parseBlock_trailerLines:
  assumes "\<forall>t \<in> set ts. wfTrailer t"
  shows "parseBlock out (map trailerLine ts) = Some (out @ ts)"
  using assms
proof (induction ts arbitrary: out)
  case (Cons t ts)
  from Cons.prems have wf: "wfTrailer t" by simp
  from trailerLine_shape(1)[OF wf] obtain c cs where c: "trailerLine t = c # cs" "ascii_letter c"
    by blast
  then have "c \<noteq> CHR '' ''" "c \<noteq> tab" by (auto simp: ascii_letter_def tab_def)
  with Cons c trailerRe_trailerLine[OF wf] show ?case by simp
qed simp

lemma ReplaceAll_crlf_tail:
  assumes "carriage_return \<notin> set b"
  shows "\<exists>a'. ReplaceAll (a @ newline # newline # b) [carriage_return, newline] [newline]
              = a' @ newline # newline # b"
proof (induction a rule: measure_induct_rule[of length])
  case (less a)
  let ?R = "\<lambda>s. ReplaceAll s [carriage_return, newline] [newline]"
  have id: "?R s = s" if "carriage_return \<notin> set s" for s
    by (rule ReplaceAll_hd_notin) (use that in auto)
  have step: "?R (x # s) = x # ?R s" if "x \<noteq> carriage_return \<or> \<not> HasPrefix s [newline]" for x s
    using that by (intro ReplaceAll_nomatch) auto
  have match: "?R (carriage_return # newline # s) = newline # ?R s" for s
    using ReplaceAll_match[of "[carriage_return, newline]" s "[newline]"] by simp
  have nl: "newline \<noteq> carriage_return" by (simp add: newline_def carriage_return_def)
  show ?case
  proof (cases a)
    case Nil
    with assms nl show ?thesis by (intro exI[of _ "[]"]) (simp add: id)
  next
    case (Cons x xs)
    obtain a1 where a1: "?R (xs @ newline # newline # b) = a1 @ newline # newline # b"
      using less.IH[of xs] Cons by auto
    consider "x \<noteq> carriage_return" | "x = carriage_return" "xs = []"
      | y ys where "x = carriage_return" "xs = y # ys" by (cases xs) auto
    then show ?thesis
    proof cases
      case 1
      with a1 Cons show ?thesis by (intro exI[of _ "x # a1"]) (simp add: step)
    next
      case 2
      with assms nl Cons show ?thesis by (intro exI[of _ "[]"]) (simp add: match id)
    next
      case 3
      show ?thesis
      proof (cases "y = newline")
        case True
        obtain a2 where "?R (ys @ newline # newline # b) = a2 @ newline # newline # b"
          using less.IH[of ys] Cons 3 by auto
        with 3 True Cons show ?thesis by (intro exI[of _ "newline # a2"]) (simp add: match)
      next
        case False
        with a1 Cons 3 show ?thesis by (intro exI[of _ "x # a1"]) (simp add: step)
      qed
    qed
  qed
qed

lemma fold_insert_first: "fold insert_first ts m = map_of (map (\<lambda>t. (t_key t, t_value t)) ts) ++ m"
proof (induction ts arbitrary: m)
  case (Cons t ts)
  then show ?case
    by (auto simp: insert_first_def map_add_def fun_eq_iff split: option.splits)
qed simp

lemma TrimRight_newlines:
  assumes "s \<noteq> []" and "last s \<noteq> newline"
  shows "TrimRight (s @ replicate k newline) [newline] = s"
  using assms by (subst TrimRight_append_cut) (auto simp: TrimRight_last)

lemma trailerLines_block:
  assumes wf: "\<forall>t \<in> set ts. wfTrailer t" and ne: "ts \<noteq> []"
  defines "b \<equiv> Join (map trailerLine ts) [newline]"
  shows "carriage_return \<notin> set b" and "b \<noteq> []" and "last b \<noteq> newline"
    and "Split newline b = map trailerLine ts"
proof -
  have nl: "newline \<noteq> carriage_return" by (simp add: newline_def carriage_return_def)
  have cr: "carriage_return \<notin> set (Join (map trailerLine us) [newline])"
    if "\<forall>t \<in> set us. wfTrailer t" for us
    using that nl by (induction us rule: induct_list012) (auto simp: trailerLine_shape(3))
  from cr[OF wf] show "carriage_return \<notin> set b" by (simp add: b_def)
  have last: "Join (map trailerLine us) [newline] \<noteq> [] \<and> last (Join (map trailerLine us) [newline]) \<noteq> newline"
    if "\<forall>t \<in> set us. wfTrailer t" "us \<noteq> []" for us
    using that
  proof (induction us rule: induct_list012)
    case (2 t)
    then show ?case
      using trailerLine_shape(1,2)[of t] last_in_set[of "trailerLine t"] by (metis list.distinct(1)
        list.set_intros(1) list.simps(8,9) Join.simps(2))
  next
    case (3 t u us)
    then show ?case by auto
  qed simp
  from last[OF wf ne] show "b \<noteq> []" and "last b \<noteq> newline" by (auto simp: b_def)
  show "Split newline b = map trailerLine ts"
    unfolding b_def using wf ne by (intro Split_Join) (auto simp: trailerLine_shape(2))
qed

lemma parseTrailers_withTrailers:
  assumes wf: "\<forall>t \<in> set ts. wfTrailer t" and ne: "ts \<noteq> []"
  shows "parseTrailers (withTrailers body ts @ replicate k newline) = Some ts"
proof -
  note blk = trailerLines_block[OF wf ne]
  let ?b = "Join (map trailerLine ts) [newline]"
  have "carriage_return \<notin> set (?b @ replicate k newline)"
    using blk(1) by (auto simp: newline_def carriage_return_def)
  from ReplaceAll_crlf_tail[OF this, of body] obtain a' where
    r: "ReplaceAll (withTrailers body ts @ replicate k newline) [carriage_return, newline] [newline]
        = (a' @ newline # newline # ?b) @ replicate k newline"
    by (auto simp: withTrailers_def)
  let ?m = "a' @ newline # newline # ?b"
  have tr: "TrimRight (?m @ replicate k newline) [newline] = ?m"
    using blk(2,3) by (intro TrimRight_newlines) auto
  have sp: "Split newline ?m = (Split newline a' @ [[]]) @ map trailerLine ts"
    using Split_append_sep[of newline a' "newline # ?b"] Split_append[of newline "[]" ?b] blk(4) by simp
  have nb: "\<forall>l \<in> set (map trailerLine ts). nonblank l"
    using wf trailerLine_shape(1) letter_nonblank by fastforce
  have "\<not> nonblank []" by (simp add: nonblank_def TrimSpace_def trim_lead_id)
  then have tw: "takeWhile nonblank (rev (Split newline ?m)) = rev (map trailerLine ts)"
    unfolding sp rev_append using nb by (subst takeWhile_append2) auto
  show ?thesis
    unfolding parseTrailers_def r tr Let_def tw unfolding sp
    using ne parseBlock_trailerLines[OF wf, of "[]"] by simp
qed

subsection \<open>Properties\<close>

text \<open>
  C33: a trailer block is read back.  A message that ends in a blank line and a block of
  well-formed trailers, with any body in front (also one with carriage returns) and any number of
  newlines behind, parses to exactly those trailers, and of two trailers with the same key the
  first counts.
\<close>

theorem Trailers_roundtrip:
  assumes "\<forall>t \<in> set ts. wfTrailer t" and "ts \<noteq> []"
  shows "Trailers (withTrailers body ts @ replicate k newline) =
         Some (map_of (map (\<lambda>t. (t_key t, t_value t)) ts))"
  using parseTrailers_withTrailers[OF assms] by (simp add: Trailers_def fold_insert_first)

definition jam_trailers :: "trailer list" where
  "jam_trailers = [\<lparr>t_key = ''Jam-Session'', t_value = ''s1''\<rparr>, \<lparr>t_key = ''Jam-Turn'', t_value = ''3''\<rparr>,
     \<lparr>t_key = ''Jam-Author'', t_value = ''ana <ana@example.org>''\<rparr>]"

theorem Trailers_roundtrip_witness:
  "Trailers (withTrailers ''Fix the parser'' jam_trailers @ [newline]) =
     Some (map_of [(''Jam-Session'', ''s1''), (''Jam-Turn'', ''3''),
                   (''Jam-Author'', ''ana <ana@example.org>'')])"
proof -
  have "\<forall>t \<in> set jam_trailers. wfTrailer t" by code_simp
  from Trailers_roundtrip[OF this, of "''Fix the parser''" 1] show ?thesis
    by (simp add: jam_trailers_def)
qed

end
