(* ===== verification/PreReceive.thy ===== *)
theory PreReceive
  imports GitTypes GoJSON StoreTypes CommitTrailers
begin

text \<open>
  The pre-receive push policy (\<^verbatim>\<open>internal/portal/prereceive\<close>): the ref namespace and force-push
  checks of \<^verbatim>\<open>refs.go\<close>, the commit walk of \<^verbatim>\<open>commits.go\<close>, the writable scope of \<^verbatim>\<open>scope.go\<close>, the size
  checks of \<^verbatim>\<open>size.go\<close> and \<^verbatim>\<open>playground_caps.go\<close>, and the entry point of \<^verbatim>\<open>validate.go\<close>.  The main
  result characterises exactly the pushes that \<^verbatim>\<open>Validate\<close> accepts.
\<close>

subsection \<open>Writable scope\<close>

text \<open>
  The glob library (\<^verbatim>\<open>doublestar\<close>) is a record of the two functions the code calls: \<^verbatim>\<open>ValidatePattern\<close>
  and \<^verbatim>\<open>Match\<close>, whose error return is \<^const>\<open>None\<close>.
\<close>

record globber =
  gl_valid :: "string \<Rightarrow> bool"
  gl_match :: "string \<Rightarrow> string \<Rightarrow> bool option"

fun normalize_from :: "string \<Rightarrow> string" where
  "normalize_from [] = []"
| "normalize_from [c] = [c]"
| "normalize_from (c # d # r) =
     (if c = CHR ''*'' \<and> d = CHR ''*''
      then ''**'' @ (if r \<noteq> [] \<and> hd r \<noteq> CHR ''/'' then ''/*'' else []) @ normalize_from r
      else c # normalize_from (d # r))"

definition normalizeForDoublestar :: "string \<Rightarrow> string" where
  "normalizeForDoublestar p = (if \<not> Contains p ''**'' then p else normalize_from p)"

fun CompileScope :: "globber \<Rightarrow> string list \<Rightarrow> string + string list" where
  "CompileScope g [] = Inr []"
| "CompileScope g (p # ps) =
     (let n = normalizeForDoublestar p in
      if \<not> gl_valid g n then Inl p
      else map_sum id (Cons n) (CompileScope g ps))"

definition Match :: "globber \<Rightarrow> string list \<Rightarrow> string \<Rightarrow> bool" where
  "Match g patterns path = list_ex (\<lambda>p. gl_match g p path = Some True) patterns"

text \<open>Why a scope payload is refused: not a JSON array of strings, or a malformed glob.\<close>

datatype scope_error = ScopeNotStrings | ScopeBadGlob string

definition ValidateWritableScope :: "globber \<Rightarrow> string \<Rightarrow> scope_error option" where
  "ValidateWritableScope g raw =
     (if raw = [] then None
      else case UnmarshalStrings raw of
             None \<Rightarrow> Some ScopeNotStrings
           | Some globs \<Rightarrow>
               (case CompileScope g globs of Inl p \<Rightarrow> Some (ScopeBadGlob p) | Inr _ \<Rightarrow> None))"

definition parseWritableScope :: "string \<Rightarrow> string list option" where
  "parseWritableScope raw = (if raw = [] then Some [] else UnmarshalStrings raw)"

subsection \<open>Ref namespace and force pushes\<close>

definition refSegmentSafe :: "string \<Rightarrow> bool" where
  "refSegmentSafe s =
     (let lower = ToLowerASCII s in
      if Contains s ''..'' then False
      else if Contains lower ''%2e%2e'' \<or> Contains lower ''%252e'' then False
      else True)"

text \<open>The iteration stops at the first ref that is not symbolic, so a later error is not seen.\<close>

definition repoIsEmpty :: "'t git_repo \<Rightarrow> bool option" where
  "repoIsEmpty repo =
     (case g_refs repo of
        None \<Rightarrow> None
      | Some (refs, iter_err) \<Rightarrow>
          let found = list_ex (\<lambda>(_, symbolic). \<not> symbolic) refs in
          if \<not> found \<and> iter_err then None else Some (\<not> found))"

definition jam_prefix :: string where
  "jam_prefix = ''refs/heads/jam/''"

definition checkRefNamespace :: "'t git_repo \<Rightarrow> string \<Rightarrow> string \<Rightarrow> string \<Rightarrow> bool \<times> bool" where
  "checkRefNamespace repo sessionID accountKey ref =
     (if \<not> HasPrefix ref jam_prefix then (False, False)
      else
        let rest = drop (length jam_prefix) ref;
            parts = SplitN (CHR ''/'') 3 rest in
        if length parts < 2 then (False, False)
        else
          let refSession = parts ! 0; ownerOrSpecial = parts ! 1 in
          if refSession \<noteq> sessionID then (False, False)
          else if ownerOrSpecial = ''base'' \<and> length parts = 2 then
            (case repoIsEmpty repo of
               Some True \<Rightarrow> (True, True)
             | _ \<Rightarrow> (False, True))
          else if length parts = 2 then (False, False)
          else if ownerOrSpecial \<noteq> accountKey then (False, False)
          else if parts ! 2 = [] \<or> \<not> refSegmentSafe (parts ! 2) then (False, False)
          else (True, False))"

text \<open>The slice expression \<^verbatim>\<open>s[:12]\<close>, which panics on a shorter string.\<close>

definition slice12 :: "string \<Rightarrow> ('e, string) run" where
  "slice12 s = (if length s < 12 then Panic else Ok (take 12 s))"

definition ref_detail :: "RefUpdate \<Rightarrow> string \<times> detail" where
  "ref_detail u = (''ref'', DStr (u_ref u))"
definition old_detail :: "RefUpdate \<Rightarrow> string \<times> detail" where
  "old_detail u = (''old_sha'', DStr (u_old u))"
definition new_detail :: "RefUpdate \<Rightarrow> string \<times> detail" where
  "new_detail u = (''new_sha'', DStr (u_new u))"

definition checkForcePush :: "'t git_repo \<Rightarrow> RefUpdate \<Rightarrow> bool \<Rightarrow> ('e, Rejection option) run" where
  "checkForcePush repo u isBase =
     (case g_commit repo (g_new_hash repo (u_old u)) of
        None \<Rightarrow> run_bind (slice12 (u_old u)) (\<lambda>old12. Ok (Some
          \<lparr>rj_code = CodeForcePushRejected, rj_message = MsgOldUnresolved (u_ref u) old12,
           rj_details = [ref_detail u, old_detail u]\<rparr>))
      | Some oldCommit \<Rightarrow>
     (case g_commit repo (g_new_hash repo (u_new u)) of
        None \<Rightarrow> run_bind (slice12 (u_new u)) (\<lambda>new12. Ok (Some
          \<lparr>rj_code = CodeForcePushRejected, rj_message = MsgNewUnresolved (u_ref u) new12,
           rj_details = [ref_detail u, new_detail u]\<rparr>))
      | Some newCommit \<Rightarrow>
     (case g_is_ancestor repo oldCommit newCommit of
        None \<Rightarrow> Ok (Some
          \<lparr>rj_code = CodeForcePushRejected, rj_message = MsgAncestryFailed (u_ref u),
           rj_details = [ref_detail u, old_detail u, new_detail u]\<rparr>)
      | Some True \<Rightarrow> Ok None
      | Some False \<Rightarrow>
          run_bind (slice12 (u_old u)) (\<lambda>old12. run_bind (slice12 (u_new u)) (\<lambda>new12. Ok (Some
            \<lparr>rj_code = CodeForcePushRejected,
             rj_message = (if isBase then MsgSharedBase (u_ref u)
                           else MsgNotAncestor (u_ref u) old12 new12),
             rj_details = [ref_detail u, old_detail u, new_detail u]\<rparr>))))))"

definition ValidateRef ::
  "'t git_repo \<Rightarrow> string \<Rightarrow> string \<Rightarrow> RefUpdate \<Rightarrow> ('e, Rejection list) run" where
  "ValidateRef repo sessionID accountKey u =
     (let (nsOK, isBase) = checkRefNamespace repo sessionID accountKey (u_ref u) in
      if \<not> nsOK then Ok
        [\<lparr>rj_code = CodeRefNamespaceViolation,
          rj_message = MsgNamespace (u_ref u) sessionID accountKey,
          rj_details = [ref_detail u, (''session_id'', DStr sessionID), (''account_id'', DStr accountKey)]\<rparr>]
      else if u_old u \<noteq> [] then
        run_bind (checkForcePush repo u isBase) (\<lambda>r.
          case r of Some rj \<Rightarrow> Ok [rj] | None \<Rightarrow> Ok [])
      else Ok [])"

subsection \<open>Commits\<close>

definition requiredTrailers :: "string list" where
  "requiredTrailers = [''Jam-Session'', ''Jam-Turn'', ''Jam-Author'']"

text \<open>The paths a change names: its source, and its target when that is another path.\<close>

definition outOfScope :: "globber \<Rightarrow> string list \<Rightarrow> string \<times> string \<Rightarrow> string list" where
  "outOfScope g scope ch =
     (let (from, to) = ch in
      (if from \<noteq> [] \<and> \<not> Match g scope from then [from] else []) @
      (if to \<noteq> [] \<and> to \<noteq> from \<and> \<not> Match g scope to then [to] else []))"

definition scopeViolations :: "globber \<Rightarrow> 't git_repo \<Rightarrow> Commit \<Rightarrow> string list \<Rightarrow> string list" where
  "scopeViolations g repo c scope =
     (case g_tree repo c of
        None \<Rightarrow> [''<error: could not read commit tree>'']
      | Some commitTree \<Rightarrow>
          let parentTree = (if c_parents c \<noteq> [] then
                (case g_first_parent repo c of None \<Rightarrow> None | Some parent \<Rightarrow> g_tree repo parent)
                else None) in
          (case g_diff repo parentTree commitTree of
             None \<Rightarrow> [''<error: could not diff trees>'']
           | Some changes \<Rightarrow> concat (map (outOfScope g scope) changes)))"

definition validateCommit :: "globber \<Rightarrow> 't git_repo \<Rightarrow> Commit \<Rightarrow> string list \<Rightarrow> Rejection list" where
  "validateCommit g repo c scope =
     (let missing = CheckRequiredTrailers (c_message c) requiredTrailers;
          violations = (if scope \<noteq> [] then scopeViolations g repo c scope else []) in
      (if missing \<noteq> [] then
         [\<lparr>rj_code = CodeMissingTrailer,
           rj_message = MsgMissingTrailers (take 12 (c_hash c)) missing,
           rj_details = [(''commit'', DStr (c_hash c)), (''missing'', DStrs missing)]\<rparr>]
       else []) @
      (if violations \<noteq> [] then
         [\<lparr>rj_code = CodeScopeViolation,
           rj_message = MsgOutOfScope (take 12 (c_hash c)) violations,
           rj_details = [(''commit'', DStr (c_hash c)), (''paths'', DStrs violations)]\<rparr>]
       else []))"

text \<open>
  The commits the walk collects: the log of the new tip up to, not including, the old tip.
  Meeting the old tip ends the iteration, so an error behind it is not seen.
\<close>

definition walkCommits :: "'t git_repo \<Rightarrow> RefUpdate \<Rightarrow> Commit list \<Rightarrow> Commit list" where
  "walkCommits repo u log =
     (if u_old u \<noteq> [] then takeWhile (\<lambda>c. c_hash c \<noteq> g_new_hash repo (u_old u)) log else log)"

definition WalkAndValidate ::
  "globber \<Rightarrow> 't git_repo \<Rightarrow> RefUpdate \<Rightarrow> string list \<Rightarrow> Rejection list" where
  "WalkAndValidate g repo u scope =
     (case g_log repo (g_new_hash repo (u_new u)) of
        None \<Rightarrow>
          [\<lparr>rj_code = CodeScopeViolation, rj_message = MsgWalkFailed,
            rj_details = [ref_detail u, new_detail u]\<rparr>]
      | Some (log, iter_err) \<Rightarrow>
          let commits = walkCommits repo u log in
          if commits = log \<and> iter_err then
            [\<lparr>rj_code = CodeScopeViolation, rj_message = MsgIterationFailed, rj_details = [ref_detail u]\<rparr>]
          else concat (map (\<lambda>c. validateCommit g repo c scope) commits))"

subsection \<open>Sizes\<close>

definition CheckPackSize :: "int \<Rightarrow> int \<Rightarrow> Rejection option" where
  "CheckPackSize packBytes maxBytes =
     (if maxBytes \<le> 0 then None
      else if packBytes > maxBytes then
        Some \<lparr>rj_code = CodeSizeLimit, rj_message = MsgPackTooLarge packBytes maxBytes,
              rj_details = [(''pack_bytes'', DInt packBytes), (''max_bytes'', DInt maxBytes)]\<rparr>
      else None)"

text \<open>
  What \<^verbatim>\<open>filepath.WalkDir\<close> passes to its callback: an entry with the flag that visiting it failed,
  whether it is a directory, and its size unless \<^verbatim>\<open>Info\<close> fails.  The callback never returns an
  error, so the walk itself never does.
\<close>

record dir_entry =
  de_err :: bool
  de_is_dir :: bool
  de_size :: "int option"

definition entry_size :: "dir_entry \<Rightarrow> int" where
  "entry_size d =
     (if de_err d \<or> de_is_dir d then 0 else case de_size d of None \<Rightarrow> 0 | Some n \<Rightarrow> n)"

definition repoDirSize :: "(string \<Rightarrow> dir_entry list) \<Rightarrow> string \<Rightarrow> int" where
  "repoDirSize walk repoPath =
     (if repoPath = [] then 0 else fold (\<lambda>d total. total + entry_size d) (walk repoPath) 0)"

subsection \<open>The validator\<close>

record Validator =
  v_max_pack :: int
  v_playground_max :: int

record 't ValidateInput =
  vi_repo :: "'t git_repo"
  vi_session :: Session
  vi_account :: Account
  vi_updates :: "RefUpdate list"
  vi_pack_bytes :: int
  vi_repo_path :: string

record ValidateResult =
  vr_ok :: bool
  vr_rejections :: "Rejection list"

definition reservedPlaygroundOrgID :: string where
  "reservedPlaygroundOrgID = ''org_playground''"

definition CheckPlaygroundCaps ::
  "(string \<Rightarrow> dir_entry list) \<Rightarrow> Validator \<Rightarrow> 't ValidateInput \<Rightarrow> Rejection option" where
  "CheckPlaygroundCaps walk v inp =
     (if s_org (vi_session inp) \<noteq> reservedPlaygroundOrgID then None
      else if v_playground_max v \<le> 0 then None
      else
        let currentBytes = repoDirSize walk (vi_repo_path inp) in
        if currentBytes + vi_pack_bytes inp > v_playground_max v then
          Some \<lparr>rj_code = CodePlaygroundSizeExceeded, rj_message = MsgPlaygroundLimit,
                rj_details = [(''current_bytes'', DInt currentBytes),
                  (''pack_bytes'', DInt (vi_pack_bytes inp)),
                  (''total_bytes'', DInt (currentBytes + vi_pack_bytes inp)),
                  (''max_bytes'', DInt (v_playground_max v)),
                  (''session_id'', DStr (s_id (vi_session inp)))]\<rparr>
        else None)"

definition isBaseRefFirstPush :: "string \<Rightarrow> RefUpdate \<Rightarrow> bool" where
  "isBaseRefFirstPush sessionID u \<longleftrightarrow>
     u_old u = [] \<and> u_ref u = jam_prefix @ sessionID @ ''/base''"

fun validateUpdates ::
  "globber \<Rightarrow> 't ValidateInput \<Rightarrow> string list \<Rightarrow> RefUpdate list \<Rightarrow> (scope_error, Rejection list) run" where
  "validateUpdates g inp scope [] = Ok []"
| "validateUpdates g inp scope (u # us) =
     run_bind (ValidateRef (vi_repo inp) (s_id (vi_session inp)) (a_id (vi_account inp)) u) (\<lambda>refRej.
       let walkRej = (if isBaseRefFirstPush (s_id (vi_session inp)) u then []
                      else WalkAndValidate g (vi_repo inp) u scope) in
       run_bind (validateUpdates g inp scope us) (\<lambda>rest. Ok (refRej @ walkRej @ rest)))"

definition Validate ::
  "globber \<Rightarrow> (string \<Rightarrow> dir_entry list) \<Rightarrow> Validator \<Rightarrow> 't ValidateInput
    \<Rightarrow> (scope_error, ValidateResult) run" where
  "Validate g walk v inp =
     (let sizeRej = (case CheckPackSize (vi_pack_bytes inp) (v_max_pack v) of
                       None \<Rightarrow> [] | Some r \<Rightarrow> [r]) in
      case parseWritableScope (s_writable_scope (vi_session inp)) of
        None \<Rightarrow> Err ScopeNotStrings
      | Some globs \<Rightarrow>
          (case CompileScope g globs of
             Inl p \<Rightarrow> Err (ScopeBadGlob p)
           | Inr scope \<Rightarrow>
               run_bind (validateUpdates g inp scope (vi_updates inp)) (\<lambda>refRej.
                 let capRej = (case CheckPlaygroundCaps walk v inp of None \<Rightarrow> [] | Some r \<Rightarrow> [r]);
                     rejections = sizeRej @ refRej @ capRej in
                 Ok \<lparr>vr_ok = (length rejections = 0), vr_rejections = rejections\<rparr>)))"

subsection \<open>The policy, stated without reference to the checks\<close>

text \<open>The refs an account may push to: its own branches, and the base of a repository without refs.\<close>

definition refAllowed :: "'t git_repo \<Rightarrow> string \<Rightarrow> string \<Rightarrow> string \<Rightarrow> bool" where
  "refAllowed repo sid acct ref \<longleftrightarrow>
     (\<exists>branch. ref = jam_prefix @ sid @ ''/'' @ acct @ ''/'' @ branch \<and> branch \<noteq> [] \<and>
        refSegmentSafe branch) \<or>
     (ref = jam_prefix @ sid @ ''/base'' \<and> repoIsEmpty repo = Some True)"

definition fastForward :: "'t git_repo \<Rightarrow> RefUpdate \<Rightarrow> bool" where
  "fastForward repo u \<longleftrightarrow>
     (\<exists>old new. g_commit repo (g_new_hash repo (u_old u)) = Some old \<and>
        g_commit repo (g_new_hash repo (u_new u)) = Some new \<and>
        g_is_ancestor repo old new = Some True)"

definition hasTrailers :: "string \<Rightarrow> bool" where
  "hasTrailers message \<longleftrightarrow>
     (\<exists>m. Trailers message = Some m \<and>
        (\<forall>key \<in> {''Jam-Session'', ''Jam-Turn'', ''Jam-Author''}. \<exists>val. m key = Some val \<and> nonblank val))"

definition inScope :: "globber \<Rightarrow> 't git_repo \<Rightarrow> string list \<Rightarrow> Commit \<Rightarrow> bool" where
  "inScope g repo scope c \<longleftrightarrow>
     (\<exists>tree changes. g_tree repo c = Some tree \<and>
        g_diff repo (if c_parents c = [] then None
                     else Option.bind (g_first_parent repo c) (g_tree repo)) tree = Some changes \<and>
        (\<forall>(from, to) \<in> set changes. \<forall>path \<in> {from, to}. path \<noteq> [] \<longrightarrow> Match g scope path))"

definition walkAllowed :: "globber \<Rightarrow> 't git_repo \<Rightarrow> string list \<Rightarrow> RefUpdate \<Rightarrow> bool" where
  "walkAllowed g repo scope u \<longleftrightarrow>
     (\<exists>log err. g_log repo (g_new_hash repo (u_new u)) = Some (log, err) \<and>
        (err \<longrightarrow> walkCommits repo u log \<noteq> log) \<and>
        (\<forall>c \<in> set (walkCommits repo u log).
           hasTrailers (c_message c) \<and> (scope \<noteq> [] \<longrightarrow> inScope g repo scope c)))"

definition updateAllowed ::
  "globber \<Rightarrow> 't git_repo \<Rightarrow> string \<Rightarrow> string \<Rightarrow> string list \<Rightarrow> RefUpdate \<Rightarrow> bool" where
  "updateAllowed g repo sid acct scope u \<longleftrightarrow>
     refAllowed repo sid acct (u_ref u) \<and> (u_old u \<noteq> [] \<longrightarrow> fastForward repo u) \<and>
     (isBaseRefFirstPush sid u \<or> walkAllowed g repo scope u)"

definition sizesAllowed :: "(string \<Rightarrow> dir_entry list) \<Rightarrow> Validator \<Rightarrow> 't ValidateInput \<Rightarrow> bool" where
  "sizesAllowed walk v inp \<longleftrightarrow>
     (v_max_pack v > 0 \<longrightarrow> vi_pack_bytes inp \<le> v_max_pack v) \<and>
     (s_org (vi_session inp) = ''org_playground'' \<and> v_playground_max v > 0 \<longrightarrow>
        repoDirSize walk (vi_repo_path inp) + vi_pack_bytes inp \<le> v_playground_max v)"

subsection \<open>Each check decides its part of the policy\<close>

lemma checkRefNamespace_sound:
  assumes "fst (checkRefNamespace repo sid acct ref)"
  shows "refAllowed repo sid acct ref"
proof -
  from assms have "HasPrefix ref jam_prefix"
    by (auto simp: checkRefNamespace_def split: if_splits)
  then obtain rest where ref: "ref = jam_prefix @ rest" by (auto simp: HasPrefix_iff)
  define parts where "parts = SplitN (CHR ''/'') 3 rest"
  have join: "Join parts ''/'' = rest"
    unfolding parts_def using Join_SplitN[of "CHR ''/''" 2 rest] by (simp add: numeral_3_eq_3)
  have "length parts \<le> 3" unfolding parts_def by (rule length_SplitN)
  moreover have "2 \<le> length parts" using assms
    by (auto simp: checkRefNamespace_def ref Let_def parts_def split: if_splits)
  ultimately consider a b where "parts = [a, b]" | a b c where "parts = [a, b, c]"
    by (auto simp: length_Suc_conv numeral_2_eq_2 numeral_3_eq_3 le_Suc_eq)
  then show ?thesis
  proof cases
    case 1
    with assms join ref show ?thesis
      by (auto simp: checkRefNamespace_def Let_def refAllowed_def parts_def[symmetric]
               split: if_splits option.splits bool.splits)
  next
    case 2
    with assms join ref show ?thesis
      by (auto simp: checkRefNamespace_def Let_def refAllowed_def parts_def[symmetric]
               split: if_splits option.splits bool.splits)
  qed
qed

lemma checkRefNamespace_complete:
  assumes "refAllowed repo sid acct ref" and "CHR ''/'' \<notin> set sid" and "CHR ''/'' \<notin> set acct"
  shows "fst (checkRefNamespace repo sid acct ref)"
  using assms(1) unfolding refAllowed_def
proof (elim disjE exE conjE)
  fix branch assume ref: "ref = jam_prefix @ sid @ ''/'' @ acct @ ''/'' @ branch"
    and b: "branch \<noteq> []" "refSegmentSafe branch"
  have "SplitN (CHR ''/'') 3 (sid @ ''/'' @ acct @ ''/'' @ branch) = [sid, acct, branch]"
    using assms(2,3) by (simp add: numeral_3_eq_3)
  with b show ?thesis by (simp add: checkRefNamespace_def ref Let_def)
next
  assume ref: "ref = jam_prefix @ sid @ ''/base''" and e: "repoIsEmpty repo = Some True"
  have "SplitN (CHR ''/'') 3 (sid @ ''/base'') = [sid, ''base'']"
    using assms(2) by (simp add: numeral_3_eq_3)
  with e show ?thesis by (simp add: checkRefNamespace_def ref Let_def)
qed

lemma checkForcePush_None_iff: "checkForcePush repo u b = Ok None \<longleftrightarrow> fastForward repo u"
  by (auto simp: checkForcePush_def fastForward_def run_bind_Ok_iff
           split: option.splits bool.splits)

lemma ValidateRef_Nil_iff:
  assumes "CHR ''/'' \<notin> set sid" and "CHR ''/'' \<notin> set acct"
  shows "ValidateRef repo sid acct u = Ok [] \<longleftrightarrow>
         refAllowed repo sid acct (u_ref u) \<and> (u_old u \<noteq> [] \<longrightarrow> fastForward repo u)"
proof -
  obtain ns ib where c: "checkRefNamespace repo sid acct (u_ref u) = (ns, ib)" by fastforce
  have "ns \<longleftrightarrow> refAllowed repo sid acct (u_ref u)"
    using checkRefNamespace_sound[of repo sid acct "u_ref u"]
      checkRefNamespace_complete[OF _ assms, of repo "u_ref u"] c by auto
  moreover have "(\<exists>r. checkForcePush repo u ib = Ok r \<and> r = None) \<longleftrightarrow> fastForward repo u"
    using checkForcePush_None_iff[of repo u ib] by auto
  ultimately show ?thesis
    by (auto simp: ValidateRef_def c run_bind_Ok_iff split: option.splits)
qed

lemma CheckRequiredTrailers_Nil_iff:
  "CheckRequiredTrailers message requiredTrailers = [] \<longleftrightarrow> hasTrailers message"
  by (cases "Trailers message")
     (auto simp: CheckRequiredTrailers_def requiredTrailers_def hasTrailers_def nonblank_def
           split: option.splits)

lemma scopeViolations_Nil_iff: "scopeViolations g repo c scope = [] \<longleftrightarrow> inScope g repo scope c"
proof -
  have o: "outOfScope g scope ch = [] \<longleftrightarrow> (\<forall>path \<in> {fst ch, snd ch}. path \<noteq> [] \<longrightarrow> Match g scope path)"
    for ch by (cases ch) (auto simp: outOfScope_def)
  show ?thesis
    by (auto simp: scopeViolations_def inScope_def o Let_def split: option.splits)
qed

lemma validateCommit_Nil_iff:
  "validateCommit g repo c scope = [] \<longleftrightarrow>
     hasTrailers (c_message c) \<and> (scope \<noteq> [] \<longrightarrow> inScope g repo scope c)"
  by (auto simp: validateCommit_def Let_def CheckRequiredTrailers_Nil_iff scopeViolations_Nil_iff)

lemma WalkAndValidate_Nil_iff: "WalkAndValidate g repo u scope = [] \<longleftrightarrow> walkAllowed g repo scope u"
  by (auto simp: WalkAndValidate_def walkAllowed_def Let_def validateCommit_Nil_iff
           split: option.splits)

lemma validateUpdates_Nil_iff:
  assumes "CHR ''/'' \<notin> set (s_id (vi_session inp))" and "CHR ''/'' \<notin> set (a_id (vi_account inp))"
  shows "validateUpdates g inp scope us = Ok [] \<longleftrightarrow>
    (\<forall>u \<in> set us. updateAllowed g (vi_repo inp) (s_id (vi_session inp)) (a_id (vi_account inp)) scope u)"
proof (induction us)
  case (Cons u us)
  then show ?case
    using ValidateRef_Nil_iff[OF assms, of "vi_repo inp" u]
    by (auto simp: run_bind_Ok_iff updateAllowed_def Let_def WalkAndValidate_Nil_iff)
qed simp

lemma size_checks_None_iff:
  "CheckPackSize (vi_pack_bytes inp) (v_max_pack v) = None \<and> CheckPlaygroundCaps walk v inp = None \<longleftrightarrow>
   sizesAllowed walk v inp"
  by (auto simp: CheckPackSize_def CheckPlaygroundCaps_def sizesAllowed_def Let_def
        reservedPlaygroundOrgID_def split: if_splits)

text \<open>Reachability through parent links inside a list of commits.\<close>

definition parent_link :: "Commit list \<Rightarrow> string \<Rightarrow> string \<Rightarrow> bool" where
  "parent_link log a b \<longleftrightarrow> (\<exists>c \<in> set log. c_hash c = a \<and> b \<in> set (c_parents c))"

definition ancestorIn :: "Commit list \<Rightarrow> string \<Rightarrow> string \<Rightarrow> bool" where
  "ancestorIn log a b \<longleftrightarrow> (parent_link log)\<^sup>*\<^sup>* b a"

text \<open>A history without merges, newest commit first.\<close>

fun linearLog :: "Commit list \<Rightarrow> bool" where
  "linearLog [] = True"
| "linearLog [c] = (c_parents c = [])"
| "linearLog (c # d # r) = (c_parents c = [c_hash d] \<and> linearLog (d # r))"

lemma linearLog_suffix: "linearLog (pre @ c # post) \<Longrightarrow> linearLog (c # post)"
proof (induction pre)
  case (Cons p pre)
  then show ?case by (cases pre) auto
qed simp

lemma linear_parent_suffix:
  assumes "linearLog log" and "distinct (map c_hash log)" and log: "log = pre @ c # post"
    and "parent_link log (c_hash c) b"
  shows "\<exists>d r. post = d # r \<and> b = c_hash d"
proof -
  from assms(4) obtain c' where c': "c' \<in> set log" "c_hash c' = c_hash c" "b \<in> set (c_parents c')"
    by (auto simp: parent_link_def)
  have "inj_on c_hash (set log)" using assms(2) by (simp add: distinct_map)
  moreover have "c \<in> set log" by (simp add: log)
  ultimately have "c' = c" using c'(1,2) by (meson inj_onD)
  moreover have "linearLog (c # post)" using assms(1) log linearLog_suffix by blast
  ultimately show ?thesis using c'(3) by (cases post) auto
qed

lemma linear_reach_forward:
  assumes "linearLog log" and "distinct (map c_hash log)"
  shows "(parent_link log)\<^sup>*\<^sup>* a b \<Longrightarrow> log = pre @ c # post \<Longrightarrow> a = c_hash c \<Longrightarrow>
         b \<in> c_hash ` set (c # post)"
proof (induction arbitrary: pre c post rule: converse_rtranclp_induct)
  case (step y z)
  from linear_parent_suffix[OF assms step.prems(1), of z] step.hyps(1) step.prems(2)
  obtain d r where "post = d # r" "z = c_hash d" by auto
  with step.IH[of "pre @ [c]" d r] step.prems show ?case by auto
qed auto

lemma linear_reach_backward:
  assumes "linearLog log"
  shows "log = pre @ c # post \<Longrightarrow> d \<in> set (c # post) \<Longrightarrow> (parent_link log)\<^sup>*\<^sup>* (c_hash c) (c_hash d)"
proof (induction post arbitrary: pre c)
  case (Cons e post)
  show ?case
  proof (cases "d = c")
    case False
    have lin: "linearLog (c # e # post)"
      using assms Cons.prems(1) linearLog_suffix by blast
    then have "parent_link log (c_hash c) (c_hash e)"
      using Cons.prems(1) by (auto simp: parent_link_def)
    moreover from False Cons have "(parent_link log)\<^sup>*\<^sup>* (c_hash e) (c_hash d)"
      by (intro Cons.IH[of "pre @ [c]"]) auto
    ultimately show ?thesis by (rule converse_rtranclp_into_rtranclp)
  qed simp
qed simp

lemma ancestorIn_linear_iff:
  assumes "linearLog log" and "distinct (map c_hash log)" and log: "log = pre @ c # post"
    and d: "d \<in> set log"
  shows "ancestorIn log (c_hash d) (c_hash c) \<longleftrightarrow> d \<in> set (c # post)"
proof
  assume "ancestorIn log (c_hash d) (c_hash c)"
  then obtain e where e: "e \<in> set (c # post)" "c_hash d = c_hash e"
    using linear_reach_forward[OF assms(1,2) _ log, of "c_hash c" "c_hash d"]
    by (auto simp: ancestorIn_def)
  have "inj_on c_hash (set log)" using assms(2) by (simp add: distinct_map)
  moreover have "e \<in> set log" using e(1) log by auto
  ultimately have "d = e" using d e(2) by (meson inj_onD)
  with e(1) show "d \<in> set (c # post)" by simp
next
  assume "d \<in> set (c # post)"
  then show "ancestorIn log (c_hash d) (c_hash c)"
    using linear_reach_backward[OF assms(1) log] by (simp add: ancestorIn_def)
qed

lemma slash_split:
  assumes "x @ CHR ''/'' # t = y @ CHR ''/'' # u" and "CHR ''/'' \<notin> set x" and "CHR ''/'' \<notin> set y"
  shows "x = y \<and> t = u"
  using assms
proof (induction x arbitrary: y)
  case Nil
  then show ?case by (cases y) auto
next
  case (Cons c x)
  then show ?case by (cases y) auto
qed

text \<open>
  Every \<^verbatim>\<open>**\<close> of a pattern stands at the end or in front of a slash, where \<^verbatim>\<open>doublestar\<close> reads it as
  the recursive wildcard.
\<close>

fun doublestarOK :: "string \<Rightarrow> bool" where
  "doublestarOK [] = True"
| "doublestarOK [c] = True"
| "doublestarOK (c # d # r) =
     (if c = CHR ''*'' \<and> d = CHR ''*'' then (r = [] \<or> hd r = CHR ''/'') \<and> doublestarOK r
      else doublestarOK (d # r))"

lemma normalize_from_id: "doublestarOK p \<Longrightarrow> normalize_from p = p"
  by (induction p rule: normalize_from.induct) (auto split: if_splits)

lemma normalize_from_hd: "c \<noteq> CHR ''*'' \<Longrightarrow> normalize_from (c # r) = c # normalize_from r"
  by (cases r) auto

lemma star_then_other: "c \<noteq> CHR ''*'' \<or> N = [] \<or> hd N \<noteq> CHR ''*'' \<Longrightarrow>
  doublestarOK (c # N) \<longleftrightarrow> doublestarOK N"
  by (cases N) auto

lemma no_star3_tl: "\<not> Contains (c # r) p \<Longrightarrow> \<not> Contains r p"
  by (metis Contains_iff append_Cons)

lemma normalize_from_OK: "\<not> Contains p ''***'' \<Longrightarrow> doublestarOK (normalize_from p)"
proof (induction p rule: normalize_from.induct)
  case (3 c d r)
  have tls: "\<not> Contains (d # r) ''***''" "\<not> Contains r ''***''"
    using "3.prems" by (blast dest: no_star3_tl)+
  show ?case
  proof (cases "c = CHR ''*'' \<and> d = CHR ''*''")
    case True
    show ?thesis
    proof (cases r)
      case (Cons x r')
      with True "3.prems" have x: "x \<noteq> CHR ''*''"
        by (auto simp: Contains_def split: if_splits)
      with True "3.IH"(1)[OF True tls(2)] Cons show ?thesis
        by (auto simp: normalize_from_hd star_then_other)
    qed (simp add: True)
  next
    case False
    then have "c \<noteq> CHR ''*'' \<or> hd (normalize_from (d # r)) \<noteq> CHR ''*''"
      by (auto simp: normalize_from_hd)
    with False "3.IH"(2)[OF False tls(1)] show ?thesis by (auto simp: star_then_other)
  qed
qed auto

lemma doublestarOK_no_stars: "\<not> Contains p ''**'' \<Longrightarrow> doublestarOK p"
proof (induction p rule: doublestarOK.induct)
  case (3 c d r)
  then have "\<not> (c = CHR ''*'' \<and> d = CHR ''*'')" by (auto simp: Contains_def split: if_splits)
  with 3 show ?case by (auto dest: no_star3_tl)
qed auto

subsection \<open>Example repository\<close>

text \<open>A history of two ordinary commits, with the second one pushed on top of the first.\<close>

definition demo_hash :: "char \<Rightarrow> string" where
  "demo_hash c = replicate 40 c"

definition demo_commit :: "char \<Rightarrow> string list \<Rightarrow> string \<Rightarrow> Commit" where
  "demo_commit c parents msg = \<lparr>c_hash = demo_hash c, c_message = msg, c_author_name = ''ana'',
     c_author_email = ''ana@example.org'', c_parents = parents\<rparr>"

definition demo_message :: string where
  "demo_message = withTrailers ''Fix the parser'' jam_trailers"

definition demo_old :: Commit where
  "demo_old = demo_commit (CHR ''a'') [] demo_message"

definition demo_new :: Commit where
  "demo_new = demo_commit (CHR ''b'') [demo_hash (CHR ''a'')] demo_message"

definition demo_repo :: "string git_repo" where
  "demo_repo = \<lparr>g_new_hash = id,
     g_commit = (\<lambda>h. find (\<lambda>c. c_hash c = h) [demo_old, demo_new]),
     g_is_ancestor = (\<lambda>x y. Some (x = y \<or> (x = demo_old \<and> y = demo_new))),
     g_log = (\<lambda>h. if h = demo_hash (CHR ''b'') then Some ([demo_new, demo_old], False)
                  else if h = demo_hash (CHR ''a'') then Some ([demo_old], False) else None),
     g_refs = Some ([(''HEAD'', True), (''refs/heads/jam/s1/base'', False)], False),
     g_tree = (\<lambda>c. Some (c_hash c)),
     g_first_parent = (\<lambda>c. if c = demo_new then Some demo_old else None),
     g_diff = (\<lambda>p t. Some [(''src/a.go'', ''src/a.go'')])\<rparr>"

definition demo_globber :: globber where
  "demo_globber = \<lparr>gl_valid = (\<lambda>p. True), gl_match = (\<lambda>p s. Some (p = s \<or> p = ''**''))\<rparr>"

definition demo_session :: Session where
  "demo_session = \<lparr>s_id = ''s1'', s_org = ''org1'', s_name = ''demo'', s_goal = ''ship'',
     s_writable_scope = [CHR 0x5B, CHR 0x22] @ ''src/a.go'' @ [CHR 0x22, CHR 0x5D],
     s_default_mode = ''sync'', s_base_sha = None, s_status = ''active'', s_created_at = 0,
     s_ended_at = None, s_end_reason = None, s_finalize_locked_by = None,
     s_last_activity_at = None, s_hard_cap_at = None, s_idle_timeout_at = None\<rparr>"

definition demo_account :: Account where
  "demo_account = \<lparr>a_id = ''u1'', a_email = ''ana@example.org'', a_display_name = ''ana'',
     a_github_user_id = None, a_created_at = 0, a_is_anonymous = False\<rparr>"

definition demo_update :: RefUpdate where
  "demo_update = \<lparr>u_ref = ''refs/heads/jam/s1/u1/main'', u_old = demo_hash (CHR ''a''),
     u_new = demo_hash (CHR ''b'')\<rparr>"

definition demo_input :: "string ValidateInput" where
  "demo_input = \<lparr>vi_repo = demo_repo, vi_session = demo_session, vi_account = demo_account,
     vi_updates = [demo_update], vi_pack_bytes = 100, vi_repo_path = ''/r''\<rparr>"

definition demo_validator :: Validator where
  "demo_validator = \<lparr>v_max_pack = 1000, v_playground_max = 0\<rparr>"

lemma demo_accepted: "Validate demo_globber (\<lambda>p. []) demo_validator demo_input =
  Ok \<lparr>vr_ok = True, vr_rejections = []\<rparr>"
  by code_simp

subsection \<open>Properties\<close>



text \<open>
  C14: namespaces are isolated.  A ref that the namespace check lets two accounts push to belongs
  to one session, and the accounts are the same unless the ref is the base ref of the session.
\<close>

theorem checkRefNamespace_isolation:
  assumes "fst (checkRefNamespace repo s a ref)" and "fst (checkRefNamespace repo' s' b ref)"
    and "CHR ''/'' \<notin> set s" "CHR ''/'' \<notin> set s'" "CHR ''/'' \<notin> set a" "CHR ''/'' \<notin> set b"
  shows "s = s' \<and> (a = b \<or> ref = ''refs/heads/jam/'' @ s @ ''/base'')"
proof -
  have refs: "\<exists>t. ref = jam_prefix @ x @ CHR ''/'' # t \<and> (t = ''base'' \<or> (\<exists>br. t = y @ CHR ''/'' # br))"
    if "fst (checkRefNamespace r x y ref)" for r :: "'z git_repo" and x y
    using checkRefNamespace_sound[OF that] by (auto simp: refAllowed_def)
  from refs[OF assms(1)] obtain t where t: "ref = jam_prefix @ s @ CHR ''/'' # t"
    "t = ''base'' \<or> (\<exists>br. t = a @ CHR ''/'' # br)" by blast
  from refs[OF assms(2)] obtain t' where t': "ref = jam_prefix @ s' @ CHR ''/'' # t'"
    "t' = ''base'' \<or> (\<exists>br. t' = b @ CHR ''/'' # br)" by blast
  from t(1) t'(1) have "s @ CHR ''/'' # t = s' @ CHR ''/'' # t'" by simp
  from slash_split[OF this assms(3,4)] have eq: "s = s'" "t = t'" by auto
  show ?thesis
  proof (cases "t = ''base''")
    case True
    with t(1) eq show ?thesis by (simp add: jam_prefix_def)
  next
    case False
    with t(2) t'(2) eq(2) obtain br br' where "a @ CHR ''/'' # br = b @ CHR ''/'' # br'" by auto
    from slash_split[OF this assms(5,6)] eq show ?thesis by simp
  qed
qed

definition fresh_repo :: "string git_repo" where
  "fresh_repo = demo_repo\<lparr>g_refs := Some ([], False)\<rparr>"

theorem checkRefNamespace_isolation_witness:
  "fst (checkRefNamespace demo_repo ''s1'' ''u1'' ''refs/heads/jam/s1/u1/main'')
   \<and> \<not> fst (checkRefNamespace demo_repo ''s1'' ''u2'' ''refs/heads/jam/s1/u1/main'')
   \<and> fst (checkRefNamespace fresh_repo ''s1'' ''u1'' ''refs/heads/jam/s1/base'')
   \<and> fst (checkRefNamespace fresh_repo ''s1'' ''u2'' ''refs/heads/jam/s1/base'')
   \<and> ''refs/heads/jam/s1/base'' = ''refs/heads/jam/'' @ ''s1'' @ ''/base''"
proof -
  have own: "fst (checkRefNamespace demo_repo ''s1'' ''u1'' ''refs/heads/jam/s1/u1/main'')" by code_simp
  have "\<not> fst (checkRefNamespace demo_repo ''s1'' ''u2'' ''refs/heads/jam/s1/u1/main'')"
    using checkRefNamespace_isolation[OF own, of demo_repo "''s1''" "''u2''"] by auto
  moreover have b: "fst (checkRefNamespace fresh_repo ''s1'' ''u1'' ''refs/heads/jam/s1/base'')"
    "fst (checkRefNamespace fresh_repo ''s1'' ''u2'' ''refs/heads/jam/s1/base'')" unfolding fresh_repo_def demo_repo_def by code_simp+
  moreover have "''refs/heads/jam/s1/base'' = ''refs/heads/jam/'' @ ''s1'' @ ''/base''"
    using checkRefNamespace_isolation[OF b] by auto
  ultimately show ?thesis using own by blast
qed

text \<open>
  on a history without merges the walk visits exactly the new commits.  When the log of the
  pushed tip is a chain of single-parent commits that contains the old tip, a commit of the log is
  validated if and only if it is not an ancestor of the old tip.
\<close>

theorem walkCommits_linear:
  assumes "linearLog log" and "distinct (map c_hash log)" and "u_old u \<noteq> []"
    and "old \<in> set log" and "c_hash old = g_new_hash repo (u_old u)" and "c \<in> set log"
  shows "c \<in> set (walkCommits repo u log) \<longleftrightarrow> \<not> ancestorIn log (c_hash c) (c_hash old)"
proof -
  let ?P = "\<lambda>c. c_hash c \<noteq> c_hash old"
  have inj: "inj_on c_hash (set log)" using assms(2) by (simp add: distinct_map)
  from split_list[OF assms(4)] obtain pre post where log: "log = pre @ old # post" by blast
  have "takeWhile ?P log = pre"
    unfolding log using assms(2) log by (subst takeWhile_append2) (auto simp: image_iff)
  moreover have "c \<in> set pre \<longleftrightarrow> c \<notin> set (old # post)"
    using assms(2,6) log by (auto simp: image_iff)
  ultimately show ?thesis
    using ancestorIn_linear_iff[OF assms(1,2) log assms(6)] assms(3,5)
    by (simp add: walkCommits_def)
qed

theorem walkCommits_linear_witness:
  "demo_new \<in> set (walkCommits demo_repo demo_update [demo_new, demo_old]) \<longleftrightarrow>
     \<not> ancestorIn [demo_new, demo_old] (c_hash demo_new) (c_hash demo_old)"
  by (rule walkCommits_linear) code_simp+

text \<open>
  with an empty writable scope no path is protected.  \<^verbatim>\<open>Match\<close> denies every path when there are
  no patterns, but the decision on a push to a session whose scope is empty does not depend on
  what the pushed commits change.
\<close>

theorem empty_scope_ignores_paths:
  assumes "s_writable_scope (vi_session inp) = []"
  shows "\<not> Match g [] path \<and>
    Validate g walk v (inp\<lparr>vi_repo := (vi_repo inp)\<lparr>g_diff := d, g_tree := t\<rparr>\<rparr>) = Validate g walk v inp"
proof
  show "\<not> Match g [] path" by (simp add: Match_def)
  let ?repo = "(vi_repo inp)\<lparr>g_diff := d, g_tree := t\<rparr>"
  have "walkCommits ?repo = walkCommits (vi_repo inp)"
    by (simp add: walkCommits_def fun_eq_iff)
  moreover have "validateCommit g ?repo c [] = validateCommit g (vi_repo inp) c []" for c
    by (simp add: validateCommit_def Let_def)
  ultimately have W: "WalkAndValidate g ?repo u [] = WalkAndValidate g (vi_repo inp) u []" for u
    by (simp add: WalkAndValidate_def Let_def split: option.split)
  have "repoIsEmpty ?repo = repoIsEmpty (vi_repo inp)" by (simp add: repoIsEmpty_def)
  then have "checkRefNamespace ?repo sid acct r = checkRefNamespace (vi_repo inp) sid acct r" for sid acct r
    by (simp add: checkRefNamespace_def Let_def)
  moreover have "(checkForcePush ?repo u b :: (scope_error, _) run) = checkForcePush (vi_repo inp) u b"
    for u b
    by (simp add: checkForcePush_def split: option.split)
  ultimately have R: "(ValidateRef ?repo sid acct u :: (scope_error, _) run)
    = ValidateRef (vi_repo inp) sid acct u" for sid acct u
    by (simp add: ValidateRef_def Let_def split: prod.split)
  have "validateUpdates g (inp\<lparr>vi_repo := ?repo\<rparr>) [] us = validateUpdates g inp [] us" for us
    by (induction us) (simp_all add: W R)
  moreover have "CheckPlaygroundCaps walk v (inp\<lparr>vi_repo := ?repo\<rparr>) = CheckPlaygroundCaps walk v inp"
    by (simp add: CheckPlaygroundCaps_def Let_def)
  ultimately show "Validate g walk v (inp\<lparr>vi_repo := ?repo\<rparr>) = Validate g walk v inp"
    using assms by (simp add: Validate_def parseWritableScope_def)
qed

text \<open>A push to a session without a scope that rewrites a workflow file is accepted.\<close>

definition unscoped_input :: "string ValidateInput" where
  "unscoped_input = demo_input\<lparr>vi_session := demo_session\<lparr>s_writable_scope := []\<rparr>\<rparr>"

theorem empty_scope_ignores_paths_witness:
  "\<not> Match demo_globber [] ''.github/workflows/release.yml'' \<and>
   Validate demo_globber (\<lambda>p. []) demo_validator (unscoped_input\<lparr>vi_repo := (vi_repo unscoped_input)\<lparr>
     g_diff := (\<lambda>p t. Some [([], ''.github/workflows/release.yml'')]), g_tree := g_tree demo_repo\<rparr>\<rparr>) =
   Ok \<lparr>vr_ok = True, vr_rejections = []\<rparr>"
proof -
  have "s_writable_scope (vi_session unscoped_input) = []" by code_simp
  moreover have "Validate demo_globber (\<lambda>p. []) demo_validator unscoped_input =
    Ok \<lparr>vr_ok = True, vr_rejections = []\<rparr>" by code_simp
  ultimately show ?thesis using empty_scope_ignores_paths by metis
qed

text \<open>A tip, a merge on top of it, and the root commit of the merged branch, which has no trailers.\<close>

definition side_commit :: Commit where
  "side_commit = demo_commit (CHR ''c'') [] ''no trailers''"

definition merge_commit :: Commit where
  "merge_commit = demo_commit (CHR ''d'') [demo_hash (CHR ''a''), demo_hash (CHR ''c'')] demo_message"

definition merge_log :: "Commit list" where
  "merge_log = [merge_commit, demo_old, side_commit]"

definition merge_repo :: "string git_repo" where
  "merge_repo = demo_repo\<lparr>
     g_commit := (\<lambda>h. find (\<lambda>c. c_hash c = h) merge_log),
     g_is_ancestor := (\<lambda>x y. Some (x = demo_old \<and> y = merge_commit)),
     g_log := (\<lambda>h. if h = c_hash merge_commit then Some (merge_log, False) else None)\<rparr>"

definition merge_update :: RefUpdate where
  "merge_update = demo_update\<lparr>u_new := c_hash merge_commit\<rparr>"

lemma side_not_ancestor: "\<not> ancestorIn merge_log (c_hash side_commit) (c_hash demo_old)"
proof -
  have "\<not> parent_link merge_log (c_hash demo_old) x" for x
    by (auto simp: parent_link_def merge_log_def merge_commit_def demo_old_def side_commit_def
        demo_commit_def demo_hash_def)
  then have "(parent_link merge_log)\<^sup>*\<^sup>* (c_hash demo_old) x \<Longrightarrow> x = c_hash demo_old" for x
    by (metis converse_rtranclpE)
  moreover have "c_hash side_commit \<noteq> c_hash demo_old" by code_simp
  ultimately show ?thesis unfolding ancestorIn_def by metis
qed

lemma side_is_new: "ancestorIn merge_log (c_hash side_commit) (c_hash merge_commit)"
proof -
  have "parent_link merge_log (c_hash merge_commit) (c_hash side_commit)"
    by (simp add: parent_link_def merge_log_def merge_commit_def side_commit_def demo_commit_def)
  then show ?thesis by (simp add: ancestorIn_def r_into_rtranclp)
qed

text \<open>
  a merge hides commits from the walk.  The walk ends at the old tip, so the commits that the
  log lists behind it are not validated even when they are new.  In the repository below the
  account merges a branch into its tip and pushes the merge; the commit of that branch is not an
  ancestor of the old tip, has no trailers, would be rejected on its own, and the push is accepted.
\<close>

theorem merge_hides_commits:
  "ancestorIn merge_log (c_hash side_commit) (c_hash merge_commit) \<and>
   \<not> ancestorIn merge_log (c_hash side_commit) (c_hash demo_old) \<and>
   validateCommit demo_globber merge_repo side_commit [''**''] \<noteq> [] \<and>
   WalkAndValidate demo_globber merge_repo merge_update [''**''] = []"
  by (intro conjI side_is_new side_not_ancestor) code_simp+

text \<open>
  a short old object name makes the validator panic.  When the update names an allowed ref and
  an old object name of fewer than twelve bytes that the repository cannot resolve, the force-push
  check slices the name out of range.
\<close>

theorem ValidateRef_short_sha_panics:
  assumes "refAllowed repo sid acct (u_ref u)" and "CHR ''/'' \<notin> set sid" and "CHR ''/'' \<notin> set acct"
    and "u_old u \<noteq> []" and "length (u_old u) < 12" and "g_commit repo (g_new_hash repo (u_old u)) = None"
  shows "ValidateRef repo sid acct u = Panic"
  using checkRefNamespace_complete[OF assms(1-3)] assms(4-6)
  by (auto simp: ValidateRef_def checkForcePush_def slice12_def split: prod.splits)

theorem ValidateRef_short_sha_panics_witness:
  "(ValidateRef demo_repo ''s1'' ''u1'' (demo_update\<lparr>u_old := ''beef''\<rparr>) :: (scope_error, Rejection list) run) = Panic"
proof (rule ValidateRef_short_sha_panics)
  show "refAllowed demo_repo ''s1'' ''u1'' (u_ref (demo_update\<lparr>u_old := ''beef''\<rparr>))"
    by (rule checkRefNamespace_sound) code_simp
qed code_simp+

text \<open>
  scope globs are normalised for the matching library.  A pattern without three stars in a row
  is rewritten so that every double star is read as the recursive wildcard, a pattern that is
  already in that form is kept, and normalising twice changes nothing.
\<close>

theorem normalizeForDoublestar_spec:
  assumes "\<not> Contains p ''***''"
  shows "doublestarOK (normalizeForDoublestar p) \<and>
         normalizeForDoublestar (normalizeForDoublestar p) = normalizeForDoublestar p \<and>
         (doublestarOK p \<longrightarrow> normalizeForDoublestar p = p)"
  using normalize_from_OK[OF assms]
  by (auto simp: normalizeForDoublestar_def doublestarOK_no_stars normalize_from_id)

theorem normalizeForDoublestar_spec_witness:
  "normalizeForDoublestar ''src/**.go'' = ''src/**/*.go'' \<and>
   doublestarOK (normalizeForDoublestar ''src/**.go'') \<and> \<not> doublestarOK ''src/**.go''"
proof -
  have "\<not> Contains ''src/**.go'' ''***''" by code_simp
  from normalizeForDoublestar_spec[OF this]
  have "doublestarOK (normalizeForDoublestar ''src/**.go'')" by simp
  moreover have "normalizeForDoublestar ''src/**.go'' = ''src/**/*.go''" by code_simp
  moreover have "\<not> doublestarOK ''src/**.go''" by code_simp
  ultimately show ?thesis by simp
qed

end
