(* ===== verification/MergeHeuristics.thy ===== *)
theory MergeHeuristics
  imports GoStrings "HOL-Library.Product_Lexorder" "HOL-Library.Sublist"
begin

text \<open>
  The safe auto-resolve heuristics of the auto-merger
  (\<^verbatim>\<open>internal/portal/automerger/heuristics.go\<close>) and the conflict ranges of \<^verbatim>\<open>conflicts.go\<close>.  The
  \<^verbatim>\<open>diff\<close> program and the temporary directory are parameters.  The theory shows that the additions
  heuristic, on correct unified diffs, keeps every line of the base and of both sides, and states
  the inputs on which its diff parser misreads a deletion.
\<close>

subsection \<open>Lines\<close>

definition normaliseLF :: "string \<Rightarrow> string" where
  "normaliseLF b = ReplaceAll b [carriage_return, newline] [newline]"

definition splitLines :: "string \<Rightarrow> string list" where
  "splitLines b = (if b = [] then [] else Split newline (TrimSuffix b [newline]))"

definition leadingTabs :: "string \<Rightarrow> nat" where
  "leadingTabs s = length (takeWhile (\<lambda>c. c = tab) s)"

definition heuristicPriority :: "string \<Rightarrow> nat" where
  "heuristicPriority h =
     (if h = ''identical'' then 0 else if h = ''whitespace'' then 1 else if h = ''additions'' then 2 else 99)"

subsection \<open>Conflict ranges\<close>

record LineRange =
  lr_start :: nat
  lr_end :: nat

fun conflictLoop :: "nat \<Rightarrow> nat option \<Rightarrow> string list \<Rightarrow> LineRange list" where
  "conflictLoop i open_at [] =
     (case open_at of None \<Rightarrow> [] | Some st \<Rightarrow> [\<lparr>lr_start = st, lr_end = i\<rparr>])"
| "conflictLoop i open_at (line # ls) =
     (let lineNum = i + 1 in
      if HasPrefix line ''<<<<<<<'' then conflictLoop lineNum (Some lineNum) ls
      else case open_at of
             Some st \<Rightarrow>
               if HasPrefix line ''>>>>>>>'' then
                 \<lparr>lr_start = st, lr_end = lineNum\<rparr> # conflictLoop lineNum None ls
               else conflictLoop lineNum open_at ls
           | None \<Rightarrow> conflictLoop lineNum None ls)"

definition ParseConflictRanges :: "string \<Rightarrow> LineRange list" where
  "ParseConflictRanges content =
     (let lines = Split newline content;
          lines' = (if lines \<noteq> [] \<and> last lines = [] then butlast lines else lines) in
      conflictLoop 0 None lines')"

subsection \<open>Identical and whitespace-only edits\<close>

definition isBinary :: "string \<Rightarrow> bool" where
  "isBinary b \<longleftrightarrow> IndexByte (take 8000 b) (CHR 0x00) \<noteq> None"

definition isIdenticalEdit :: "string \<Rightarrow> string \<Rightarrow> string \<Rightarrow> string option" where
  "isIdenticalEdit base ours theirs = (if ours = theirs \<and> ours \<noteq> base then Some ours else None)"

definition blanks :: string where
  "blanks = [CHR '' '', tab]"

fun whitespaceLines :: "string list \<Rightarrow> string list \<Rightarrow> string list \<Rightarrow> bool" where
  "whitespaceLines (b # bs) (p # ps) (q # qs) =
     (if TrimRight p blanks \<noteq> TrimRight b blanks \<or> TrimRight q blanks \<noteq> TrimRight b blanks then False
      else if leadingTabs p \<noteq> leadingTabs b then False
      else if leadingTabs q \<noteq> leadingTabs b then False
      else whitespaceLines bs ps qs)"
| "whitespaceLines _ _ _ = True"

definition isWhitespaceOnly :: "string \<Rightarrow> string \<Rightarrow> string \<Rightarrow> string option" where
  "isWhitespaceOnly base ours theirs =
     (let baseLines = splitLines (normaliseLF base);
          oursLines = splitLines (normaliseLF ours);
          theirsLines = splitLines (normaliseLF theirs) in
      if length oursLines \<noteq> length baseLines \<or> length theirsLines \<noteq> length baseLines then None
      else if whitespaceLines baseLines oursLines theirsLines then Some ours
      else None)"

subsection \<open>Additions on both sides\<close>

record addHunk =
  ah_after :: int
  ah_lines :: "string list"

text \<open>What running a program returns: success, an exit status, or a failure to run it.\<close>

datatype proc_err = ProcOk | ProcExit int | ProcOther

definition classifyDiffErr :: "proc_err \<Rightarrow> bool" where
  "classifyDiffErr e = (case e of ProcOk \<Rightarrow> True | ProcOther \<Rightarrow> False | ProcExit c \<Rightarrow> c = 0 \<or> c = 1)"

text \<open>
  The environment of the diff: whether the two temporary files could be written, and \<^verbatim>\<open>diff -u\<close> on
  files with the given contents, its exit and its output.
\<close>

record diff_env =
  de_tmp :: "string \<Rightarrow> string \<Rightarrow> bool"
  de_diff :: "string \<Rightarrow> string \<Rightarrow> proc_err \<times> string"

definition runDiff :: "diff_env \<Rightarrow> string \<Rightarrow> string \<Rightarrow> string option" where
  "runDiff env base other =
     (let (e, out) = de_diff env base other in if classifyDiffErr e then Some out else None)"

text \<open>
  The lines a \<^verbatim>\<open>bufio.Scanner\<close> yields: no token for an empty rest, a final carriage return removed,
  and nothing at or behind the first line that does not fit the 64 KiB buffer.
\<close>

definition dropCR :: "string \<Rightarrow> string" where
  "dropCR l = (if l \<noteq> [] \<and> last l = carriage_return then butlast l else l)"

definition scanLines :: "string \<Rightarrow> string list" where
  "scanLines s =
     (let ls = Split newline s; raw = (if last ls = [] then butlast ls else ls) in
      map dropCR (takeWhile (\<lambda>l. length l < 65536) raw))"

definition parseHunkHeader :: "string \<Rightarrow> (int \<times> int) option" where
  "parseHunkHeader line =
     (case Index line ''@@ -'' of
        None \<Rightarrow> Some (0, 0)
      | Some start \<Rightarrow>
          let rest = drop (start + 4) line;
              stop = (case Index rest '' +'' of None \<Rightarrow> length rest | Some e \<Rightarrow> e);
              oldRange = take stop rest in
          (case Index oldRange '','' of
             Some comma \<Rightarrow>
               (case Atoi (take comma oldRange) of
                  None \<Rightarrow> None
                | Some oldStart \<Rightarrow>
                    (case Atoi (drop (comma + 1) oldRange) of
                       None \<Rightarrow> None
                     | Some oldLen \<Rightarrow> Some (oldStart, oldLen)))
           | None \<Rightarrow>
               (case Atoi oldRange of None \<Rightarrow> None | Some oldStart \<Rightarrow> Some (oldStart, 1))))"

text \<open>
  The scan of a unified diff.  \<open>Inl ()\<close> is an error, \<open>Inr None\<close> the nil slice for a diff that is not
  purely additive; a diff without any recorded addition also leaves the slice nil.
\<close>

fun parseDiffLines ::
  "addHunk list \<Rightarrow> addHunk option \<Rightarrow> int \<Rightarrow> string list \<Rightarrow> unit + addHunk list option" where
  "parseDiffLines hunks current baseLineNo [] =
     (let hs = (case current of
                  Some h \<Rightarrow> if ah_lines h \<noteq> [] then hunks @ [h] else hunks
                | None \<Rightarrow> hunks) in
      Inr (if hs = [] then None else Some hs))"
| "parseDiffLines hunks current baseLineNo (line # ls) =
     (if HasPrefix line ''---'' \<or> HasPrefix line ''+++'' then parseDiffLines hunks current baseLineNo ls
      else if HasPrefix line ''@@ '' then
        (case parseHunkHeader line of
           None \<Rightarrow> Inl ()
         | Some (oldStart, _) \<Rightarrow>
             parseDiffLines hunks (Some \<lparr>ah_after = oldStart - 2, ah_lines = []\<rparr>) (oldStart - 2) ls)
      else if HasPrefix line ''-'' then Inr None
      else if HasPrefix line ''+'' then
        (case current of
           None \<Rightarrow> parseDiffLines hunks current baseLineNo ls
         | Some h \<Rightarrow>
             parseDiffLines hunks (Some \<lparr>ah_after = baseLineNo, ah_lines = ah_lines h @ [drop 1 line]\<rparr>)
               baseLineNo ls)
      else
        (case current of
           None \<Rightarrow> parseDiffLines hunks current baseLineNo ls
         | Some h \<Rightarrow>
             if ah_lines h \<noteq> [] then
               parseDiffLines (hunks @ [h]) (Some \<lparr>ah_after = baseLineNo + 1, ah_lines = []\<rparr>)
                 (baseLineNo + 1) ls
             else parseDiffLines hunks (Some (h\<lparr>ah_after := baseLineNo + 1\<rparr>)) (baseLineNo + 1) ls))"

definition parseUnifiedDiffAddOnly :: "string \<Rightarrow> unit + addHunk list option" where
  "parseUnifiedDiffAddOnly diff = parseDiffLines [] None (-1) (scanLines diff)"

definition diffAddOnly :: "diff_env \<Rightarrow> string \<Rightarrow> string \<Rightarrow> unit + addHunk list option" where
  "diffAddOnly env base other =
     (if base = other then Inr (Some [])
      else if \<not> de_tmp env base other then Inl ()
      else case runDiff env base other of
             None \<Rightarrow> Inl ()
           | Some out \<Rightarrow> parseUnifiedDiffAddOnly out)"

record addedLine =
  al_after :: int
  al_content :: string
  al_side :: nat

definition hunkLines :: "nat \<Rightarrow> addHunk list \<Rightarrow> addedLine list" where
  "hunkLines side hs =
     concat (map (\<lambda>h. map (\<lambda>l. \<lparr>al_after = ah_after h, al_content = l, al_side = side\<rparr>) (ah_lines h)) hs)"

fun weaveLoop :: "int \<Rightarrow> string list \<Rightarrow> addedLine list \<Rightarrow> string list" where
  "weaveLoop i [] added = map al_content added"
| "weaveLoop i (bl # bls) added =
     map al_content (takeWhile (\<lambda>a. al_after a = i - 1) added) @
     bl # weaveLoop (i + 1) bls (dropWhile (\<lambda>a. al_after a = i - 1) added)"

definition writeLines :: "string list \<Rightarrow> string" where
  "writeLines ls = concat (map (\<lambda>l. l @ [newline]) ls)"

definition isNonOverlappingAddition :: "diff_env \<Rightarrow> string \<Rightarrow> string \<Rightarrow> string \<Rightarrow> string option" where
  "isNonOverlappingAddition env base ours theirs =
     (case diffAddOnly env base ours of
        Inl _ \<Rightarrow> None
      | Inr oursHunks \<Rightarrow>
     (case diffAddOnly env base theirs of
        Inl _ \<Rightarrow> None
      | Inr theirHunks \<Rightarrow>
     (case (oursHunks, theirHunks) of
        (Some oh, Some th) \<Rightarrow>
          let oursAdded = hunkLines 0 oh; theirsAdded = hunkLines 1 th in
          if list_ex (\<lambda>a. al_content a \<in> set (map al_content oursAdded)) theirsAdded then None
          else
            let allAdded = sort_key (\<lambda>a. (al_after a, al_side a)) (oursAdded @ theirsAdded) in
            Some (writeLines (weaveLoop 0 (splitLines (normaliseLF base)) allAdded))
      | _ \<Rightarrow> None)))"

definition tryAutoResolve ::
  "diff_env \<Rightarrow> string \<Rightarrow> string \<Rightarrow> string \<Rightarrow> (string \<times> string) option" where
  "tryAutoResolve env base ours theirs =
     (if isBinary base \<or> isBinary ours \<or> isBinary theirs then None
      else case isIdenticalEdit base ours theirs of
             Some r \<Rightarrow> Some (r, ''identical'')
           | None \<Rightarrow>
      (case isWhitespaceOnly base ours theirs of
             Some r \<Rightarrow> Some (r, ''whitespace'')
           | None \<Rightarrow>
      (case isNonOverlappingAddition env base ours theirs of
             Some r \<Rightarrow> Some (r, ''additions'')
           | None \<Rightarrow> None)))"

subsection \<open>Unified diffs\<close>

text \<open>
  What \<^verbatim>\<open>diff -u\<close> promises: its output is two header lines and a list of hunks that patch the old file
  into the new one.  A hunk starts at a base line, counted from zero; every hunk but the last ends
  with context.  \<open>ud_text\<close> is the line of the output for an edit.
\<close>

datatype ud = Ctx string | Add string | Del string

fun ud_text :: "ud \<Rightarrow> string" where
  "ud_text (Ctx s) = CHR '' '' # s"
| "ud_text (Add s) = CHR ''+'' # s"
| "ud_text (Del s) = CHR ''-'' # s"

record hunk =
  h_header :: string
  h_start :: nat
  h_body :: "ud list"

definition hunk_text :: "hunk \<Rightarrow> string list" where
  "hunk_text h = h_header h # map ud_text (h_body h)"

definition diff_text :: "hunk list \<Rightarrow> string list" where
  "diff_text hs = ''--- base'' # ''+++ other'' # concat (map hunk_text hs)"

fun patchBody :: "string list \<Rightarrow> ud list \<Rightarrow> (string list \<times> string list) option" where
  "patchBody bs [] = Some ([], bs)"
| "patchBody (b # bs) (Ctx s # r) = (if b = s then map_option (apfst (Cons s)) (patchBody bs r) else None)"
| "patchBody [] (Ctx s # r) = None"
| "patchBody bs (Add s # r) = map_option (apfst (Cons s)) (patchBody bs r)"
| "patchBody (b # bs) (Del s # r) = (if b = s then patchBody bs r else None)"
| "patchBody [] (Del s # r) = None"

fun patch :: "nat \<Rightarrow> string list \<Rightarrow> hunk list \<Rightarrow> string list option" where
  "patch pos bs [] = Some bs"
| "patch pos bs (h # hs) =
     (let k = h_start h - pos in
      if h_start h < pos \<or> length bs < k then None
      else case patchBody (drop k bs) (h_body h) of
             None \<Rightarrow> None
           | Some (out, rest) \<Rightarrow>
               map_option (\<lambda>r. take k bs @ out @ r) (patch (pos + length bs - length rest) rest hs))"

text \<open>An ordinary diff: the header gives the start, and no changed line looks like a file header.\<close>

fun plain_edit :: "ud \<Rightarrow> bool" where
  "plain_edit (Ctx s) = True"
| "plain_edit (Add s) = (\<not> HasPrefix s ''++'')"
| "plain_edit (Del s) = (\<not> HasPrefix s ''--'')"

definition wfHunk :: "hunk \<Rightarrow> bool" where
  "wfHunk h \<longleftrightarrow> HasPrefix (h_header h) ''@@ '' \<and>
     map_option fst (parseHunkHeader (h_header h)) = Some (int (h_start h) + 1) \<and>
     list_all plain_edit (h_body h)"

fun is_ctx :: "ud \<Rightarrow> bool" where
  "is_ctx (Ctx s) = True"
| "is_ctx (Add s) = False"
| "is_ctx (Del s) = False"

fun is_del :: "ud \<Rightarrow> bool" where
  "is_del (Del s) = True"
| "is_del (Add s) = False"
| "is_del (Ctx s) = False"

definition wfDiff :: "hunk list \<Rightarrow> bool" where
  "wfDiff hs \<longleftrightarrow> list_all wfHunk hs \<and>
     list_all (\<lambda>h. h_body h \<noteq> [] \<and> is_ctx (last (h_body h))) (butlast hs)"

text \<open>The additions of a diff, each with the base line it follows.\<close>

fun bodyAdds :: "int \<Rightarrow> ud list \<Rightarrow> (int \<times> string) list" where
  "bodyAdds c [] = []"
| "bodyAdds c (Ctx s # r) = bodyAdds (c + 1) r"
| "bodyAdds c (Add s # r) = (c, s) # bodyAdds c r"
| "bodyAdds c (Del s # r) = bodyAdds (c + 1) r"

definition diffAdds :: "hunk list \<Rightarrow> (int \<times> string) list" where
  "diffAdds hs = concat (map (\<lambda>h. bodyAdds (int (h_start h) - 1) (h_body h)) hs)"

definition flat :: "addHunk list \<Rightarrow> (int \<times> string) list" where
  "flat hs = concat (map (\<lambda>h. map (Pair (ah_after h)) (ah_lines h)) hs)"

subsection \<open>The diff parser\<close>

lemma ud_text_cases:
  "plain_edit e \<Longrightarrow> \<not> HasPrefix (ud_text e) ''---'' \<and> \<not> HasPrefix (ud_text e) ''+++'' \<and>
     \<not> HasPrefix (ud_text e) ''@@ ''"
  by (cases e) auto

lemma flat_simps [simp]:
  "flat [] = []" "flat (xs @ ys) = flat xs @ flat ys"
  "flat (h # hs) = map (Pair (ah_after h)) (ah_lines h) @ flat hs"
  by (simp_all add: flat_def)

text \<open>The hunk that the scan has open: its additions follow the current base line.\<close>

definition pending :: "int \<Rightarrow> string list \<Rightarrow> addHunk" where
  "pending c adds = \<lparr>ah_after = c, ah_lines = adds\<rparr>"

lemma parse_body:
  assumes "list_all plain_edit body" and "\<not> list_ex is_del body"
  shows "\<exists>hunks' adds'. parseDiffLines hunks (Some (pending c adds)) c (map ud_text body @ ls) =
           parseDiffLines hunks' (Some (pending (c + int (length (filter is_ctx body))) adds'))
             (c + int (length (filter is_ctx body))) ls \<and>
         flat hunks' @ map (Pair (c + int (length (filter is_ctx body)))) adds' =
           flat hunks @ map (Pair c) adds @ bodyAdds c body \<and>
         (body \<noteq> [] \<and> is_ctx (last body) \<longrightarrow> adds' = [])"
  using assms
proof (induction body arbitrary: hunks adds c)
  case (Cons e body)
  show ?case
  proof (cases e)
    case (Ctx s)
    define hunks1 where "hunks1 = (if adds \<noteq> [] then hunks @ [pending c adds] else hunks)"
    have step: "parseDiffLines hunks (Some (pending c adds)) c (map ud_text (e # body) @ ls) =
      parseDiffLines hunks1 (Some (pending (c + 1) [])) (c + 1) (map ud_text body @ ls)"
      by (simp add: Ctx hunks1_def pending_def)
    have fl: "flat hunks1 = flat hunks @ map (Pair c) adds" by (simp add: hunks1_def pending_def)
    from Cons.prems have "list_all plain_edit body" "\<not> list_ex is_del body" by auto
    from Cons.IH[OF this, of hunks1 "c + 1" "[]"] show ?thesis
      unfolding step by (auto simp: Ctx fl algebra_simps split: if_splits)
  next
    case (Add s)
    with Cons.prems have "list_all plain_edit body" "\<not> list_ex is_del body" "\<not> HasPrefix s ''++''" by auto
    moreover from this have step: "parseDiffLines hunks (Some (pending c adds)) c (map ud_text (e # body) @ ls) =
      parseDiffLines hunks (Some (pending c (adds @ [s]))) c (map ud_text body @ ls)"
      by (simp add: Add pending_def)
    ultimately obtain hunks' adds' where r:
      "parseDiffLines hunks (Some (pending c (adds @ [s]))) c (map ud_text body @ ls) =
         parseDiffLines hunks' (Some (pending (c + int (length (filter is_ctx body))) adds'))
             (c + int (length (filter is_ctx body))) ls"
      "flat hunks' @ map (Pair (c + int (length (filter is_ctx body)))) adds' =
           flat hunks @ map (Pair c) (adds @ [s]) @ bodyAdds c body"
      "body \<noteq> [] \<and> is_ctx (last body) \<longrightarrow> adds' = []"
      using Cons.IH[of hunks c "adds @ [s]"] by blast
    show ?thesis
      unfolding step r(1) using r(2,3)
      by (intro exI[of _ hunks'] exI[of _ adds']) (auto simp: Add)
  next
    case (Del s)
    with Cons.prems show ?thesis by simp
  qed
qed (auto simp: pending_def)

lemma parse_hunks:
  assumes "list_all wfHunk hs" and "list_all (\<lambda>h. h_body h \<noteq> [] \<and> is_ctx (last (h_body h))) (butlast hs)"
    and "\<forall>h \<in> set hs. \<not> list_ex is_del (h_body h)" and "hs \<noteq> []"
    and "case cur of None \<Rightarrow> True | Some h \<Rightarrow> ah_lines h = []"
  shows "\<exists>H. parseDiffLines hunks cur b (concat (map hunk_text hs)) = Inr (if H = [] then None else Some H) \<and>
         flat H = flat hunks @ diffAdds hs"
  using assms
proof (induction hs arbitrary: hunks cur b)
  case (Cons h hs)
  let ?c = "int (h_start h) - 1"
  from Cons.prems(1) obtain l where hd: "parseHunkHeader (h_header h) = Some (?c + 2, l)"
    and at: "HasPrefix (h_header h) ''@@ ''" and pl: "list_all plain_edit (h_body h)"
    by (auto simp: wfHunk_def algebra_simps)
  from at obtain t where "h_header h = ''@@ '' @ t" by (auto simp: HasPrefix_iff)
  then have step: "parseDiffLines hunks cur b (concat (map hunk_text (h # hs))) =
    parseDiffLines hunks (Some (pending ?c [])) ?c (map ud_text (h_body h) @ concat (map hunk_text hs))"
    using hd by (simp add: hunk_text_def pending_def)
  let ?c' = "?c + int (length (filter is_ctx (h_body h)))"
  from parse_body[OF pl, of hunks ?c "[]" "concat (map hunk_text hs)"] Cons.prems(3)
  obtain hunks' adds' where r:
    "parseDiffLines hunks (Some (pending ?c [])) ?c (map ud_text (h_body h) @ concat (map hunk_text hs)) =
       parseDiffLines hunks' (Some (pending ?c' adds')) ?c' (concat (map hunk_text hs))"
    "flat hunks' @ map (Pair ?c') adds' = flat hunks @ bodyAdds ?c (h_body h)"
    "h_body h \<noteq> [] \<and> is_ctx (last (h_body h)) \<longrightarrow> adds' = []"
    by auto
  show ?case
  proof (cases "hs = []")
    case True
    show ?thesis
      unfolding step r(1) using r(2) True
      by (intro exI[of _ "if adds' = [] then hunks' else hunks' @ [pending ?c' adds']"])
         (auto simp: pending_def diffAdds_def)
  next
    case False
    with r(3) Cons.prems(2) have "adds' = []" by auto
    with False Cons.IH[of "Some (pending ?c' adds')" hunks' ?c'] Cons.prems r(2) show ?thesis
      unfolding step r(1) by (auto simp: pending_def diffAdds_def)
  qed
qed simp

lemma parse_diff_additive:
  assumes "wfDiff hs" and "\<forall>h \<in> set hs. \<not> list_ex is_del (h_body h)" and "hs \<noteq> []"
    and "parseDiffLines [] None (-1) (diff_text hs) = Inr (Some H)"
  shows "flat H = diffAdds hs"
  using parse_hunks[of hs None "[]" "-1"] assms by (auto simp: wfDiff_def diff_text_def split: if_splits)

lemma parse_body_del:
  assumes "list_all plain_edit body" and "list_ex is_del body"
  shows "parseDiffLines hunks (Some h) c (map ud_text body @ ls) = Inr None"
  using assms
proof (induction body arbitrary: hunks h c)
  case (Cons e body)
  then show ?case by (cases e) auto
qed simp

lemma parse_hunks_del:
  assumes "list_all wfHunk hs" and "h \<in> set hs" and "list_ex is_del (h_body h)"
  shows "parseDiffLines hunks cur b (concat (map hunk_text hs)) = Inr None"
  using assms
proof (induction hs arbitrary: hunks cur b)
  case (Cons g hs)
  let ?c = "int (h_start g) - 1"
  from Cons.prems(1) obtain l where hd: "parseHunkHeader (h_header g) = Some (?c + 2, l)"
    and at: "HasPrefix (h_header g) ''@@ ''" and pl: "list_all plain_edit (h_body g)"
    by (auto simp: wfHunk_def algebra_simps)
  from at obtain t where "h_header g = ''@@ '' @ t" by (auto simp: HasPrefix_iff)
  then have step: "parseDiffLines hunks cur b (concat (map hunk_text (g # hs))) =
    parseDiffLines hunks (Some (pending ?c [])) ?c (map ud_text (h_body g) @ concat (map hunk_text hs))"
    using hd by (simp add: hunk_text_def pending_def)
  show ?case
  proof (cases "list_ex is_del (h_body g)")
    case True
    then show ?thesis unfolding step using parse_body_del[OF pl] by blast
  next
    case False
    with Cons.prems have "h \<in> set hs" by auto
    with Cons parse_body[OF pl False, of hunks ?c "[]" "concat (map hunk_text hs)"]
    show ?thesis unfolding step by auto
  qed
qed simp

lemma parse_diff_del:
  assumes "wfDiff hs" and "h \<in> set hs" and "list_ex is_del (h_body h)"
  shows "parseDiffLines [] None (-1) (diff_text hs) = Inr None"
  using parse_hunks_del[of hs h] assms by (simp add: wfDiff_def diff_text_def)

subsection \<open>Weaving additions into the base\<close>

fun weave :: "int \<Rightarrow> string list \<Rightarrow> (int \<times> string) list \<Rightarrow> string list" where
  "weave i [] adds = map snd adds"
| "weave i (b # bs) adds =
     map snd (takeWhile (\<lambda>a. fst a = i - 1) adds) @ b # weave (i + 1) bs (dropWhile (\<lambda>a. fst a = i - 1) adds)"

text \<open>The same text from the additions at each place.\<close>

fun weaveAt :: "(int \<Rightarrow> string list) \<Rightarrow> int \<Rightarrow> string list \<Rightarrow> string list" where
  "weaveAt f i [] = f (i - 1)"
| "weaveAt f i (b # bs) = f (i - 1) @ b # weaveAt f (i + 1) bs"

definition at :: "(int \<times> string) list \<Rightarrow> int \<Rightarrow> string list" where
  "at adds j = map snd (filter (\<lambda>a. fst a = j) adds)"

definition place :: "addedLine \<Rightarrow> int \<times> string" where
  "place a = (al_after a, al_content a)"

lemma weaveLoop_weave: "weaveLoop i bs added = weave i bs (map place added)"
  by (induction i bs added rule: weaveLoop.induct)
     (simp_all add: place_def takeWhile_map dropWhile_map comp_def)

lemma weave_add: "weave i bs ((i - 1, s) # adds) = s # weave i bs adds"
  by (cases bs) auto

lemma weave_skip:
  "k \<le> length bs \<Longrightarrow> \<forall>a \<in> set adds. i + int k - 1 \<le> fst a \<Longrightarrow>
   weave i bs adds = take k bs @ weave (i + int k) (drop k bs) adds"
proof (induction k arbitrary: i bs)
  case (Suc k)
  then obtain b bs' where bs: "bs = b # bs'" by (cases bs) auto
  from Suc.prems(2) have "takeWhile (\<lambda>a. fst a = i - 1) adds = [] \<and> dropWhile (\<lambda>a. fst a = i - 1) adds = adds"
    by (cases adds) force+
  moreover have "weave (i + 1) bs' adds = take k bs' @ weave (i + 1 + int k) (drop k bs') adds"
    using Suc bs by (intro Suc.IH) (auto simp: algebra_simps)
  ultimately show ?case by (simp add: bs algebra_simps)
qed simp

lemma bodyAdds_ge: "a \<in> set (bodyAdds c body) \<Longrightarrow> c \<le> fst a"
  by (induction c body rule: bodyAdds.induct) force+

lemma patchBody_length: "patchBody bs body = Some (out, rest) \<Longrightarrow> length rest \<le> length bs"
  by (induction bs body arbitrary: out rest rule: patchBody.induct) (fastforce split: if_splits)+

lemma bodyAdds_le:
  "patchBody bs body = Some (out, rest) \<Longrightarrow> a \<in> set (bodyAdds c body) \<Longrightarrow>
   fst a \<le> c + int (length bs) - int (length rest)"
proof (induction bs body arbitrary: out rest c rule: patchBody.induct)
  case (4 bs s r)
  then show ?case using patchBody_length by (fastforce split: if_splits)
qed (fastforce split: if_splits)+

lemma weave_body:
  assumes "patchBody bs body = Some (out, rest)" and "\<not> list_ex is_del body"
    and "\<forall>a \<in> set T. i + int (length bs - length rest) - 1 \<le> fst a"
  shows "weave i bs (bodyAdds (i - 1) body @ T) = out @ weave (i + int (length bs - length rest)) rest T"
  using assms
proof (induction bs body arbitrary: out rest i rule: patchBody.induct)
  case (2 b bs s r)
  then obtain out' where p: "patchBody bs r = Some (out', rest)" "out = s # out'" "b = s"
    by (auto split: if_splits)
  let ?A = "bodyAdds i r @ T"
  have len: "length rest \<le> length bs" using patchBody_length[OF p(1)] .
  have ge: "i \<le> fst a" if "a \<in> set ?A" for a
    using that bodyAdds_ge[of a i r] 2(4) len by (auto simp: of_nat_diff)
  have "weave i (b # bs) ?A = b # weave (i + 1) bs ?A"
    using weave_skip[of 1 "b # bs" ?A i] ge by auto
  moreover have "weave (i + 1) bs (bodyAdds (i + 1 - 1) r @ T) =
    out' @ weave (i + 1 + int (length bs - length rest)) rest T"
    using 2(2,3,4) p len by (intro "2.IH") (auto simp: of_nat_diff algebra_simps)
  ultimately show ?case using p len by (simp add: of_nat_diff algebra_simps)
next
  case (4 bs s r)
  then obtain out' where p: "patchBody bs r = Some (out', rest)" "out = s # out'"
    by auto
  with 4 show ?case by (simp add: weave_add)
qed auto

lemma bodyAdds_sorted: "sorted (map fst (bodyAdds c body))"
proof (induction c body rule: bodyAdds.induct)
  case (3 c s r)
  then show ?case using bodyAdds_ge[of _ c r] by auto
qed auto

lemma patch_weave:
  assumes "patch pos bs hs = Some other" and "\<forall>h \<in> set hs. \<not> list_ex is_del (h_body h)"
  shows "weave (int pos) bs (diffAdds hs) = other \<and> sorted (map fst (diffAdds hs)) \<and>
         (\<forall>a \<in> set (diffAdds hs). int pos - 1 \<le> fst a \<and> fst a \<le> int pos + int (length bs) - 1)"
  using assms
proof (induction hs arbitrary: pos bs other)
  case Nil
  then show ?case using weave_skip[of "length bs" bs "[]" "int pos"] by (simp add: diffAdds_def)
next
  case (Cons h hs)
  define k where "k = h_start h - pos"
  define A where "A = bodyAdds (int (h_start h) - 1) (h_body h)"
  from Cons.prems(1) obtain out rest r where ok: "pos \<le> h_start h" "k \<le> length bs"
    and pb: "patchBody (drop k bs) (h_body h) = Some (out, rest)"
    and pt: "patch (pos + length bs - length rest) rest hs = Some r"
    and other: "other = take k bs @ out @ r"
    by (auto simp: k_def Let_def split: if_splits option.splits)
  define q where "q = pos + length bs - length rest"
  have len: "length rest \<le> length bs - k" using patchBody_length[OF pb] by simp
  from Cons.IH[OF pt] Cons.prems(2) have w: "weave (int q) rest (diffAdds hs) = r"
    and so: "sorted (map fst (diffAdds hs))"
    and rg: "\<And>a. a \<in> set (diffAdds hs) \<Longrightarrow> int q - 1 \<le> fst a \<and> fst a \<le> int q + int (length rest) - 1"
    by (auto simp: q_def)
  have pos: "int pos + int k = int (h_start h)" using ok by (simp add: k_def)
  have q: "int q = int (h_start h) + int (length (drop k bs) - length rest)"
    and q': "int q + int (length rest) = int pos + int (length bs)" and q'': "int (h_start h) \<le> int q"
    using ok len pos by (simp_all add: of_nat_diff q_def)
  have A: "int (h_start h) - 1 \<le> fst a \<and> fst a \<le> int q - 1" if "a \<in> set A" for a
    using bodyAdds_ge[of a "int (h_start h) - 1" "h_body h"]
      bodyAdds_le[OF pb, of a "int (h_start h) - 1"] that len ok q
    unfolding A_def by (auto simp: of_nat_diff)
  have all: "int (h_start h) - 1 \<le> fst a \<and> fst a \<le> int pos + int (length bs) - 1"
    if "a \<in> set (A @ diffAdds hs)" for a
    using that A[of a] rg[of a] q' q'' by auto
  have da: "diffAdds (h # hs) = A @ diffAdds hs" by (simp add: diffAdds_def A_def)
  have body: "weave (int (h_start h)) (drop k bs) (A @ diffAdds hs) = out @ weave (int q) rest (diffAdds hs)"
    unfolding A_def q using rg q Cons.prems(2) by (intro weave_body[OF pb]) auto
  have skip: "weave (int pos) bs (A @ diffAdds hs) =
    take k bs @ weave (int pos + int k) (drop k bs) (A @ diffAdds hs)"
    by (rule weave_skip[OF ok(2)]) (use all pos in auto)
  have cross: "fst a \<le> fst b" if "a \<in> set A" "b \<in> set (diffAdds hs)" for a b
    using A[OF that(1)] rg[OF that(2)] by linarith
  have sorted: "sorted (map fst (A @ diffAdds hs))"
    using cross so bodyAdds_sorted by (auto simp: sorted_append A_def)
  have "weave (int pos) bs (A @ diffAdds hs) = other"
    unfolding skip pos body w other ..
  moreover have "int pos - 1 \<le> fst a \<and> fst a \<le> int pos + int (length bs) - 1"
    if "a \<in> set (A @ diffAdds hs)" for a
    using all[OF that] pos by linarith
  ultimately show ?case unfolding da using sorted by blast
qed

lemma takeWhile_sorted_least:
  fixes m :: int
  assumes "sorted (map fst adds)" and "\<forall>a \<in> set adds. m \<le> fst a"
  shows "takeWhile (\<lambda>a. fst a = m) adds = filter (\<lambda>a. fst a = m) adds"
    and "dropWhile (\<lambda>a. fst a = m) adds = filter (\<lambda>a. fst a \<noteq> m) adds"
  using assms
proof (induction adds)
  case (Cons a adds)
  case 1
  show ?case
  proof (cases "fst a = m")
    case False
    with 1 have "fst x \<noteq> m" if "x \<in> set adds" for x using that by fastforce
    with False show ?thesis by (auto simp: filter_empty_conv)
  qed (use Cons 1 in auto)
  case 2
  show ?case
  proof (cases "fst a = m")
    case False
    with 1 have "fst x \<noteq> m" if "x \<in> set adds" for x using that by fastforce
    with False show ?thesis by auto
  qed (use Cons 1 in auto)
qed auto

lemma weaveAt_cong: "(\<And>n. j - 1 \<le> n \<Longrightarrow> f n = g n) \<Longrightarrow> weaveAt f j bs = weaveAt g j bs"
  by (induction bs arbitrary: j) auto

lemma weave_at:
  "sorted (map fst adds) \<Longrightarrow> \<forall>a \<in> set adds. i - 1 \<le> fst a \<and> fst a \<le> i + int (length bs) - 1 \<Longrightarrow>
   weave i bs adds = weaveAt (at adds) i bs"
proof (induction bs arbitrary: i adds)
  case Nil
  then have "filter (\<lambda>a. fst a = i - 1) adds = adds" by (intro filter_True) force
  then show ?case by (simp add: at_def)
next
  case (Cons b bs)
  let ?rest = "filter (\<lambda>a. fst a \<noteq> i - 1) adds"
  note tw = takeWhile_sorted_least[OF Cons.prems(1), of "i - 1"]
  have "weave (i + 1) bs ?rest = weaveAt (at ?rest) (i + 1) bs"
  proof (rule Cons.IH)
    show "sorted (map fst ?rest)" using Cons.prems(1) by (rule sorted_filter)
    show "\<forall>a \<in> set ?rest. i + 1 - 1 \<le> fst a \<and> fst a \<le> i + 1 + int (length bs) - 1"
      using Cons.prems(2) by fastforce
  qed
  also have "\<dots> = weaveAt (at adds) (i + 1) bs"
    by (rule weaveAt_cong) (auto simp: at_def intro!: arg_cong[of _ _ "map snd"] filter_cong)
  finally show ?case using tw Cons.prems(2) by (simp add: at_def[of adds "i - 1"])
qed

lemma weaveAt_subseq: "(\<And>j. subseq (f j) (g j)) \<Longrightarrow> subseq (weaveAt f i bs) (weaveAt g i bs)"
  by (induction bs arbitrary: i) (auto intro!: list_emb_append_mono)

lemma weaveAt_empty: "weaveAt (\<lambda>_. []) i bs = bs"
  by (induction bs arbitrary: i) auto

lemma weaveAt_mset:
  "mset (weaveAt (\<lambda>j. f j @ g j) i bs) + mset bs = mset (weaveAt f i bs) + mset (weaveAt g i bs)"
proof (induction bs arbitrary: i)
  case (Cons b bs)
  from Cons[of "i + 1"] show ?case by (simp add: algebra_simps)
qed simp

subsection \<open>Texts as lists of lines\<close>

definition textLine :: "string \<Rightarrow> bool" where
  "textLine l \<longleftrightarrow> newline \<notin> set l \<and> carriage_return \<notin> set l \<and> length l < 65536"

lemma writeLines_simps [simp]: "writeLines [] = []" "writeLines (l # ls) = l @ newline # writeLines ls"
  by (simp_all add: writeLines_def)

lemma writeLines_Split:
  "list_all textLine ls \<Longrightarrow> Split newline (writeLines ls) = ls @ [[]]"
  by (induction ls) (auto simp: textLine_def Split_append)

lemma writeLines_no_cr: "list_all textLine ls \<Longrightarrow> carriage_return \<notin> set (writeLines ls)"
  by (induction ls) (auto simp: textLine_def newline_def carriage_return_def)

lemma splitLines_writeLines:
  assumes "list_all textLine ls"
  shows "splitLines (normaliseLF (writeLines ls)) = ls"
proof -
  have "normaliseLF (writeLines ls) = writeLines ls"
    unfolding normaliseLF_def by (rule ReplaceAll_hd_notin) (use writeLines_no_cr[OF assms] in auto)
  moreover have "splitLines (writeLines ls) = ls"
  proof (cases ls rule: rev_cases)
    case (snoc us l)
    have eq: "writeLines ls = (writeLines us @ l) @ [newline]" by (simp add: snoc writeLines_def)
    then show ?thesis
      using writeLines_Split[OF assms] Split_append_sep[of newline "writeLines us @ l" "[]"]
        TrimSuffix_append[of "writeLines us @ l" "[newline]"]
      by (simp add: splitLines_def del: TrimSuffix_append)
  qed (simp add: splitLines_def)
  ultimately show ?thesis by simp
qed

lemma scanLines_writeLines:
  assumes "list_all textLine ls"
  shows "scanLines (writeLines ls) = ls"
proof -
  have "dropCR l = l" if "textLine l" for l
    using that by (auto simp: dropCR_def textLine_def) (metis last_in_set)
  then have m: "map dropCR ls = ls" using assms by (simp add: list_all_iff map_idI)
  have "takeWhile (\<lambda>l. length l < 65536) ls = ls"
    using assms by (simp add: list_all_iff textLine_def)
  then show ?thesis
    unfolding scanLines_def writeLines_Split[OF assms] Let_def by (simp add: m del: takeWhile_eq_all_conv)
qed

text \<open>What the development relies on of \<^verbatim>\<open>diff -u\<close>: an ordinary unified diff of the two texts.\<close>

definition good_diff :: "diff_env \<Rightarrow> string list \<Rightarrow> string list \<Rightarrow> bool" where
  "good_diff env B X \<longleftrightarrow>
     (\<exists>hs. de_diff env (writeLines B) (writeLines X) = (ProcExit 1, writeLines (diff_text hs)) \<and>
        list_all textLine (diff_text hs) \<and> wfDiff hs \<and> hs \<noteq> [] \<and> patch 0 B hs = Some X)"

lemma diffAddOnly_weave:
  assumes B: "list_all textLine B" and X: "list_all textLine X"
    and good: "X \<noteq> B \<longrightarrow> good_diff env B X"
    and ok: "diffAddOnly env (writeLines B) (writeLines X) = Inr (Some H)"
  shows "weave 0 B (flat H) = X \<and> sorted (map fst (flat H)) \<and>
         (\<forall>a \<in> set (flat H). -1 \<le> fst a \<and> fst a \<le> int (length B) - 1)"
proof (cases "X = B")
  case True
  with ok have "H = []" by (simp add: diffAddOnly_def)
  with True show ?thesis using weave_skip[of "length B" B "[]" 0] by simp
next
  case False
  with good obtain hs where hs: "de_diff env (writeLines B) (writeLines X) = (ProcExit 1, writeLines (diff_text hs))"
    "list_all textLine (diff_text hs)" "wfDiff hs" "hs \<noteq> []" "patch 0 B hs = Some X"
    by (auto simp: good_diff_def)
  have ne: "writeLines B \<noteq> writeLines X"
    using splitLines_writeLines[OF B] splitLines_writeLines[OF X] False by metis
  with ok hs have p: "parseDiffLines [] None (-1) (diff_text hs) = Inr (Some H)"
    by (auto simp: diffAddOnly_def runDiff_def classifyDiffErr_def parseUnifiedDiffAddOnly_def
        scanLines_writeLines split: if_splits)
  then have nodel: "\<forall>h \<in> set hs. \<not> list_ex is_del (h_body h)"
    using parse_diff_del[OF hs(3)] by fastforce
  from parse_diff_additive[OF hs(3) nodel hs(4) p] patch_weave[OF hs(5) nodel]
  show ?thesis by auto
qed

subsection \<open>The merged text\<close>

lemma map_place_hunkLines: "map place (hunkLines side H) = flat H"
  by (simp add: hunkLines_def flat_def place_def map_concat comp_def)

lemma sorted_places:
  "sorted (map fst (map place (sort_key (\<lambda>a. (al_after a, al_side a)) xs)))"
proof -
  have "sorted_wrt (\<lambda>a b. (al_after a, al_side a) \<le> (al_after b, al_side b))
          (sort_key (\<lambda>a. (al_after a, al_side a)) xs)"
    using sorted_sort_key[of "\<lambda>a. (al_after a, al_side a)" xs] unfolding sorted_map .
  then have "sorted_wrt (\<lambda>a b. al_after a \<le> al_after b) (sort_key (\<lambda>a. (al_after a, al_side a)) xs)"
    by (rule sorted_wrt_mono_rel[rotated]) auto
  then show ?thesis by (simp add: sorted_map sorted_wrt_map place_def)
qed

text \<open>At each place the additions of our side come first, each side in its own order.\<close>

lemma at_sorted:
  "at (map place (sort_key (\<lambda>a. (al_after a, al_side a)) (hunkLines 0 oh @ hunkLines 1 th))) j =
   at (flat oh) j @ at (flat th) j"
proof -
  let ?key = "\<lambda>a. (al_after a, al_side a)" and ?P = "\<lambda>a. al_after a = j"
  have side: "al_side a = n" if "a \<in> set (hunkLines n H)" for a n H
    using that by (auto simp: hunkLines_def)
  have same: "sorted (map ?key (filter ?P xs))" if "\<forall>a \<in> set xs. al_side a = n" for xs n
    using that by (induction xs) auto
  have "sorted (map ?key (filter ?P (hunkLines 0 oh) @ filter ?P (hunkLines 1 th)))"
    using same[of "hunkLines 0 oh" 0] same[of "hunkLines 1 th" 1] side[of _ 0 oh] side[of _ 1 th]
    by (auto simp: sorted_append)
  then have "filter ?P (sort_key ?key (hunkLines 0 oh @ hunkLines 1 th)) =
    filter ?P (hunkLines 0 oh) @ filter ?P (hunkLines 1 th)"
    by (simp add: filter_sort sort_key_id_if_sorted)
  then show ?thesis
    by (simp add: at_def map_place_hunkLines[of 0 oh, symmetric] map_place_hunkLines[of 1 th, symmetric]
        filter_map comp_def place_def)
qed

lemma merge_lines:
  assumes "weave 0 B (flat oh) = O'" "sorted (map fst (flat oh))"
    and "\<forall>a \<in> set (flat oh). -1 \<le> fst a \<and> fst a \<le> int (length B) - 1"
    and "weave 0 B (flat th) = T'" "sorted (map fst (flat th))"
    and "\<forall>a \<in> set (flat th). -1 \<le> fst a \<and> fst a \<le> int (length B) - 1"
  defines "M \<equiv> weaveLoop 0 B (sort_key (\<lambda>a. (al_after a, al_side a)) (hunkLines 0 oh @ hunkLines 1 th))"
  shows "subseq B M \<and> subseq O' M \<and> subseq T' M \<and> mset M + mset B = mset O' + mset T'"
proof -
  let ?all = "map place (sort_key (\<lambda>a. (al_after a, al_side a)) (hunkLines 0 oh @ hunkLines 1 th))"
  have set_all: "set ?all = set (flat oh) \<union> set (flat th)"
    by (simp add: map_place_hunkLines[of 0 oh, symmetric] map_place_hunkLines[of 1 th, symmetric] image_Un)
  have M: "M = weaveAt (\<lambda>j. at (flat oh) j @ at (flat th) j) 0 B"
    unfolding M_def weaveLoop_weave at_sorted[symmetric]
    using sorted_places set_all assms(3,6) by (intro weave_at) auto
  have O: "O' = weaveAt (at (flat oh)) 0 B" and T: "T' = weaveAt (at (flat th)) 0 B"
    using weave_at[OF assms(2), of 0 B] weave_at[OF assms(5), of 0 B] assms(1,3,4,6) by auto
  have "subseq (weaveAt (\<lambda>_. []) 0 B) M" unfolding M by (rule weaveAt_subseq) simp
  then have "subseq B M" by (simp add: weaveAt_empty)
  moreover have "subseq O' M" unfolding M O by (rule weaveAt_subseq) (simp add: prefix_imp_subseq)
  moreover have "subseq T' M" unfolding M T by (rule weaveAt_subseq) (simp add: suffix_imp_subseq suffix_def)
  moreover have "mset M + mset B = mset O' + mset T'"
    unfolding M O T by (rule weaveAt_mset)
  ultimately show ?thesis by blast
qed

subsection \<open>Conflict ranges: lemmas\<close>

text \<open>Ranges that start after \<open>lo\<close>, end by \<open>hi\<close>, and do not meet.\<close>

fun rangesWithin :: "nat \<Rightarrow> nat \<Rightarrow> LineRange list \<Rightarrow> bool" where
  "rangesWithin lo hi [] = True"
| "rangesWithin lo hi (r # rs) =
     (lo < lr_start r \<and> lr_start r \<le> lr_end r \<and> lr_end r \<le> hi \<and> rangesWithin (lr_end r) hi rs)"

lemma rangesWithin_weaken: "rangesWithin lo hi rs \<Longrightarrow> lo' \<le> lo \<Longrightarrow> rangesWithin lo' hi rs"
  by (cases rs) auto

lemma conflictLoop_within:
  "(case open_at of None \<Rightarrow> True | Some st \<Rightarrow> lo < st \<and> st \<le> i) \<Longrightarrow> lo \<le> i \<Longrightarrow>
   rangesWithin lo (i + length ls) (conflictLoop i open_at ls)"
proof (induction i open_at ls arbitrary: lo rule: conflictLoop.induct)
  case (2 i open_at line ls)
  show ?case
  proof (cases "HasPrefix line ''<<<<<<<''")
    case True
    with "2.IH"(1)[OF refl True, of lo] "2.prems" show ?thesis by simp
  next
    case False
    note IH = "2.IH"(2-4)[OF refl False]
    show ?thesis
    proof (cases open_at)
      case None
      with IH(1)[OF None, of lo] False "2.prems" show ?thesis by simp
    next
      case (Some st)
      with IH(2)[OF Some, of "i + 1"] IH(3)[OF Some, of lo] False "2.prems" show ?thesis by auto
    qed
  qed
qed (auto split: option.splits)

lemma conflictLoop_empty_iff:
  "conflictLoop i open_at ls = [] \<longleftrightarrow> open_at = None \<and> (\<forall>l \<in> set ls. \<not> HasPrefix l ''<<<<<<<'')"
  by (induction i open_at ls rule: conflictLoop.induct) (auto split: option.splits)

subsection \<open>White space: lemmas\<close>

lemma TrimRight_blanks_prefix:
  assumes "TrimRight l blanks = x # xs"
  shows "leadingTabs l = leadingTabs (x # xs)"
proof -
  obtain w where w: "l = (x # xs) @ w" "set w \<subseteq> set blanks"
    using TrimRight_decomp[of l blanks] assms by auto
  have "last (x # xs) \<notin> set blanks"
  proof -
    have "rev (x # xs) = dropWhile (\<lambda>c. c \<in> set blanks) (rev l)"
      using assms by (metis TrimRight_def rev_rev_ident)
    moreover have "dropWhile (\<lambda>c. c \<in> set blanks) (rev l) \<noteq> []"
      using calculation by (metis Nil_is_rev_conv list.distinct(1))
    ultimately show ?thesis
      using hd_dropWhile[of "\<lambda>c. c \<in> set blanks" "rev l"] by (metis hd_rev)
  qed
  then have "last (x # xs) \<noteq> tab" by (auto simp: blanks_def)
  then obtain c where "c \<in> set (x # xs)" "c \<noteq> tab" by (metis last_in_set list.distinct(1))
  then show ?thesis unfolding leadingTabs_def w(1) by (subst takeWhile_append1) auto
qed

lemma same_indent:
  assumes "TrimRight l blanks = TrimRight m blanks" and "TrimRight l blanks \<noteq> []"
  shows "leadingTabs l = leadingTabs m"
  using assms by (metis TrimRight_blanks_prefix neq_Nil_conv)

lemma whitespaceLines_iff:
  assumes "length ps = length bs" and "length qs = length bs"
  shows "whitespaceLines bs ps qs \<longleftrightarrow>
    list_all2 (\<lambda>b p. TrimRight p blanks = TrimRight b blanks \<and> leadingTabs p = leadingTabs b) bs ps \<and>
    list_all2 (\<lambda>b q. TrimRight q blanks = TrimRight b blanks \<and> leadingTabs q = leadingTabs b) bs qs"
  using assms by (induction bs ps qs rule: whitespaceLines.induct) auto

text \<open>Two texts that differ in trailing blanks only; blank lines keep their leading tabs.\<close>

definition sameButBlanks :: "string list \<Rightarrow> string list \<Rightarrow> bool" where
  "sameButBlanks bs ps \<longleftrightarrow>
     map (\<lambda>l. TrimRight l blanks) ps = map (\<lambda>l. TrimRight l blanks) bs \<and>
     (\<forall>i < length bs. TrimRight (bs ! i) blanks = [] \<longrightarrow> leadingTabs (ps ! i) = leadingTabs (bs ! i))"

lemma sameButBlanks_iff:
  "sameButBlanks bs ps \<longleftrightarrow>
   list_all2 (\<lambda>b p. TrimRight p blanks = TrimRight b blanks \<and> leadingTabs p = leadingTabs b) bs ps"
  (is "?L \<longleftrightarrow> ?R")
proof
  assume L: ?L
  then have len: "length ps = length bs" unfolding sameButBlanks_def by (metis length_map)
  have tr: "TrimRight (ps ! i) blanks = TrimRight (bs ! i) blanks" if "i < length bs" for i
    using L that len unfolding sameButBlanks_def by (metis nth_map)
  have "leadingTabs (ps ! i) = leadingTabs (bs ! i)" if "i < length bs" for i
    using L tr[OF that] same_indent[OF tr[OF that]] that unfolding sameButBlanks_def by metis
  with tr len show ?R by (simp add: list_all2_conv_all_nth)
next
  assume ?R
  then show ?L
    by (auto simp: sameButBlanks_def list_all2_conv_all_nth intro!: nth_equalityI)
qed

subsection \<open>Example\<close>

definition demo_base :: "string list" where "demo_base = [''a'', ''b'']"
definition demo_ours :: "string list" where "demo_ours = [''a'', ''x'', ''b'']"
definition demo_theirs :: "string list" where "demo_theirs = [''a'', ''b'', ''y'']"

definition demo_oursHunks :: "hunk list" where
  "demo_oursHunks = [\<lparr>h_header = ''@@ -1,2 +1,3 @@'', h_start = 0, h_body = [Ctx ''a'', Add ''x'', Ctx ''b'']\<rparr>]"
definition demo_theirsHunks :: "hunk list" where
  "demo_theirsHunks = [\<lparr>h_header = ''@@ -1,2 +1,3 @@'', h_start = 0, h_body = [Ctx ''a'', Ctx ''b'', Add ''y'']\<rparr>]"

definition demo_env :: diff_env where
  "demo_env = \<lparr>de_tmp = (\<lambda>b x. True),
     de_diff = (\<lambda>b x. (ProcExit 1, writeLines (diff_text
       (if x = writeLines demo_ours then demo_oursHunks else demo_theirsHunks))))\<rparr>"

lemma demo_textLines:
  "list_all textLine demo_base" "list_all textLine demo_ours" "list_all textLine demo_theirs"
  "list_all textLine (diff_text demo_oursHunks)" "list_all textLine (diff_text demo_theirsHunks)"
  by (simp_all add: textLine_def demo_base_def demo_ours_def demo_theirs_def demo_oursHunks_def
      demo_theirsHunks_def diff_text_def hunk_text_def newline_def carriage_return_def)

lemma demo_hunks:
  "wfDiff demo_oursHunks" "wfDiff demo_theirsHunks" "demo_oursHunks \<noteq> []" "demo_theirsHunks \<noteq> []"
  "patch 0 demo_base demo_oursHunks = Some demo_ours"
  "patch 0 demo_base demo_theirsHunks = Some demo_theirs"
  "writeLines demo_theirs \<noteq> writeLines demo_ours"
  by code_simp+

lemma demo_good: "good_diff demo_env demo_base demo_ours" "good_diff demo_env demo_base demo_theirs"
  unfolding good_diff_def
  by (rule exI[of _ demo_oursHunks], simp add: demo_env_def demo_hunks demo_textLines)
     (rule exI[of _ demo_theirsHunks], simp add: demo_env_def demo_hunks demo_textLines)

lemma demo_additions:
  "isNonOverlappingAddition demo_env (writeLines demo_base) (writeLines demo_ours) (writeLines demo_theirs) =
   Some (writeLines [''a'', ''x'', ''b'', ''y''])"
proof -
  have ne: "writeLines demo_base \<noteq> writeLines demo_ours" "writeLines demo_base \<noteq> writeLines demo_theirs"
    "writeLines demo_theirs \<noteq> writeLines demo_ours" by code_simp+
  have p: "parseDiffLines [] None (-1) (diff_text demo_oursHunks) = Inr (Some [\<lparr>ah_after = 0, ah_lines = [''x'']\<rparr>])"
    "parseDiffLines [] None (-1) (diff_text demo_theirsHunks) = Inr (Some [\<lparr>ah_after = 1, ah_lines = [''y'']\<rparr>])"
    by code_simp+
  have d: "diffAddOnly demo_env (writeLines demo_base) (writeLines demo_ours) = Inr (Some [\<lparr>ah_after = 0, ah_lines = [''x'']\<rparr>])"
    "diffAddOnly demo_env (writeLines demo_base) (writeLines demo_theirs) = Inr (Some [\<lparr>ah_after = 1, ah_lines = [''y'']\<rparr>])"
    using ne p by (simp_all add: diffAddOnly_def demo_env_def runDiff_def classifyDiffErr_def
        parseUnifiedDiffAddOnly_def scanLines_writeLines demo_textLines)
  show ?thesis
    unfolding isNonOverlappingAddition_def d splitLines_writeLines[OF demo_textLines(1)]
    by (simp add: hunkLines_def demo_base_def)
qed

subsection \<open>Properties\<close>



text \<open>
  what an automatic resolution is.  A resolution is only offered when none of the three texts
  has a zero byte in its first 8000 bytes, and it is either the text both sides have and the base
  has not, or our text when all three agree up to trailing blanks (a blank line keeps its leading
  tabs), or the result of the additions heuristic.
\<close>

theorem tryAutoResolve_sound:
  assumes "tryAutoResolve env base ours theirs = Some (r, h)"
  shows "(\<forall>f \<in> {base, ours, theirs}. CHR 0x00 \<notin> set (take 8000 f)) \<and>
    (h = ''identical'' \<and> r = ours \<and> ours = theirs \<and> ours \<noteq> base \<or>
     h = ''whitespace'' \<and> r = ours \<and>
       sameButBlanks (splitLines (normaliseLF base)) (splitLines (normaliseLF ours)) \<and>
       sameButBlanks (splitLines (normaliseLF base)) (splitLines (normaliseLF theirs)) \<or>
     h = ''additions'' \<and> isNonOverlappingAddition env base ours theirs = Some r)"
proof -
  have "sameButBlanks (splitLines (normaliseLF base)) (splitLines (normaliseLF ours)) \<and>
        sameButBlanks (splitLines (normaliseLF base)) (splitLines (normaliseLF theirs)) \<and> x = ours"
    if "isWhitespaceOnly base ours theirs = Some x" for x
    using that unfolding sameButBlanks_iff
    by (auto simp: isWhitespaceOnly_def Let_def whitespaceLines_iff split: if_splits)
  with assms show ?thesis
    by (auto simp: tryAutoResolve_def isBinary_def IndexByte_None_iff isIdenticalEdit_def
             split: if_splits option.splits)
qed

theorem tryAutoResolve_sound_witness:
  "sameButBlanks (splitLines (normaliseLF ''a'')) (splitLines (normaliseLF ''a '')) \<and>
   tryAutoResolve demo_env ''a'' ''a '' ''a'' = Some (''a '', ''whitespace'')"
proof -
  have "tryAutoResolve demo_env ''a'' ''a '' ''a'' = Some (''a '', ''whitespace'')"
    by (simp add: tryAutoResolve_def isBinary_def isIdenticalEdit_def isWhitespaceOnly_def
        normaliseLF_def ReplaceAll_def splitLines_def TrimSuffix_def HasSuffix_def newline_def
        carriage_return_def TrimRight_def blanks_def leadingTabs_def tab_def)
  then show ?thesis using tryAutoResolve_sound[of demo_env "''a''" "''a ''" "''a''"] by auto
qed


definition dash_base :: "string list" where "dash_base = [''-- k'', ''a'']"
definition dash_ours :: "string list" where "dash_ours = [''a'', ''n'']"
definition dash_theirs :: "string list" where "dash_theirs = [''-- k'', ''a'', ''m'']"

definition dash_oursHunks :: "hunk list" where
  "dash_oursHunks = [\<lparr>h_header = ''@@ -1,2 +1,2 @@'', h_start = 0, h_body = [Del ''-- k'', Ctx ''a'', Add ''n'']\<rparr>]"
definition dash_theirsHunks :: "hunk list" where
  "dash_theirsHunks = [\<lparr>h_header = ''@@ -1,2 +1,3 @@'', h_start = 0, h_body = [Ctx ''-- k'', Ctx ''a'', Add ''m'']\<rparr>]"

definition dash_env :: diff_env where
  "dash_env = \<lparr>de_tmp = (\<lambda>b x. True),
     de_diff = (\<lambda>b x. (ProcExit 1, writeLines (diff_text
       (if x = writeLines dash_ours then dash_oursHunks else dash_theirsHunks))))\<rparr>"

lemma dash_textLines:
  "list_all textLine dash_base" "list_all textLine (diff_text dash_oursHunks)"
  "list_all textLine (diff_text dash_theirsHunks)"
  by (simp_all add: textLine_def dash_base_def dash_oursHunks_def dash_theirsHunks_def diff_text_def
      hunk_text_def newline_def carriage_return_def)

lemma dash_facts:
  "writeLines dash_base \<noteq> writeLines dash_ours" "writeLines dash_base \<noteq> writeLines dash_theirs"
  "writeLines dash_theirs \<noteq> writeLines dash_ours"
  "parseDiffLines [] None (-1) (diff_text dash_oursHunks) = Inr (Some [\<lparr>ah_after = 0, ah_lines = [''n'']\<rparr>])"
  "parseDiffLines [] None (-1) (diff_text dash_theirsHunks) = Inr (Some [\<lparr>ah_after = 1, ah_lines = [''m'']\<rparr>])"
  by code_simp+

lemma dash_diffs:
  "diffAddOnly dash_env (writeLines dash_base) (writeLines dash_ours) = Inr (Some [\<lparr>ah_after = 0, ah_lines = [''n'']\<rparr>])"
  "diffAddOnly dash_env (writeLines dash_base) (writeLines dash_theirs) = Inr (Some [\<lparr>ah_after = 1, ah_lines = [''m'']\<rparr>])"
  using dash_facts by (simp_all add: diffAddOnly_def dash_env_def runDiff_def classifyDiffErr_def
      parseUnifiedDiffAddOnly_def scanLines_writeLines dash_textLines)

text \<open>
  a deleted line that starts with two dashes is taken for a file header.  In the example our
  side deletes the line \<^verbatim>\<open>-- k\<close>, the diff is correct, and the resolution reports success with the
  deleted line back in the text.
\<close>

theorem additions_restore_deleted_line:
  "patch 0 dash_base dash_oursHunks = Some dash_ours \<and> ''-- k'' \<notin> set dash_ours \<and>
   isNonOverlappingAddition dash_env (writeLines dash_base) (writeLines dash_ours) (writeLines dash_theirs) =
     Some (writeLines [''-- k'', ''n'', ''a'', ''m''])"
proof (intro conjI)
  show "isNonOverlappingAddition dash_env (writeLines dash_base) (writeLines dash_ours) (writeLines dash_theirs) =
     Some (writeLines [''-- k'', ''n'', ''a'', ''m''])"
    unfolding isNonOverlappingAddition_def dash_diffs splitLines_writeLines[OF dash_textLines(1)]
    by (simp add: hunkLines_def dash_base_def)
qed (code_simp+)

text \<open>
  an oversized line hides the rest of a diff.  The scanner stops at a line that does not fit its
  64 KiB buffer and its error is not read, so a diff is judged by the lines in front of that line
  alone, whatever deletions follow.
\<close>

theorem oversized_line_hides_rest:
  assumes "list_all textLine ls" and "newline \<notin> set l" and "65536 \<le> length l"
    and "\<forall>r \<in> set rest. newline \<notin> set r"
  shows "parseUnifiedDiffAddOnly (writeLines (ls @ l # rest)) = parseUnifiedDiffAddOnly (writeLines ls)"
proof -
  have split: "Split newline (writeLines xs) = xs @ [[]]" if "\<forall>x \<in> set xs. newline \<notin> set x" for xs
    using that by (induction xs) (auto simp: Split_append)
  have "\<forall>x \<in> set (ls @ l # rest). newline \<notin> set x"
    using assms by (auto simp: list_all_iff textLine_def)
  from split[OF this] have "scanLines (writeLines (ls @ l # rest)) =
      map dropCR (takeWhile (\<lambda>l. length l < 65536) (ls @ l # rest))"
    by (simp add: scanLines_def butlast_append)
  also have "takeWhile (\<lambda>l. length l < 65536) (ls @ l # rest) = takeWhile (\<lambda>l. length l < 65536) ls"
    using assms by (induction ls) auto
  also have "map dropCR \<dots> = scanLines (writeLines ls)"
    using writeLines_Split[OF assms(1)] by (simp add: scanLines_def)
  finally show ?thesis by (simp add: parseUnifiedDiffAddOnly_def)
qed

theorem oversized_line_hides_rest_witness:
  "parseUnifiedDiffAddOnly (writeLines ([''@@ -1,2 +1,2 @@'', ''+n''] @ replicate 65536 (CHR ''+'') # [''-gone''])) =
   parseUnifiedDiffAddOnly (writeLines [''@@ -1,2 +1,2 @@'', ''+n''])"
proof (rule oversized_line_hides_rest)
  show "list_all textLine [''@@ -1,2 +1,2 @@'', ''+n'']"
    by (simp add: textLine_def newline_def carriage_return_def)
  show "newline \<notin> set (replicate 65536 (CHR ''+''))"
    unfolding set_replicate_conv_if by (simp add: newline_def)
  show "65536 \<le> length (replicate 65536 (CHR ''+''))" by (subst length_replicate) (rule order_refl)
qed (simp add: newline_def)

end
