(* ===== verification/MergeEngine.thy ===== *)
theory MergeEngine
  imports GitTypes MergeHeuristics "HOL-Library.List_Lexorder" "HOL-Library.Char_ord"
begin

text \<open>
  The three-way merge of the auto-merger (\<^verbatim>\<open>internal/portal/automerger/merge.go\<close>): the changes of the
  two sides against the base, the resolution of every touched path, the content merge by
  \<^verbatim>\<open>git merge-file\<close>, the auto-resolution of conflicted files, and the construction of the merged tree.
  The object database is a map from object names to contents; a tree object is its list of
  entries, with the sub-trees in place of their object names.  Go's maps are iterated in an
  unspecified order, so the functions that do so take the order as an argument and the theorems
  hold for every order.
\<close>

subsection \<open>Data\<close>

record treeEntry =
  te_hash :: string
  te_mode :: nat

record sideChange =
  sc_fromHash :: string
  sc_toHash :: string
  sc_fromPath :: string
  sc_toPath :: string
  sc_mode :: nat
  sc_deleted :: bool
  sc_added :: bool

text \<open>
  Tree objects.  \<open>GUnread\<close> is an entry with the mode of a directory or of a submodule whose tree the
  repository does not return.
\<close>

datatype gtree = GTree "(string \<times> gentry) list"
  and gentry = GBlob treeEntry | GDir gtree | GUnread

datatype ResultKind = CleanMerge | SafeAutoResolve | HardConflict

record Conflict =
  cf_file :: string
  cf_ranges :: "LineRange list"

record MergeResult =
  mr_kind :: ResultKind
  mr_tree :: string
  mr_heuristic :: string
  mr_conflicts :: "Conflict list"

record conflictedFile =
  cd_path :: string
  cd_base :: string
  cd_ours :: string
  cd_theirs :: string
  cd_mode :: nat
  cd_ranges :: "LineRange list"

text \<open>A file of a tree diff, and a change: its two sides, or the error of reading them.\<close>

record File =
  f_hash :: string
  f_name :: string
  f_mode :: nat

type_synonym change = "(File option \<times> File option) option"

type_synonym blobs = "string \<rightharpoonup> string"
type_synonym entries = "string \<rightharpoonup> treeEntry"

text \<open>
  The environment of a merge: the object name of a blob and of a tree (\<^const>\<open>None\<close> when storing the
  tree fails), which reads and writes of blobs fail, the tree of a commit, the diff of two trees,
  \<^verbatim>\<open>git merge-file\<close> on three contents (its output and exit code, \<^const>\<open>None\<close> when it cannot be run),
  and the environment of \<^verbatim>\<open>diff\<close>.
\<close>

record merge_env =
  me_blob_name :: "string \<Rightarrow> string"
  me_tree_name :: "gtree \<Rightarrow> string option"
  me_read_err :: "string \<Rightarrow> bool"
  me_write_err :: "string \<Rightarrow> bool"
  me_tree :: "Commit \<Rightarrow> gtree option"
  me_diff_tree :: "gtree \<Rightarrow> gtree \<Rightarrow> change list option"
  me_merge_file :: "string \<Rightarrow> string \<Rightarrow> string \<Rightarrow> (string \<times> int) option"
  me_diff :: diff_env

record mergeDiff =
  md_ours :: "string \<rightharpoonup> sideChange"
  md_theirs :: "string \<rightharpoonup> sideChange"
  md_merged :: entries

record mergeState =
  ms_entries :: entries
  ms_hard :: "Conflict list"
  ms_conflicted :: "conflictedFile list"
  ms_blobs :: blobs

subsection \<open>Changes of one side\<close>

definition zeroHash :: string where
  "zeroHash = replicate 40 (CHR ''0'')"

definition effectivePath :: "sideChange \<Rightarrow> string" where
  "effectivePath sc = (if sc_toPath sc \<noteq> [] then sc_toPath sc else sc_fromPath sc)"

definition sideChangeOf :: "File option \<Rightarrow> File option \<Rightarrow> sideChange" where
  "sideChangeOf from to =
     \<lparr>sc_fromHash = (case from of Some f \<Rightarrow> f_hash f | None \<Rightarrow> zeroHash),
      sc_toHash = (case to of Some f \<Rightarrow> f_hash f | None \<Rightarrow> zeroHash),
      sc_fromPath = (case from of Some f \<Rightarrow> f_name f | None \<Rightarrow> []),
      sc_toPath = (case to of Some f \<Rightarrow> f_name f | None \<Rightarrow> []),
      sc_mode = (case to of Some f \<Rightarrow> f_mode f
                 | None \<Rightarrow> (case from of Some f \<Rightarrow> f_mode f | None \<Rightarrow> 0)),
      sc_deleted = (to = None), sc_added = (from = None)\<rparr>"

fun buildSideChanges :: "(string \<rightharpoonup> sideChange) \<Rightarrow> change list \<Rightarrow> (string \<rightharpoonup> sideChange) option" where
  "buildSideChanges out [] = Some out"
| "buildSideChanges out (ch # chs) =
     (case ch of
        None \<Rightarrow> None
      | Some (from, to) \<Rightarrow>
          let sc = sideChangeOf from to in buildSideChanges (out(effectivePath sc \<mapsto> sc)) chs)"

subsection \<open>Blobs and the content merge\<close>

definition blobContent :: "merge_env \<Rightarrow> blobs \<Rightarrow> string \<Rightarrow> string option" where
  "blobContent env bl h =
     (if h = zeroHash then Some [] else if me_read_err env h then None else bl h)"

definition writeBlob :: "merge_env \<Rightarrow> blobs \<Rightarrow> string \<Rightarrow> (blobs \<times> string) option" where
  "writeBlob env bl content =
     (if me_write_err env content then None
      else Some (bl(me_blob_name env content \<mapsto> content), me_blob_name env content))"

definition interpretMergeFileExit :: "int \<Rightarrow> int" where
  "interpretMergeFileExit code = (if code = 0 then 0 else code)"

definition mergeFileContent :: "merge_env \<Rightarrow> string \<Rightarrow> string \<Rightarrow> string \<Rightarrow> (string \<times> int) option" where
  "mergeFileContent env base ours theirs =
     (case me_merge_file env base ours theirs of
        None \<Rightarrow> None
      | Some (merged, code) \<Rightarrow> Some (merged, interpretMergeFileExit code))"

text \<open>The base content is read through the entry the path still has; an absent entry is the zero hash.\<close>

definition entry_hash :: "treeEntry option \<Rightarrow> string" where
  "entry_hash e = (case e of None \<Rightarrow> zeroHash | Some te \<Rightarrow> te_hash te)"

definition runThreeWayMerge ::
  "merge_env \<Rightarrow> mergeState \<Rightarrow> string \<Rightarrow> sideChange \<Rightarrow> sideChange \<Rightarrow> mergeState option" where
  "runThreeWayMerge env st path ourCh theirCh =
     (case blobContent env (ms_blobs st) (entry_hash (ms_entries st path)) of
        None \<Rightarrow> None
      | Some baseContent \<Rightarrow>
     (case blobContent env (ms_blobs st) (sc_toHash ourCh) of
        None \<Rightarrow> None
      | Some oursContent \<Rightarrow>
     (case blobContent env (ms_blobs st) (sc_toHash theirCh) of
        None \<Rightarrow> None
      | Some theirsContent \<Rightarrow>
     (case mergeFileContent env baseContent oursContent theirsContent of
        None \<Rightarrow> None
      | Some (merged, numConflicts) \<Rightarrow>
          (case writeBlob env (ms_blobs st) merged of
             None \<Rightarrow> None
           | Some (bl, newHash) \<Rightarrow>
               let st' = st\<lparr>ms_blobs := bl,
                           ms_entries := (ms_entries st)(path \<mapsto> \<lparr>te_hash = newHash, te_mode = sc_mode ourCh\<rparr>)\<rparr> in
               if numConflicts = 0 then Some st'
               else Some (st'\<lparr>ms_conflicted := ms_conflicted st @
                 [\<lparr>cd_path = path, cd_base = baseContent, cd_ours = oursContent,
                   cd_theirs = theirsContent, cd_mode = sc_mode ourCh,
                   cd_ranges = ParseConflictRanges merged\<rparr>]\<rparr>))))))"

definition mergeBothModifiedPath ::
  "merge_env \<Rightarrow> mergeState \<Rightarrow> string \<Rightarrow> sideChange \<Rightarrow> sideChange \<Rightarrow> mergeState option" where
  "mergeBothModifiedPath env st path ourCh theirCh =
     (if sc_deleted ourCh \<and> sc_deleted theirCh then
        Some (st\<lparr>ms_entries := (ms_entries st)(path := None)\<rparr>)
      else if sc_deleted ourCh \<or> sc_deleted theirCh then
        Some (st\<lparr>ms_hard := ms_hard st @ [\<lparr>cf_file = path, cf_ranges = []\<rparr>]\<rparr>)
      else if sc_toHash ourCh = sc_toHash theirCh then
        Some (st\<lparr>ms_entries := (ms_entries st)(path \<mapsto> \<lparr>te_hash = sc_toHash ourCh, te_mode = sc_mode ourCh\<rparr>)\<rparr>)
      else runThreeWayMerge env st path ourCh theirCh)"

definition takeSide :: "mergeState \<Rightarrow> string \<Rightarrow> sideChange \<Rightarrow> mergeState" where
  "takeSide st path ch =
     (if sc_deleted ch then st\<lparr>ms_entries := (ms_entries st)(path := None)\<rparr>
      else st\<lparr>ms_entries := (ms_entries st)(path \<mapsto> \<lparr>te_hash = sc_toHash ch, te_mode = sc_mode ch\<rparr>)\<rparr>)"

definition applyPath :: "merge_env \<Rightarrow> mergeDiff \<Rightarrow> string \<Rightarrow> mergeState \<Rightarrow> mergeState option" where
  "applyPath env diff path st =
     (case (md_ours diff path, md_theirs diff path) of
        (None, Some theirCh) \<Rightarrow> Some (takeSide st path theirCh)
      | (Some ourCh, None) \<Rightarrow> Some (takeSide st path ourCh)
      | (Some ourCh, Some theirCh) \<Rightarrow> mergeBothModifiedPath env st path ourCh theirCh
      | (None, None) \<Rightarrow> Some st)"

fun applyPaths :: "merge_env \<Rightarrow> mergeDiff \<Rightarrow> string list \<Rightarrow> mergeState \<Rightarrow> mergeState option" where
  "applyPaths env diff [] st = Some st"
| "applyPaths env diff (p # ps) st =
     (case applyPath env diff p st of None \<Rightarrow> None | Some st' \<Rightarrow> applyPaths env diff ps st')"

definition applyChangesPerPath :: "merge_env \<Rightarrow> string list \<Rightarrow> blobs \<Rightarrow> mergeDiff \<Rightarrow> mergeState option" where
  "applyChangesPerPath env order bl diff =
     applyPaths env diff order
       \<lparr>ms_entries = md_merged diff, ms_hard = [], ms_conflicted = [], ms_blobs = bl\<rparr>"

subsection \<open>Trees\<close>

fun flattenTreeInto :: "string \<Rightarrow> gtree \<Rightarrow> entries \<Rightarrow> entries option"
  and flattenEntries :: "string \<Rightarrow> (string \<times> gentry) list \<Rightarrow> entries \<Rightarrow> entries option" where
  "flattenTreeInto pre (GTree es) out = flattenEntries pre es out"
| "flattenEntries pre [] out = Some out"
| "flattenEntries pre ((name, e) # es) out =
     (let fullPath = (if pre \<noteq> [] then pre @ ''/'' @ name else name) in
      case e of
        GBlob te \<Rightarrow> flattenEntries pre es (out(fullPath \<mapsto> te))
      | GDir sub \<Rightarrow>
          (case flattenTreeInto fullPath sub out of
             None \<Rightarrow> None
           | Some out' \<Rightarrow> flattenEntries pre es out')
      | GUnread \<Rightarrow> None)"

definition flattenTree :: "gtree \<Rightarrow> entries option" where
  "flattenTree root = flattenTreeInto [] root Map.empty"

text \<open>\<^verbatim>\<open>filepath.Dir\<close> and \<^verbatim>\<open>filepath.Base\<close> on the clean relative paths of a tree; the root is the empty path.\<close>

definition dirOf :: "string \<Rightarrow> string" where
  "dirOf p = rev (tl (dropWhile (\<lambda>c. c \<noteq> CHR ''/'') (rev p)))"

definition baseOf :: "string \<Rightarrow> string" where
  "baseOf p = rev (takeWhile (\<lambda>c. c \<noteq> CHR ''/'') (rev p))"

definition parentDirs :: "string \<Rightarrow> string list" where
  "parentDirs path =
     (let parts = Split (CHR ''/'') path in map (\<lambda>i. Join (take i parts) ''/'') [1..<length parts])"

definition slashes :: "string \<Rightarrow> nat" where
  "slashes d = length (filter (\<lambda>c. c = CHR ''/'') d)"

text \<open>Deeper directories first; at one depth in descending order, so that the root comes last.\<close>

definition sortedDirs :: "string list \<Rightarrow> string list" where
  "sortedDirs paths = rev (sort_key (\<lambda>d. (slashes d, d)) (remdups ([] # concat (map parentDirs paths))))"

type_synonym children = "string \<Rightarrow> (string \<times> gentry) list"

definition addChild :: "string \<Rightarrow> string \<times> gentry \<Rightarrow> children \<Rightarrow> children" where
  "addChild dir ch m = m(dir := m dir @ [ch])"

definition seedChildren :: "entries \<Rightarrow> string list \<Rightarrow> children" where
  "seedChildren es paths =
     fold (\<lambda>p. addChild (dirOf p) (baseOf p, GBlob (the (es p)))) paths (\<lambda>_. [])"

fun buildDirs :: "merge_env \<Rightarrow> string list \<Rightarrow> children \<Rightarrow> (string \<rightharpoonup> gtree) \<Rightarrow> (string \<rightharpoonup> gtree) option" where
  "buildDirs env [] ch built = Some built"
| "buildDirs env (dir # dirs) ch built =
     (let t = GTree (sort_key fst (ch dir)) in
      case me_tree_name env t of
        None \<Rightarrow> None
      | Some _ \<Rightarrow>
          buildDirs env dirs
            (if dir \<noteq> [] then addChild (dirOf dir) (baseOf dir, GDir t) ch else ch)
            (built(dir \<mapsto> t)))"

definition buildTree :: "merge_env \<Rightarrow> string list \<Rightarrow> entries \<Rightarrow> gtree option" where
  "buildTree env paths es =
     (case buildDirs env (sortedDirs paths) (seedChildren es paths) Map.empty of
        None \<Rightarrow> None
      | Some built \<Rightarrow> built [])"

subsection \<open>Auto-resolution and the merge\<close>

datatype resolve_outcome = Resolved MergeResult | NotResolved | ResolveFailed

fun resolveLoop ::
  "merge_env \<Rightarrow> conflictedFile list \<Rightarrow> (nat option \<times> string \<times> bool) \<Rightarrow> mergeState
    \<Rightarrow> (nat option \<times> string \<times> bool) option \<times> mergeState" where
  "resolveLoop env [] acc st = (Some acc, st)"
| "resolveLoop env (cf # cfs) (worst, label, allOk) st =
     (case tryAutoResolve (me_diff env) (cd_base cf) (cd_ours cf) (cd_theirs cf) of
        None \<Rightarrow>
          resolveLoop env cfs (worst, label, False)
            (st\<lparr>ms_hard := ms_hard st @ [\<lparr>cf_file = cd_path cf, cf_ranges = cd_ranges cf\<rparr>]\<rparr>)
      | Some (resolved, heuristic) \<Rightarrow>
          let p = heuristicPriority heuristic;
              worse = (case worst of None \<Rightarrow> True | Some w \<Rightarrow> p > w) in
          (case writeBlob env (ms_blobs st) resolved of
             None \<Rightarrow> (None, st)
           | Some (bl, newHash) \<Rightarrow>
               resolveLoop env cfs (if worse then (Some p, heuristic, allOk) else (worst, label, allOk))
                 (st\<lparr>ms_blobs := bl,
                     ms_entries := (ms_entries st)(cd_path cf \<mapsto> \<lparr>te_hash = newHash, te_mode = cd_mode cf\<rparr>)\<rparr>)))"

text \<open>
  The tree is built over the paths of the merged entries, in an order the environment chooses:
  \<open>listing\<close> lists the keys of a map.
\<close>

definition resolveConflicts ::
  "merge_env \<Rightarrow> (entries \<Rightarrow> string list) \<Rightarrow> mergeState \<Rightarrow> resolve_outcome \<times> mergeState" where
  "resolveConflicts env listing st =
     (case resolveLoop env (ms_conflicted st) (None, [], True) st of
        (None, st') \<Rightarrow> (ResolveFailed, st')
      | (Some (_, label, allOk), st') \<Rightarrow>
          if \<not> allOk then (NotResolved, st')
          else case buildTree env (listing (ms_entries st')) (ms_entries st') of
                 None \<Rightarrow> (ResolveFailed, st')
               | Some t \<Rightarrow>
                   (Resolved \<lparr>mr_kind = SafeAutoResolve, mr_tree = the (me_tree_name env t),
                      mr_heuristic = label, mr_conflicts = []\<rparr>, st'))"

text \<open>\<^const>\<open>None\<close>: no short circuit; \<open>Some None\<close>: the error of reading a tree.\<close>

definition tryShortCircuit ::
  "merge_env \<Rightarrow> Commit \<Rightarrow> Commit \<Rightarrow> Commit \<Rightarrow> MergeResult option option" where
  "tryShortCircuit env source draftTip ancestor =
     (let ff = (\<lambda>c. case me_tree env c of
                      None \<Rightarrow> None
                    | Some t \<Rightarrow> Some \<lparr>mr_kind = CleanMerge, mr_tree = the (me_tree_name env t),
                                       mr_heuristic = [], mr_conflicts = []\<rparr>) in
      if c_hash source = c_hash ancestor then Some (ff draftTip)
      else if c_hash draftTip = c_hash ancestor then Some (ff source)
      else None)"

definition computeMergeDiff :: "merge_env \<Rightarrow> Commit \<Rightarrow> Commit \<Rightarrow> Commit \<Rightarrow> mergeDiff option" where
  "computeMergeDiff env ancestor draftTip source =
     (case (me_tree env ancestor, me_tree env draftTip, me_tree env source) of
        (Some baseTree, Some oursTree, Some theirsTree) \<Rightarrow>
          (case (me_diff_tree env baseTree oursTree, me_diff_tree env baseTree theirsTree) of
             (Some baseToOurs, Some baseToTheirs) \<Rightarrow>
               (case (buildSideChanges Map.empty baseToOurs, buildSideChanges Map.empty baseToTheirs,
                      flattenTree baseTree) of
                  (Some ours, Some theirs, Some base) \<Rightarrow>
                    Some \<lparr>md_ours = ours, md_theirs = theirs, md_merged = base\<rparr>
                | _ \<Rightarrow> None)
           | _ \<Rightarrow> None)
      | _ \<Rightarrow> None)"

definition Merge ::
  "merge_env \<Rightarrow> (mergeDiff \<Rightarrow> string list) \<Rightarrow> (entries \<Rightarrow> string list) \<Rightarrow> blobs
    \<Rightarrow> Commit \<Rightarrow> Commit \<Rightarrow> Commit \<Rightarrow> MergeResult option" where
  "Merge env order listing bl source draftTip ancestor =
     (case tryShortCircuit env source draftTip ancestor of
        Some r \<Rightarrow> r
      | None \<Rightarrow>
     (case computeMergeDiff env ancestor draftTip source of
        None \<Rightarrow> None
      | Some diff \<Rightarrow>
     (case applyChangesPerPath env (order diff) bl diff of
        None \<Rightarrow> None
      | Some state \<Rightarrow>
          let (early, state') =
            (if ms_conflicted state \<noteq> [] \<and> ms_hard state = [] then
               (case resolveConflicts env listing state of
                  (Resolved r, st') \<Rightarrow> (Some r, st')
                | (_, st') \<Rightarrow> (None, st'))
             else if ms_conflicted state \<noteq> [] then
               (None, state\<lparr>ms_hard := ms_hard state @
                  map (\<lambda>cf. \<lparr>cf_file = cd_path cf, cf_ranges = cd_ranges cf\<rparr>) (ms_conflicted state)\<rparr>)
             else (None, state)) in
          (case early of
             Some r \<Rightarrow> Some r
           | None \<Rightarrow>
               if ms_hard state' \<noteq> [] then
                 Some \<lparr>mr_kind = HardConflict, mr_tree = [], mr_heuristic = [], mr_conflicts = ms_hard state'\<rparr>
               else
                 (case buildTree env (listing (ms_entries state')) (ms_entries state') of
                    None \<Rightarrow> None
                  | Some t \<Rightarrow> Some \<lparr>mr_kind = CleanMerge, mr_tree = the (me_tree_name env t),
                                     mr_heuristic = [], mr_conflicts = []\<rparr>)))))"

end
