(* ===== verification/TreeLemmas.thy ===== *)
theory TreeLemmas
  imports MergeEngine
begin

text \<open>
  Lemmas on the tree construction of the merge engine: a clean path is the list of its components,
  directories are visited children first, and flattening a built tree gives back the entries it
  was built from.
\<close>

subsection \<open>Paths as lists of components\<close>

definition cleanName :: "string \<Rightarrow> bool" where
  "cleanName n \<longleftrightarrow> n \<noteq> [] \<and> CHR ''/'' \<notin> set n"

definition pathOf :: "string list \<Rightarrow> string" where
  "pathOf cs = Join cs ''/''"

definition cleanPath :: "string \<Rightarrow> bool" where
  "cleanPath p \<longleftrightarrow> p \<noteq> [] \<and> list_all cleanName (Split (CHR ''/'') p)"

lemma pathOf_Nil [simp]: "pathOf [] = []"
  by (simp add: pathOf_def)

lemma pathOf_single [simp]: "pathOf [c] = c"
  by (simp add: pathOf_def)

lemma pathOf_snoc: "cs \<noteq> [] \<Longrightarrow> pathOf (cs @ [c]) = pathOf cs @ ''/'' @ c"
  unfolding pathOf_def by (induction cs rule: induct_list012) auto

lemma pathOf_Nil_iff: "list_all cleanName cs \<Longrightarrow> pathOf cs = [] \<longleftrightarrow> cs = []"
  unfolding pathOf_def by (induction cs rule: induct_list012) (auto simp: cleanName_def)

lemma Split_pathOf: "list_all cleanName cs \<Longrightarrow> cs \<noteq> [] \<Longrightarrow> Split (CHR ''/'') (pathOf cs) = cs"
  unfolding pathOf_def by (rule Split_Join) (auto simp: list_all_iff cleanName_def)

lemma pathOf_inj:
  assumes "list_all cleanName cs" "list_all cleanName ds" "pathOf cs = pathOf ds"
  shows "cs = ds"
proof (cases "cs = []")
  case True
  with assms pathOf_Nil_iff[of ds] show ?thesis by simp
next
  case False
  with assms pathOf_Nil_iff[of ds] pathOf_Nil_iff[of cs] have "ds \<noteq> []" by auto
  from Split_pathOf[OF assms(1) False] Split_pathOf[OF assms(2) this] show ?thesis
    unfolding assms(3) by (rule trans[OF sym])
qed

lemma cleanPath_iff: "cleanPath p \<longleftrightarrow> (\<exists>cs. cs \<noteq> [] \<and> list_all cleanName cs \<and> p = pathOf cs)"
proof
  assume "cleanPath p"
  then show "\<exists>cs. cs \<noteq> [] \<and> list_all cleanName cs \<and> p = pathOf cs"
    by (intro exI[of _ "Split (CHR ''/'') p"]) (auto simp: cleanPath_def pathOf_def Join_Split)
next
  assume "\<exists>cs. cs \<noteq> [] \<and> list_all cleanName cs \<and> p = pathOf cs"
  then show "cleanPath p" using Split_pathOf pathOf_Nil_iff by (auto simp: cleanPath_def)
qed

lemma dirOf_snoc: "cleanName c \<Longrightarrow> dirOf (pathOf (cs @ [c])) = pathOf cs"
proof (cases "cs = []")
  case True
  assume "cleanName c"
  then have "dropWhile (\<lambda>c. c \<noteq> CHR ''/'') (rev c) = []" by (auto simp: cleanName_def)
  with True show ?thesis by (simp add: dirOf_def del: dropWhile_eq_Nil_conv)
next
  case False
  assume "cleanName c"
  then have "dropWhile (\<lambda>c. c \<noteq> CHR ''/'') (rev c @ CHR ''/'' # rev (pathOf cs)) = CHR ''/'' # rev (pathOf cs)"
    by (intro dropWhile_neq_append) (auto simp: cleanName_def)
  with False show ?thesis by (simp add: dirOf_def pathOf_snoc)
qed

lemma baseOf_snoc: "cleanName c \<Longrightarrow> baseOf (pathOf (cs @ [c])) = c"
proof (cases "cs = []")
  case True
  assume "cleanName c"
  then show ?thesis using True by (auto simp: baseOf_def cleanName_def)
next
  case False
  assume "cleanName c"
  then have "takeWhile (\<lambda>c. c \<noteq> CHR ''/'') (rev c @ CHR ''/'' # rev (pathOf cs)) = rev c"
    by (intro takeWhile_neq_append) (auto simp: cleanName_def)
  with False show ?thesis by (simp add: baseOf_def pathOf_snoc)
qed

lemma fullPath_pathOf:
  "list_all cleanName cs \<Longrightarrow>
   (if pathOf cs \<noteq> [] then pathOf cs @ ''/'' @ n else n) = pathOf (cs @ [n])"
  using pathOf_Nil_iff[of cs] by (auto simp: pathOf_snoc)

lemma slashes_pathOf: "list_all cleanName cs \<Longrightarrow> slashes (pathOf cs) = length cs - 1"
proof (induction cs rule: rev_induct)
  case (snoc c cs)
  have "slashes c = 0" using snoc.prems by (auto simp: slashes_def cleanName_def filter_empty_conv)
  with snoc show ?case by (cases "cs = []") (auto simp: pathOf_snoc slashes_def Suc_leI)
qed (simp add: slashes_def)

lemma parentDirs_pathOf:
  assumes "list_all cleanName cs" and "cs \<noteq> []"
  shows "set (parentDirs (pathOf cs)) = {pathOf (take i cs) |i. 1 \<le> i \<and> i < length cs}"
  using Split_pathOf[OF assms] by (auto simp: parentDirs_def Let_def pathOf_def)

subsection \<open>The order of the directories\<close>

definition dirComps :: "string set \<Rightarrow> string list set" where
  "dirComps P = {cs. list_all cleanName cs \<and> (cs = [] \<or> (\<exists>c ds. list_all cleanName (c # ds) \<and> pathOf (cs @ c # ds) \<in> P))}"

lemma in_parentDirs_iff:
  assumes "list_all cleanName ps" and "ps \<noteq> []"
  shows "d \<in> set (parentDirs (pathOf ps)) \<longleftrightarrow> (\<exists>cs c ds. cs \<noteq> [] \<and> ps = cs @ c # ds \<and> d = pathOf cs)"
proof
  assume "d \<in> set (parentDirs (pathOf ps))"
  then obtain i where i: "1 \<le> i" "i < length ps" "d = pathOf (take i ps)"
    by (auto simp: parentDirs_pathOf[OF assms])
  then have "ps = take i ps @ ps ! i # drop (Suc i) ps" by (simp add: id_take_nth_drop)
  moreover have "take i ps \<noteq> []" using i by auto
  ultimately show "\<exists>cs c ds. cs \<noteq> [] \<and> ps = cs @ c # ds \<and> d = pathOf cs" using i(3) by blast
next
  assume "\<exists>cs c ds. cs \<noteq> [] \<and> ps = cs @ c # ds \<and> d = pathOf cs"
  then obtain cs c ds where "cs \<noteq> []" "ps = cs @ c # ds" "d = pathOf cs" by blast
  then show "d \<in> set (parentDirs (pathOf ps))"
    unfolding parentDirs_pathOf[OF assms]
    by (auto intro!: exI[of _ "length cs"] simp: Suc_le_eq)
qed

lemma set_sortedDirs:
  assumes "\<forall>p \<in> set paths. cleanPath p"
  shows "set (sortedDirs paths) = pathOf ` dirComps (set paths)"
proof -
  have sd: "set (sortedDirs paths) = insert [] (\<Union>p \<in> set paths. set (parentDirs p))"
    by (simp add: sortedDirs_def insert_absorb)
  show ?thesis
  proof (intro equalityI subsetI)
    fix d assume "d \<in> set (sortedDirs paths)"
    then consider "d = []" | p where "p \<in> set paths" "d \<in> set (parentDirs p)" using sd by auto
    then show "d \<in> pathOf ` dirComps (set paths)"
    proof cases
      case 1
      then show ?thesis by (intro image_eqI[of _ _ "[]"]) (auto simp: dirComps_def)
    next
      case 2
      from assms 2(1) obtain ps where ps: "ps \<noteq> []" "list_all cleanName ps" "p = pathOf ps"
        by (auto simp: cleanPath_iff)
      from 2(2) ps obtain cs c ds where cs: "ps = cs @ c # ds" "d = pathOf cs"
        using in_parentDirs_iff[OF ps(2,1)] by auto
      with ps 2(1) have "cs \<in> dirComps (set paths)"
        by (auto simp: dirComps_def intro!: exI[of _ c] exI[of _ ds])
      with cs(2) show ?thesis by blast
    qed
  next
    fix d assume "d \<in> pathOf ` dirComps (set paths)"
    then obtain cs where cs: "d = pathOf cs" "cs \<in> dirComps (set paths)" by auto
    show "d \<in> set (sortedDirs paths)"
    proof (cases "cs = []")
      case False
      with cs obtain c ds where c: "list_all cleanName cs" "list_all cleanName (c # ds)"
        "pathOf (cs @ c # ds) \<in> set paths" by (auto simp: dirComps_def)
      have "d \<in> set (parentDirs (pathOf (cs @ c # ds)))"
        using in_parentDirs_iff[of "cs @ c # ds" d] c False cs(1) by auto
      with sd c(3) show ?thesis by auto
    qed (simp add: cs sd)
  qed
qed

lemma sorted_strict:
  assumes "sorted (map k xs)" and "distinct xs" and "inj k"
  shows "sorted_wrt (\<lambda>a b. k a < k b) xs"
  using assms
proof (induction xs)
  case (Cons x xs)
  have "k x < k y" if "y \<in> set xs" for y
  proof -
    have "k x \<le> k y" using Cons.prems(1) that by simp
    moreover have "k x \<noteq> k y" using Cons.prems(2,3) that by (auto dest: injD)
    ultimately show ?thesis by simp
  qed
  with Cons show ?case by simp
qed simp

lemma sortedDirs_desc:
  "sorted_wrt (\<lambda>a b. (slashes b, b) < (slashes a, a)) (sortedDirs paths)"
proof -
  have "sorted_wrt (\<lambda>a b. (slashes a, a) < (slashes b, b))
     (sort_key (\<lambda>d. (slashes d, d)) (remdups ([] # concat (map parentDirs paths))))"
    (is "sorted_wrt _ ?xs")
  proof (rule sorted_strict)
    show "sorted (map (\<lambda>d. (slashes d, d)) ?xs)" by (rule sorted_sort_key)
    show "distinct ?xs" unfolding distinct_sort by (rule distinct_remdups)
    show "inj (\<lambda>d. (slashes d, d))" by (rule injI) simp
  qed
  then show ?thesis unfolding sortedDirs_def sorted_wrt_rev .
qed

subsection \<open>Flattening\<close>

definition under :: "string list \<Rightarrow> string set" where
  "under cs = {pathOf (cs @ c # ds) |c ds. list_all cleanName (c # ds)}"

definition goodTree :: "entries \<Rightarrow> string list \<Rightarrow> gtree \<Rightarrow> bool" where
  "goodTree es cs t \<longleftrightarrow> (\<forall>out. flattenTreeInto (pathOf cs) t out = Some (out ++ (es |` under cs)))"

fun covers :: "string list \<Rightarrow> string \<times> gentry \<Rightarrow> string set" where
  "covers cs (n, GBlob te) = {pathOf (cs @ [n])}"
| "covers cs (n, GDir t) = under (cs @ [n])"
| "covers cs (n, GUnread) = {}"

fun okChild :: "entries \<Rightarrow> string list \<Rightarrow> string \<times> gentry \<Rightarrow> bool" where
  "okChild es cs (n, GBlob te) = (es (pathOf (cs @ [n])) = Some te)"
| "okChild es cs (n, GDir t) = goodTree es (cs @ [n]) t"
| "okChild es cs (n, GUnread) = False"

lemma restrict_add_restrict: "(out ++ (es |` A)) ++ (es |` B) = out ++ (es |` (A \<union> B))"
  by (auto simp: fun_eq_iff map_add_def restrict_map_def split: option.splits)

lemma flattenEntries_ok:
  assumes "list_all cleanName cs" and "\<forall>x \<in> set l. okChild es cs x"
  shows "flattenEntries (pathOf cs) l out = Some (out ++ (es |` (\<Union>x \<in> set l. covers cs x)))"
  using assms(2)
proof (induction l arbitrary: out)
  case (Cons x l)
  obtain n e where x: "x = (n, e)" by fastforce
  have full: "(if pathOf cs \<noteq> [] then pathOf cs @ ''/'' @ n else n) = pathOf (cs @ [n])"
    by (rule fullPath_pathOf[OF assms(1)])
  show ?case
  proof (cases e)
    case (GBlob te)
    with Cons.prems x have "out(pathOf (cs @ [n]) \<mapsto> te) = out ++ (es |` {pathOf (cs @ [n])})"
      by (auto simp: fun_eq_iff map_add_def restrict_map_def)
    then show ?thesis using Cons
      by (simp add: x GBlob full Let_def restrict_add_restrict del: fun_upd_apply)
  next
    case (GDir t)
    with Cons.prems x have "flattenTreeInto (pathOf (cs @ [n])) t out = Some (out ++ (es |` under (cs @ [n])))"
      by (simp add: goodTree_def)
    then show ?thesis using Cons by (simp add: x GDir full Let_def restrict_add_restrict)
  qed (use Cons.prems x in simp)
qed simp

lemma under_mono: "cleanName n \<Longrightarrow> under (cs @ [n]) \<subseteq> under cs"
proof
  fix p assume n: "cleanName n" and "p \<in> under (cs @ [n])"
  then obtain c ds where "list_all cleanName (c # ds)" "p = pathOf (cs @ n # c # ds)"
    by (auto simp: under_def)
  with n show "p \<in> under cs" unfolding under_def
    by (intro CollectI exI[of _ n] exI[of _ "c # ds"]) simp
qed

subsection \<open>The construction\<close>

text \<open>The children of a directory once the sub-directories in \<open>done\<close> have been built.\<close>

definition childrenOf ::
  "entries \<Rightarrow> string set \<Rightarrow> (string \<rightharpoonup> gtree) \<Rightarrow> string list \<Rightarrow> (string \<times> gentry) set" where
  "childrenOf es fin built cs =
     {(n, GBlob te) |n te. cleanName n \<and> es (pathOf (cs @ [n])) = Some te} \<union>
     {(n, GDir (the (built (pathOf (cs @ [n]))))) |n. cleanName n \<and> pathOf (cs @ [n]) \<in> fin}"

lemma dirComps_clean: "cs \<in> dirComps P \<Longrightarrow> list_all cleanName cs"
  by (simp add: dirComps_def)

lemma key_child: "list_all cleanName cs \<Longrightarrow> cleanName n \<Longrightarrow>
  (slashes (pathOf cs), pathOf cs) < (slashes (pathOf (cs @ [n])), pathOf (cs @ [n]))"
proof -
  assume cs: "list_all cleanName cs" "cleanName n"
  have s: "slashes (pathOf cs) = length cs - 1" "slashes (pathOf (cs @ [n])) = length cs"
    using slashes_pathOf[of cs] slashes_pathOf[of "cs @ [n]"] cs by auto
  show ?thesis
  proof (cases cs)
    case Nil
    with cs s show ?thesis by (cases n) (auto simp: cleanName_def)
  next
    case (Cons a list)
    with s show ?thesis by auto
  qed
qed

lemma covers_union:
  assumes dom: "dom es = P" and cs: "cs \<in> dirComps P"
    and subs: "\<And>n. cleanName n \<Longrightarrow> cs @ [n] \<in> dirComps P \<Longrightarrow> pathOf (cs @ [n]) \<in> fin"
  shows "es |` (\<Union>x \<in> childrenOf es fin built cs. covers cs x) = es |` under cs"
proof (rule ext)
  fix p
  let ?U = "\<Union>x \<in> childrenOf es fin built cs. covers cs x"
  have sub: "?U \<subseteq> under cs"
  proof
    fix q assume "q \<in> ?U"
    then obtain x where x: "x \<in> childrenOf es fin built cs" "q \<in> covers cs x" by blast
    then consider n te where "x = (n, GBlob te)" "cleanName n" | n t where "x = (n, GDir t)" "cleanName n"
      by (auto simp: childrenOf_def)
    then show "q \<in> under cs"
    proof cases
      case 1
      with x(2) show ?thesis unfolding under_def
        by (intro CollectI exI[of _ n] exI[of _ "[]"]) simp
    next
      case 2
      with x(2) under_mono show ?thesis by auto
    qed
  qed
  have "p \<in> ?U" if p: "p \<in> under cs" "es p \<noteq> None"
  proof -
    from p(1) obtain c ds where c: "list_all cleanName (c # ds)" "p = pathOf (cs @ c # ds)"
      by (auto simp: under_def)
    show ?thesis
    proof (cases ds)
      case Nil
      with c p(2) have "(c, GBlob (the (es p))) \<in> childrenOf es fin built cs"
        by (auto simp: childrenOf_def)
      with Nil c show ?thesis by force
    next
      case (Cons d ds')
      with c p(2) dom cs have "cs @ [c] \<in> dirComps P"
        by (auto simp: dirComps_def intro!: exI[of _ d] exI[of _ ds'])
      with subs c have "pathOf (cs @ [c]) \<in> fin" by auto
      with c have ch: "(c, GDir (the (built (pathOf (cs @ [c]))))) \<in> childrenOf es fin built cs"
        by (auto simp: childrenOf_def)
      have "p \<in> under (cs @ [c])" unfolding under_def using c Cons
        by (intro CollectI exI[of _ d] exI[of _ ds']) simp
      with ch show ?thesis by force
    qed
  qed
  with sub show "(es |` ?U) p = (es |` under cs) p"
    by (cases "es p") (auto simp: restrict_map_def)
qed

definition built_ok :: "entries \<Rightarrow> string set \<Rightarrow> (string \<rightharpoonup> gtree) \<Rightarrow> string set \<Rightarrow> bool" where
  "built_ok es P built fin \<longleftrightarrow>
     (\<forall>cs \<in> dirComps P. pathOf cs \<in> fin \<longrightarrow> (\<exists>t. built (pathOf cs) = Some t \<and> goodTree es cs t))"

definition children_ok ::
  "entries \<Rightarrow> string set \<Rightarrow> children \<Rightarrow> (string \<rightharpoonup> gtree) \<Rightarrow> string set \<Rightarrow> bool" where
  "children_ok es P ch built fin \<longleftrightarrow>
     (\<forall>cs \<in> dirComps P. set (ch (pathOf cs)) = childrenOf es fin built cs)"

lemma built_dir_good:
  assumes dom: "dom es = P" and cs: "cs \<in> dirComps P"
    and subs: "\<And>n. cleanName n \<Longrightarrow> cs @ [n] \<in> dirComps P \<Longrightarrow> pathOf (cs @ [n]) \<in> fin"
    and fin: "fin \<subseteq> pathOf ` dirComps P"
    and ok: "built_ok es P built fin" "children_ok es P ch built fin"
  shows "goodTree es cs (GTree (sort_key fst (ch (pathOf cs))))"
proof -
  have clean: "list_all cleanName cs" using cs by (rule dirComps_clean)
  have set: "set (sort_key fst (ch (pathOf cs))) = childrenOf es fin built cs"
    using ok(2) cs by (simp add: children_ok_def)
  have "okChild es cs x" if "x \<in> childrenOf es fin built cs" for x
  proof -
    from that consider n te where "x = (n, GBlob te)" "es (pathOf (cs @ [n])) = Some te"
      | n where "x = (n, GDir (the (built (pathOf (cs @ [n])))))" "cleanName n" "pathOf (cs @ [n]) \<in> fin"
      by (auto simp: childrenOf_def)
    then show ?thesis
    proof cases
      case 2
      from fin 2(3) obtain ds where ds: "ds \<in> dirComps P" "pathOf (cs @ [n]) = pathOf ds" by blast
      have "cs @ [n] = ds" using clean 2(2) dirComps_clean[OF ds(1)] ds(2) by (intro pathOf_inj) auto
      with ds ok(1) 2 show ?thesis by (auto simp: built_ok_def)
    qed simp
  qed
  then have "flattenEntries (pathOf cs) (sort_key fst (ch (pathOf cs))) out =
      Some (out ++ (es |` (\<Union>x \<in> childrenOf es fin built cs. covers cs x)))" for out
    using flattenEntries_ok[OF clean, of "sort_key fst (ch (pathOf cs))" es out] set by simp
  then show ?thesis
    unfolding goodTree_def using covers_union[OF dom cs subs] by simp
qed

lemma children_step:
  assumes ok: "children_ok es P ch built fin" and cs: "cs \<in> dirComps P" and new: "pathOf cs \<notin> fin"
  shows "children_ok es P
    (if pathOf cs \<noteq> [] then addChild (dirOf (pathOf cs)) (baseOf (pathOf cs), GDir t) ch else ch)
    (built(pathOf cs \<mapsto> t)) (insert (pathOf cs) fin)"
  unfolding children_ok_def
proof
  fix ds assume ds: "ds \<in> dirComps P"
  have cl: "list_all cleanName cs" "list_all cleanName ds" using cs ds dirComps_clean by auto
  have old: "set (ch (pathOf ds)) = childrenOf es fin built ds" using ok ds by (simp add: children_ok_def)
  have upd: "(built(pathOf cs \<mapsto> t)) (pathOf (ds @ [n])) = built (pathOf (ds @ [n]))"
    if "pathOf (ds @ [n]) \<in> fin" for n using that new by auto
  have eq_iff: "pathOf (ds @ [n]) = pathOf cs \<longleftrightarrow> ds @ [n] = cs" if "cleanName n" for n
    using pathOf_inj[of "ds @ [n]" cs] cl that by auto
  show "set ((if pathOf cs \<noteq> [] then addChild (dirOf (pathOf cs)) (baseOf (pathOf cs), GDir t) ch else ch) (pathOf ds)) =
    childrenOf es (insert (pathOf cs) fin) (built(pathOf cs \<mapsto> t)) ds"
  proof (cases cs rule: rev_cases)
    case Nil
    then have "childrenOf es (insert (pathOf cs) fin) (built(pathOf cs \<mapsto> t)) ds = childrenOf es fin built ds"
      using eq_iff upd by (auto simp: childrenOf_def)
    with old Nil show ?thesis by simp
  next
    case (snoc cs0 c)
    with cl have c: "cleanName c" "list_all cleanName cs0" by auto
    have ne: "pathOf cs \<noteq> []" using cl(1) snoc pathOf_Nil_iff by auto
    have d: "dirOf (pathOf cs) = pathOf cs0" "baseOf (pathOf cs) = c"
      using snoc c dirOf_snoc baseOf_snoc by auto
    have iff: "pathOf ds = pathOf cs0 \<longleftrightarrow> ds = cs0" using pathOf_inj cl(2) c(2) by auto
    have "childrenOf es (insert (pathOf cs) fin) (built(pathOf cs \<mapsto> t)) ds =
      childrenOf es fin built ds \<union> (if ds = cs0 then {(c, GDir t)} else {})"
    proof -
      define F where "F n = (n, GDir (the ((built(pathOf cs \<mapsto> t)) (pathOf (ds @ [n])))))" for n
      define G where "G n = (n, GDir (the (built (pathOf (ds @ [n])))))" for n
      let ?N = "{n. cleanName n \<and> pathOf (ds @ [n]) \<in> fin}"
      have "{n. cleanName n \<and> pathOf (ds @ [n]) \<in> insert (pathOf cs) fin} = ?N \<union> (if ds = cs0 then {c} else {})"
        using eq_iff c snoc by auto
      moreover have "F ` ?N = G ` ?N"
        by (rule image_cong) (simp_all add: F_def G_def upd del: fun_upd_apply)
      moreover have "F c = (c, GDir t)" if "ds = cs0" using that snoc by (simp add: F_def)
      ultimately have "F ` {n. cleanName n \<and> pathOf (ds @ [n]) \<in> insert (pathOf cs) fin} =
        G ` ?N \<union> (if ds = cs0 then {(c, GDir t)} else {})" by (simp add: image_Un)
      then show ?thesis unfolding childrenOf_def F_def G_def setcompr_eq_image by simp
    qed
    with old ne d iff show ?thesis by (auto simp: addChild_def)
  qed
qed

lemma buildDirs_good:
  assumes "buildDirs env dirs ch built = Some built'" and "dom es = P"
    and "sorted_wrt (\<lambda>a b. (slashes b, b) < (slashes a, a)) (fin @ dirs)"
    and "set (fin @ dirs) = pathOf ` dirComps P"
    and "built_ok es P built (set fin)" and "children_ok es P ch built (set fin)"
  shows "built_ok es P built' (pathOf ` dirComps P)"
  using assms
proof (induction dirs arbitrary: fin ch built)
  case Nil
  then show ?case by simp
next
  case (Cons dir dirs)
  from Cons.prems(4) obtain cs where cs: "cs \<in> dirComps P" "dir = pathOf cs" by auto
  define t where "t = GTree (sort_key fst (ch dir))"
  define ch' where "ch' = (if dir \<noteq> [] then addChild (dirOf dir) (baseOf dir, GDir t) ch else ch)"
  have rec: "buildDirs env dirs ch' (built(dir \<mapsto> t)) = Some built'"
    using Cons.prems(1) by (auto simp: t_def ch'_def Let_def split: option.splits)
  have new: "dir \<notin> set fin"
    using Cons.prems(3) by (fastforce simp: sorted_wrt_append)
  have subs: "pathOf (cs @ [n]) \<in> set fin" if n: "cleanName n" "cs @ [n] \<in> dirComps P" for n
  proof -
    have "(slashes dir, dir) < (slashes (pathOf (cs @ [n])), pathOf (cs @ [n]))"
      unfolding cs(2) using key_child dirComps_clean[OF cs(1)] n(1) by blast
    then have "pathOf (cs @ [n]) \<noteq> dir \<and> pathOf (cs @ [n]) \<notin> set dirs"
      using Cons.prems(3) by (auto simp: sorted_wrt_append)
    moreover have "pathOf (cs @ [n]) \<in> set (fin @ dir # dirs)" using Cons.prems(4) n(2) by blast
    ultimately show ?thesis by auto
  qed
  have good: "goodTree es cs t"
    unfolding t_def cs(2) using Cons.prems(4)
    by (intro built_dir_good[OF Cons.prems(2) cs(1) subs _ Cons.prems(5,6)]) auto
  have "built_ok es P (built(dir \<mapsto> t)) (set (fin @ [dir]))"
    unfolding built_ok_def
  proof (intro ballI impI)
    fix ds assume ds: "ds \<in> dirComps P" "pathOf ds \<in> set (fin @ [dir])"
    show "\<exists>u. (built(dir \<mapsto> t)) (pathOf ds) = Some u \<and> goodTree es ds u"
    proof (cases "pathOf ds = dir")
      case True
      then have "ds = cs" using pathOf_inj dirComps_clean ds(1) cs by metis
      with good True show ?thesis by simp
    next
      case False
      with ds Cons.prems(5) show ?thesis by (auto simp: built_ok_def)
    qed
  qed
  moreover have "children_ok es P ch' (built(dir \<mapsto> t)) (set (fin @ [dir]))"
    using children_step[OF Cons.prems(6) cs(1), of t] new unfolding ch'_def cs(2) by simp
  ultimately show ?case
    using Cons.IH[OF rec Cons.prems(2), of "fin @ [dir]"] Cons.prems(3,4)
    by (simp del: fun_upd_apply less_prod_simp)
qed

lemma seedChildren_set:
  "set (seedChildren es paths d) = {(baseOf p, GBlob (the (es p))) |p. p \<in> set paths \<and> dirOf p = d}"
proof -
  have "set (fold (\<lambda>p. addChild (dirOf p) (baseOf p, GBlob (the (es p)))) paths m d) =
    set (m d) \<union> {(baseOf p, GBlob (the (es p))) |p. p \<in> set paths \<and> dirOf p = d}" for m
    by (induction paths arbitrary: m) (auto simp: addChild_def)
  then show ?thesis by (simp add: seedChildren_def)
qed

lemma seed_ok:
  assumes "\<forall>p \<in> set paths. cleanPath p" and "dom es = set paths"
  shows "children_ok es (set paths) (seedChildren es paths) Map.empty {}"
  unfolding children_ok_def
proof
  fix cs assume cs: "cs \<in> dirComps (set paths)"
  have "(\<exists>p. x = (baseOf p, GBlob (the (es p))) \<and> p \<in> set paths \<and> dirOf p = pathOf cs) \<longleftrightarrow>
        (\<exists>n te. x = (n, GBlob te) \<and> cleanName n \<and> es (pathOf (cs @ [n])) = Some te)" for x
  proof
    assume "\<exists>p. x = (baseOf p, GBlob (the (es p))) \<and> p \<in> set paths \<and> dirOf p = pathOf cs"
    then obtain p where p: "x = (baseOf p, GBlob (the (es p)))" "p \<in> set paths" "dirOf p = pathOf cs" by blast
    then obtain ps where ps: "ps \<noteq> []" "list_all cleanName ps" "p = pathOf ps"
      using assms(1) by (auto simp: cleanPath_iff)
    then obtain ds n where n: "ps = ds @ [n]" by (cases ps rule: rev_cases) auto
    with ps p(3) have "ds = cs" using dirOf_snoc[of n ds] pathOf_inj[of ds cs] dirComps_clean[OF cs] by auto
    moreover have "es p = Some (the (es p))" using assms(2) p(2) by (metis domIff option.collapse)
    ultimately show "\<exists>n te. x = (n, GBlob te) \<and> cleanName n \<and> es (pathOf (cs @ [n])) = Some te"
      using n ps p baseOf_snoc[of n ds] by (intro exI[of _ n] exI[of _ "the (es p)"]) auto
  next
    assume "\<exists>n te. x = (n, GBlob te) \<and> cleanName n \<and> es (pathOf (cs @ [n])) = Some te"
    then obtain n te where n: "x = (n, GBlob te)" "cleanName n" "es (pathOf (cs @ [n])) = Some te" by blast
    then show "\<exists>p. x = (baseOf p, GBlob (the (es p))) \<and> p \<in> set paths \<and> dirOf p = pathOf cs"
      using assms(2) dirOf_snoc[of n cs] baseOf_snoc[of n cs]
      by (intro exI[of _ "pathOf (cs @ [n])"]) auto
  qed
  then show "set (seedChildren es paths (pathOf cs)) = childrenOf es {} Map.empty cs"
    unfolding seedChildren_set childrenOf_def by auto
qed

lemma flatten_buildTree:
  assumes "buildTree env paths es = Some t" and "\<forall>p \<in> set paths. cleanPath p" and "dom es = set paths"
  shows "flattenTree t = Some es"
proof -
  from assms(1) obtain built where b: "buildDirs env (sortedDirs paths) (seedChildren es paths) Map.empty = Some built"
    "built [] = Some t" by (auto simp: buildTree_def split: option.splits)
  have "built_ok es (set paths) built (pathOf ` dirComps (set paths))"
    using sortedDirs_desc set_sortedDirs[OF assms(2)] seed_ok[OF assms(2,3)]
    by (intro buildDirs_good[OF b(1) assms(3), of "[]"]) (auto simp: built_ok_def)
  moreover have "[] \<in> dirComps (set paths)" by (simp add: dirComps_def)
  ultimately have "goodTree es [] t" using b(2) by (force simp: built_ok_def)
  then have "flattenTree t = Some (Map.empty ++ (es |` under []))"
    by (simp add: goodTree_def flattenTree_def)
  moreover have "es |` under [] = es"
  proof (rule ext)
    fix p show "(es |` under []) p = es p"
    proof (cases "es p")
      case (Some te)
      with assms(2,3) obtain cs where "cs \<noteq> []" "list_all cleanName cs" "p = pathOf cs"
        using cleanPath_iff by blast
      then have "p \<in> under []" unfolding under_def by (cases cs) auto
      then show ?thesis by simp
    qed (simp add: restrict_map_def)
  qed
  ultimately show ?thesis by simp
qed

end
