(* ===== verification/MergeCorrect.thy ===== *)
theory MergeCorrect
  imports TreeLemmas
begin

text \<open>
  Correctness of the merge engine: what every path becomes, that the order in which paths are
  visited does not matter, that the merged tree is a three-way merge of the three trees, and the
  ways in which the engine departs from that (renames, a failed write during auto-resolution, the
  order of tree entries).
\<close>

subsection \<open>What becomes of a path\<close>

datatype path_outcome =
    Keep
  | Gone
  | Entry treeEntry
  | HardAt
  | Content string nat
  | Marked string nat string string string
  | Failed

text \<open>The outcome for a path, read off the base entry and the changes of the two sides.\<close>

definition contentOutcome :: "merge_env \<Rightarrow> blobs \<Rightarrow> treeEntry option \<Rightarrow> sideChange \<Rightarrow> sideChange \<Rightarrow> path_outcome" where
  "contentOutcome env bl base o1 t1 =
     (case (blobContent env bl (entry_hash base), blobContent env bl (sc_toHash o1),
            blobContent env bl (sc_toHash t1)) of
        (Some b, Some x, Some y) \<Rightarrow>
          (case mergeFileContent env b x y of
             None \<Rightarrow> Failed
           | Some (m, n) \<Rightarrow>
               if me_write_err env m then Failed
               else if n = 0 then Content m (sc_mode o1)
               else Marked m (sc_mode o1) b x y)
      | _ \<Rightarrow> Failed)"

fun pathOutcome ::
  "merge_env \<Rightarrow> blobs \<Rightarrow> treeEntry option \<Rightarrow> sideChange option \<Rightarrow> sideChange option \<Rightarrow> path_outcome" where
  "pathOutcome env bl base None None = Keep"
| "pathOutcome env bl base (Some c) None =
     (if sc_deleted c then Gone else Entry \<lparr>te_hash = sc_toHash c, te_mode = sc_mode c\<rparr>)"
| "pathOutcome env bl base None (Some c) =
     (if sc_deleted c then Gone else Entry \<lparr>te_hash = sc_toHash c, te_mode = sc_mode c\<rparr>)"
| "pathOutcome env bl base (Some o1) (Some t1) =
     (if sc_deleted o1 \<and> sc_deleted t1 then Gone
      else if sc_deleted o1 \<or> sc_deleted t1 then HardAt
      else if sc_toHash o1 = sc_toHash t1 then Entry \<lparr>te_hash = sc_toHash o1, te_mode = sc_mode o1\<rparr>
      else contentOutcome env bl base o1 t1)"

abbreviation outcomeAt :: "merge_env \<Rightarrow> blobs \<Rightarrow> mergeDiff \<Rightarrow> string \<Rightarrow> path_outcome" where
  "outcomeAt env bl diff p \<equiv> pathOutcome env bl (md_merged diff p) (md_ours diff p) (md_theirs diff p)"

fun outcomeEntry :: "merge_env \<Rightarrow> treeEntry option \<Rightarrow> path_outcome \<Rightarrow> treeEntry option" where
  "outcomeEntry env base Keep = base"
| "outcomeEntry env base Gone = None"
| "outcomeEntry env base (Entry e) = Some e"
| "outcomeEntry env base HardAt = base"
| "outcomeEntry env base (Content m mode) = Some \<lparr>te_hash = me_blob_name env m, te_mode = mode\<rparr>"
| "outcomeEntry env base (Marked m mode b x y) = Some \<lparr>te_hash = me_blob_name env m, te_mode = mode\<rparr>"
| "outcomeEntry env base Failed = base"

fun hardOf :: "string \<Rightarrow> path_outcome \<Rightarrow> Conflict list" where
  "hardOf p HardAt = [\<lparr>cf_file = p, cf_ranges = []\<rparr>]"
| "hardOf p _ = []"

fun markedOf :: "string \<Rightarrow> path_outcome \<Rightarrow> conflictedFile list" where
  "markedOf p (Marked m mode b x y) =
     [\<lparr>cd_path = p, cd_base = b, cd_ours = x, cd_theirs = y, cd_mode = mode,
       cd_ranges = ParseConflictRanges m\<rparr>]"
| "markedOf p _ = []"

subsection \<open>The object database\<close>

text \<open>
  What the engine relies on of the database: objects are named by their content, different contents
  have different names, and the blobs that the trees refer to are there.
\<close>

definition contentAddressed :: "merge_env \<Rightarrow> blobs \<Rightarrow> bool" where
  "contentAddressed env bl \<longleftrightarrow>
     inj (me_blob_name env) \<and> (\<forall>h c. bl h = Some c \<longrightarrow> h = me_blob_name env c)"

definition complete :: "blobs \<Rightarrow> mergeDiff \<Rightarrow> bool" where
  "complete bl diff \<longleftrightarrow>
     (\<forall>p o1 t1. md_ours diff p = Some o1 \<longrightarrow> md_theirs diff p = Some t1 \<longrightarrow>
        (\<forall>h \<in> {entry_hash (md_merged diff p), sc_toHash o1, sc_toHash t1}. h = zeroHash \<or> bl h \<noteq> None))"

lemma writeBlob_extends:
  assumes "contentAddressed env bl0" and "bl0 \<subseteq>\<^sub>m bl" and "writeBlob env bl c = Some (bl', h)"
  shows "bl0 \<subseteq>\<^sub>m bl' \<and> h = me_blob_name env c"
proof -
  have h: "h = me_blob_name env c" "bl' = bl(h \<mapsto> c)"
    using assms(3) by (auto simp: writeBlob_def split: if_splits)
  have "bl0 h = None \<or> bl0 h = Some c"
  proof (cases "bl0 h")
    case (Some c')
    then have "me_blob_name env c = me_blob_name env c'" using assms(1) h by (auto simp: contentAddressed_def)
    then have "c = c'" using assms(1) by (auto simp: contentAddressed_def dest: injD)
    with Some show ?thesis by simp
  qed simp
  with assms(2) h show ?thesis by (auto simp: map_le_def dom_def)
qed

lemma blobContent_extends:
  assumes "bl0 \<subseteq>\<^sub>m bl" and "h = zeroHash \<or> bl0 h \<noteq> None"
  shows "blobContent env bl h = blobContent env bl0 h"
  using assms by (auto simp: blobContent_def map_le_def dom_def)

text \<open>A step on a path that turns the state as the outcome says, writing blobs only.\<close>

definition outcomeStep ::
  "merge_env \<Rightarrow> blobs \<Rightarrow> string \<Rightarrow> mergeState \<Rightarrow> path_outcome \<Rightarrow> mergeState option \<Rightarrow> bool" where
  "outcomeStep env bl0 p st oc r \<longleftrightarrow>
     (if oc = Failed then r = None
      else \<exists>bl'. bl0 \<subseteq>\<^sub>m bl' \<and> r = Some
        \<lparr>ms_entries = (ms_entries st)(p := outcomeEntry env (ms_entries st p) oc),
         ms_hard = ms_hard st @ hardOf p oc, ms_conflicted = ms_conflicted st @ markedOf p oc, ms_blobs = bl'\<rparr>)"

lemma runThreeWayMerge_outcome:
  assumes ca: "contentAddressed env bl0" and le: "bl0 \<subseteq>\<^sub>m ms_blobs st"
    and cl: "\<forall>h \<in> {entry_hash (ms_entries st p), sc_toHash o1, sc_toHash t1}. h = zeroHash \<or> bl0 h \<noteq> None"
  shows "outcomeStep env bl0 p st (contentOutcome env bl0 (ms_entries st p) o1 t1) (runThreeWayMerge env st p o1 t1)"
proof -
  have rd: "blobContent env (ms_blobs st) h = blobContent env bl0 h"
    if "h \<in> {entry_hash (ms_entries st p), sc_toHash o1, sc_toHash t1}" for h
    using blobContent_extends[OF le] cl that by blast
  show ?thesis
  proof (cases "contentOutcome env bl0 (ms_entries st p) o1 t1 = Failed")
    case True
    then have "runThreeWayMerge env st p o1 t1 = None"
      by (auto simp: contentOutcome_def runThreeWayMerge_def rd writeBlob_def
               split: option.splits if_splits)
    with True show ?thesis by (simp add: outcomeStep_def)
  next
    case False
    then obtain b x y m n where c: "blobContent env bl0 (entry_hash (ms_entries st p)) = Some b"
      "blobContent env bl0 (sc_toHash o1) = Some x" "blobContent env bl0 (sc_toHash t1) = Some y"
      "mergeFileContent env b x y = Some (m, n)" "\<not> me_write_err env m"
      by (auto simp: contentOutcome_def split: option.splits if_splits)
    define bl' where "bl' = (ms_blobs st)(me_blob_name env m \<mapsto> m)"
    have w: "writeBlob env (ms_blobs st) m = Some (bl', me_blob_name env m)"
      using c(5) by (simp add: writeBlob_def bl'_def)
    have "bl0 \<subseteq>\<^sub>m bl'" using writeBlob_extends[OF ca le w] by simp
    moreover have "runThreeWayMerge env st p o1 t1 = Some
      (st\<lparr>ms_blobs := bl',
          ms_entries := (ms_entries st)(p \<mapsto> \<lparr>te_hash = me_blob_name env m, te_mode = sc_mode o1\<rparr>),
          ms_conflicted := ms_conflicted st @ (if n = 0 then [] else
            [\<lparr>cd_path = p, cd_base = b, cd_ours = x, cd_theirs = y, cd_mode = sc_mode o1,
              cd_ranges = ParseConflictRanges m\<rparr>])\<rparr>)"
      using c w by (simp add: runThreeWayMerge_def rd Let_def)
    moreover have "contentOutcome env bl0 (ms_entries st p) o1 t1 =
      (if n = 0 then Content m (sc_mode o1) else Marked m (sc_mode o1) b x y)"
      using c by (simp add: contentOutcome_def)
    ultimately show ?thesis by (cases st) (auto simp: outcomeStep_def)
  qed
qed

lemma applyPath_outcome:
  assumes ca: "contentAddressed env bl0" and le: "bl0 \<subseteq>\<^sub>m ms_blobs st" and cl: "complete bl0 diff"
    and same: "ms_entries st p = md_merged diff p"
  shows "outcomeStep env bl0 p st (outcomeAt env bl0 diff p) (applyPath env diff p st)"
proof (cases "\<exists>o1 t1. md_ours diff p = Some o1 \<and> md_theirs diff p = Some t1 \<and>
    \<not> sc_deleted o1 \<and> \<not> sc_deleted t1 \<and> sc_toHash o1 \<noteq> sc_toHash t1")
  case True
  then obtain o1 t1 where ch: "md_ours diff p = Some o1" "md_theirs diff p = Some t1"
    "\<not> sc_deleted o1" "\<not> sc_deleted t1" "sc_toHash o1 \<noteq> sc_toHash t1" by blast
  have "\<forall>h \<in> {entry_hash (ms_entries st p), sc_toHash o1, sc_toHash t1}. h = zeroHash \<or> bl0 h \<noteq> None"
    using cl ch(1,2) same by (auto simp: complete_def)
  from runThreeWayMerge_outcome[OF ca le this] ch same show ?thesis
    by (simp add: applyPath_def mergeBothModifiedPath_def)
next
  case False
  then show ?thesis
    using le same
    by (cases "md_ours diff p"; cases "md_theirs diff p"; cases st)
       (auto simp: applyPath_def takeSide_def mergeBothModifiedPath_def outcomeStep_def)
qed

text \<open>The state after all paths, in closed form.\<close>

definition pathsState :: "merge_env \<Rightarrow> blobs \<Rightarrow> mergeDiff \<Rightarrow> string list \<Rightarrow> mergeState \<Rightarrow> blobs \<Rightarrow> mergeState" where
  "pathsState env bl0 diff ps st bl' =
     \<lparr>ms_entries = (\<lambda>q. if q \<in> set ps then outcomeEntry env (md_merged diff q) (outcomeAt env bl0 diff q)
                        else ms_entries st q),
      ms_hard = ms_hard st @ concat (map (\<lambda>p. hardOf p (outcomeAt env bl0 diff p)) ps),
      ms_conflicted = ms_conflicted st @ concat (map (\<lambda>p. markedOf p (outcomeAt env bl0 diff p)) ps),
      ms_blobs = bl'\<rparr>"

lemma applyPaths_outcome:
  assumes ca: "contentAddressed env bl0" and cl: "complete bl0 diff"
    and "bl0 \<subseteq>\<^sub>m ms_blobs st" and "distinct ps" and "\<forall>p \<in> set ps. ms_entries st p = md_merged diff p"
  shows "if \<exists>p \<in> set ps. outcomeAt env bl0 diff p = Failed then applyPaths env diff ps st = None
    else \<exists>bl'. bl0 \<subseteq>\<^sub>m bl' \<and> applyPaths env diff ps st = Some (pathsState env bl0 diff ps st bl')"
  using assms(3-)
proof (induction ps arbitrary: st)
  case Nil
  then show ?case by (cases st) (auto simp: pathsState_def)
next
  case (Cons p ps)
  let ?oc = "outcomeAt env bl0 diff p"
  have step: "outcomeStep env bl0 p st ?oc (applyPath env diff p st)"
    by (rule applyPath_outcome[OF ca Cons.prems(1) cl]) (use Cons.prems in simp)
  have base: "ms_entries st p = md_merged diff p" using Cons.prems by simp
  show ?case
  proof (cases "?oc = Failed")
    case True
    with step show ?thesis by (simp add: outcomeStep_def)
  next
    case False
    with step base obtain bl1 where b1: "bl0 \<subseteq>\<^sub>m bl1" and st1: "applyPath env diff p st = Some
      \<lparr>ms_entries = (ms_entries st)(p := outcomeEntry env (md_merged diff p) ?oc),
       ms_hard = ms_hard st @ hardOf p ?oc, ms_conflicted = ms_conflicted st @ markedOf p ?oc, ms_blobs = bl1\<rparr>"
      by (auto simp: outcomeStep_def)
    have "pathsState env bl0 diff ps
      \<lparr>ms_entries = (ms_entries st)(p := outcomeEntry env (md_merged diff p) ?oc),
       ms_hard = ms_hard st @ hardOf p ?oc, ms_conflicted = ms_conflicted st @ markedOf p ?oc, ms_blobs = bl1\<rparr> bl' =
      pathsState env bl0 diff (p # ps) st bl'" for bl'
      using Cons.prems(2) by (auto simp: pathsState_def fun_eq_iff)
    moreover note Cons.IH[of "\<lparr>ms_entries = (ms_entries st)(p := outcomeEntry env (md_merged diff p) ?oc),
       ms_hard = ms_hard st @ hardOf p ?oc, ms_conflicted = ms_conflicted st @ markedOf p ?oc, ms_blobs = bl1\<rparr>"]
    ultimately show ?thesis
      using False b1 Cons.prems(2,3) by (simp add: st1 del: fun_upd_apply) (auto split: if_splits)
  qed
qed

subsection \<open>Diffs\<close>

text \<open>A map of changes that turns the base into a side, path by path.\<close>

definition diffOf :: "entries \<Rightarrow> entries \<Rightarrow> (string \<rightharpoonup> sideChange) \<Rightarrow> bool" where
  "diffOf base side m \<longleftrightarrow>
     (\<forall>p. case m p of
            None \<Rightarrow> side p = base p
          | Some sc \<Rightarrow> side p \<noteq> base p \<and>
              (if sc_deleted sc then side p = None \<and> sc_toHash sc = zeroHash
               else side p = Some \<lparr>te_hash = sc_toHash sc, te_mode = sc_mode sc\<rparr>))"

text \<open>
  What a tree diff without renames lists: every path whose entry differs, once, with the entry of
  each side; a renamed file is a removal and an addition.
\<close>

definition newFile :: "entries \<Rightarrow> entries \<Rightarrow> File \<Rightarrow> bool" where
  "newFile base side g \<longleftrightarrow>
     f_name g \<noteq> [] \<and> side (f_name g) = Some \<lparr>te_hash = f_hash g, te_mode = f_mode g\<rparr> \<and>
     base (f_name g) \<noteq> side (f_name g)"

fun plainChange :: "entries \<Rightarrow> entries \<Rightarrow> change \<Rightarrow> bool" where
  "plainChange base side None = False"
| "plainChange base side (Some (None, None)) = False"
| "plainChange base side (Some (Some f, None)) = (f_name f \<noteq> [] \<and> base (f_name f) \<noteq> None \<and> side (f_name f) = None)"
| "plainChange base side (Some (None, Some g)) =
     (newFile base side g)"
| "plainChange base side (Some (Some f, Some g)) = (f_name f = f_name g \<and> newFile base side g)"

fun changePath :: "change \<Rightarrow> string" where
  "changePath None = []"
| "changePath (Some (from, to)) = effectivePath (sideChangeOf from to)"

definition plainDiff :: "entries \<Rightarrow> entries \<Rightarrow> change list \<Rightarrow> bool" where
  "plainDiff base side chs \<longleftrightarrow>
     (\<forall>ch \<in> set chs. plainChange base side ch) \<and> distinct (map changePath chs) \<and>
     (\<forall>p. base p \<noteq> side p \<longrightarrow> p \<in> changePath ` set chs)"

lemma buildSideChanges_map:
  assumes "\<forall>ch \<in> set chs. ch \<noteq> None" and "distinct (map changePath chs)"
  shows "\<exists>m. buildSideChanges out chs = Some m \<and>
    (\<forall>p. p \<notin> changePath ` set chs \<longrightarrow> m p = out p) \<and>
    (\<forall>from to. Some (from, to) \<in> set chs \<longrightarrow> m (changePath (Some (from, to))) = Some (sideChangeOf from to))"
  using assms
proof (induction chs arbitrary: out)
  case (Cons ch chs)
  then obtain f g where ch: "ch = Some (f, g)" by (cases ch) auto
  let ?sc = "sideChangeOf f g"
  from Cons.prems have "\<forall>ch \<in> set chs. ch \<noteq> None" "distinct (map changePath chs)" by auto
  from Cons.IH[OF this, of "out(effectivePath ?sc \<mapsto> ?sc)"] obtain m where
    m: "buildSideChanges (out(effectivePath ?sc \<mapsto> ?sc)) chs = Some m"
    "\<forall>p. p \<notin> changePath ` set chs \<longrightarrow> m p = (out(effectivePath ?sc \<mapsto> ?sc)) p"
    "\<forall>from to. Some (from, to) \<in> set chs \<longrightarrow> m (changePath (Some (from, to))) = Some (sideChangeOf from to)"
    by blast
  have "effectivePath ?sc \<notin> changePath ` set chs" using Cons.prems(2) ch by simp
  with m show ?case by (auto simp: ch Let_def)
qed simp

lemma buildSideChanges_plain:
  assumes "plainDiff base side chs"
  shows "\<exists>m. buildSideChanges Map.empty chs = Some m \<and> diffOf base side m \<and> finite (dom m)"
proof -
  have pc: "\<forall>ch \<in> set chs. plainChange base side ch" and di: "distinct (map changePath chs)"
    and all: "\<forall>p. base p \<noteq> side p \<longrightarrow> p \<in> changePath ` set chs" using assms by (auto simp: plainDiff_def)
  have "\<forall>ch \<in> set chs. ch \<noteq> None" using pc by (metis plainChange.simps(1))
  from buildSideChanges_map[OF this di, of Map.empty] obtain m where
    m: "buildSideChanges Map.empty chs = Some m" "\<forall>p. p \<notin> changePath ` set chs \<longrightarrow> m p = None"
    "\<forall>from to. Some (from, to) \<in> set chs \<longrightarrow> m (changePath (Some (from, to))) = Some (sideChangeOf from to)"
    by blast
  have "diffOf base side m"
    unfolding diffOf_def
  proof
    fix p
    show "case m p of None \<Rightarrow> side p = base p
      | Some sc \<Rightarrow> side p \<noteq> base p \<and>
          (if sc_deleted sc then side p = None \<and> sc_toHash sc = zeroHash
           else side p = Some \<lparr>te_hash = sc_toHash sc, te_mode = sc_mode sc\<rparr>)"
    proof (cases "p \<in> changePath ` set chs")
      case False
      then have "m p = None" and "side p = base p" using m(2) all by (blast, metis)
      then show ?thesis by simp
    next
      case True
      then obtain ch where ch: "ch \<in> set chs" "p = changePath ch" by blast
      with pc have pl: "plainChange base side ch" by blast
      then obtain f g where fg: "ch = Some (f, g)" by (cases ch) auto
      with ch m(3) have mp: "m p = Some (sideChangeOf f g)" "p = effectivePath (sideChangeOf f g)" by auto
      from pl show ?thesis
        unfolding mp(1) unfolding mp(2) fg
        by (cases f; cases g) (auto simp: newFile_def sideChangeOf_def effectivePath_def)
    qed
  qed
  moreover have "finite (dom m)"
    using m(2) by (rule_tac finite_subset[of _ "changePath ` set chs"]) auto
  ultimately show ?thesis using m(1) by blast
qed

lemma finite_flatten:
  "finite (dom out) \<Longrightarrow> flattenTreeInto pre t out = Some out' \<Longrightarrow> finite (dom out')"
  "finite (dom out) \<Longrightarrow> flattenEntries pre es out = Some out' \<Longrightarrow> finite (dom out')"
proof (induction pre t out and pre es out arbitrary: out' and out' rule: flattenTreeInto_flattenEntries.induct)
  case (3 pre name e es out)
  define full where "full = (if pre \<noteq> [] then pre @ ''/'' @ name else name)"
  note IH = "3.IH"[OF full_def]
  show ?case
  proof (cases e)
    case (GBlob te)
    have "flattenEntries pre es (out(full \<mapsto> te)) = Some out'"
      using "3.prems"(2) by (simp only: flattenEntries.simps Let_def GBlob gentry.case full_def)
    moreover have "finite (dom (out(full \<mapsto> te)))" using "3.prems"(1) by simp
    ultimately show ?thesis using IH(1)[OF GBlob] by blast
  next
    case (GDir sub)
    then obtain out1 where o1: "flattenTreeInto full sub out = Some out1" "flattenEntries pre es out1 = Some out'"
      using "3.prems"(2) by (simp only: flattenEntries.simps Let_def gentry.case full_def) (auto split: option.splits)
    with IH(2)[OF GDir "3.prems"(1)] IH(3)[OF GDir o1(1)] show ?thesis by blast
  next
    case GUnread
    then show ?thesis using "3.prems"(2) by simp
  qed
qed auto

subsection \<open>Three-way merges\<close>

text \<open>
  An entry that only one side changed is that side's, and one that both changed alike is theirs and
  ours.
\<close>

definition threeWay :: "treeEntry option \<Rightarrow> treeEntry option \<Rightarrow> treeEntry option \<Rightarrow> treeEntry option \<Rightarrow> bool" where
  "threeWay b x y m \<longleftrightarrow> (y = b \<longrightarrow> m = x) \<and> (x = b \<longrightarrow> m = y) \<and> (x = y \<longrightarrow> m = x)"

definition wfEntries :: "blobs \<Rightarrow> entries \<Rightarrow> bool" where
  "wfEntries bl es \<longleftrightarrow> (\<forall>p e. es p = Some e \<longrightarrow> cleanPath p \<and> bl (te_hash e) \<noteq> None)"

text \<open>The tree of a commit has the entries \<open>S\<close>, and the diff from the base tree to it is a plain one.\<close>

definition sideTree :: "merge_env \<Rightarrow> blobs \<Rightarrow> gtree \<Rightarrow> entries \<Rightarrow> Commit \<Rightarrow> entries \<Rightarrow> bool" where
  "sideTree env bl baseTree B c S \<longleftrightarrow>
     (\<exists>t chs. me_tree env c = Some t \<and> flattenTree t = Some S \<and> wfEntries bl S \<and>
        me_diff_tree env baseTree t = Some chs \<and> plainDiff B S chs)"

text \<open>The orders in which Go walks the two maps: every key once.\<close>

definition properOrders :: "(mergeDiff \<Rightarrow> string list) \<Rightarrow> (entries \<Rightarrow> string list) \<Rightarrow> bool" where
  "properOrders order listing \<longleftrightarrow>
     (\<forall>d. finite (dom (md_ours d) \<union> dom (md_theirs d)) \<longrightarrow>
        distinct (order d) \<and> set (order d) = dom (md_ours d) \<union> dom (md_theirs d)) \<and>
     (\<forall>es. finite (dom es) \<longrightarrow> distinct (listing es) \<and> set (listing es) = dom es)"

lemma outcome_threeWay:
  assumes "diffOf B X (md_ours d)" and "diffOf B Y (md_theirs d)" and "md_merged d = B"
  shows "threeWay (B p) (X p) (Y p) (outcomeEntry env (B p) (outcomeAt env bl d p))"
    and "(\<exists>m mode b x y. outcomeAt env bl d p = Marked m mode b x y) \<Longrightarrow>
         threeWay (B p) (X p) (Y p) e"
    and "outcomeEntry env (B p) (outcomeAt env bl d p) \<noteq> None \<Longrightarrow> B p \<noteq> None \<or> X p \<noteq> None \<or> Y p \<noteq> None"
proof -
  have X: "case md_ours d p of None \<Rightarrow> X p = B p
      | Some sc \<Rightarrow> X p \<noteq> B p \<and> (if sc_deleted sc then X p = None \<and> sc_toHash sc = zeroHash
           else X p = Some \<lparr>te_hash = sc_toHash sc, te_mode = sc_mode sc\<rparr>)"
    using assms(1) unfolding diffOf_def by blast
  have Y: "case md_theirs d p of None \<Rightarrow> Y p = B p
      | Some sc \<Rightarrow> Y p \<noteq> B p \<and> (if sc_deleted sc then Y p = None \<and> sc_toHash sc = zeroHash
           else Y p = Some \<lparr>te_hash = sc_toHash sc, te_mode = sc_mode sc\<rparr>)"
    using assms(2) unfolding diffOf_def by blast
  show "threeWay (B p) (X p) (Y p) (outcomeEntry env (B p) (outcomeAt env bl d p))"
    using X Y assms(3)
    by (cases "md_ours d p"; cases "md_theirs d p") (auto simp: threeWay_def split: if_splits)
  show "threeWay (B p) (X p) (Y p) e" if "\<exists>m mode b x y. outcomeAt env bl d p = Marked m mode b x y"
    using X Y that by (cases "md_ours d p"; cases "md_theirs d p") (auto simp: threeWay_def split: if_splits)
  show "B p \<noteq> None \<or> X p \<noteq> None \<or> Y p \<noteq> None"
    if "outcomeEntry env (B p) (outcomeAt env bl d p) \<noteq> None"
    using X Y that assms(3) by (cases "md_ours d p"; cases "md_theirs d p") (auto split: if_splits)
qed

lemma resolveLoop_entries:
  "resolveLoop env cfs acc st = (r, st') \<Longrightarrow> p \<notin> cd_path ` set cfs \<Longrightarrow> ms_entries st' p = ms_entries st p"
proof (induction env cfs acc st arbitrary: r st' rule: resolveLoop.induct)
  case (2 env cf cfs worst label allOk st)
  show ?case
  proof (cases "tryAutoResolve (me_diff env) (cd_base cf) (cd_ours cf) (cd_theirs cf)")
    case None
    with 2 show ?thesis by simp
  next
    case (Some rh)
    then show ?thesis
      using 2 by (cases rh) (auto simp: Let_def split: option.splits if_splits)
  qed
qed simp

lemma resolveLoop_dom:
  "resolveLoop env cfs acc st = (r, st') \<Longrightarrow> dom (ms_entries st') \<subseteq> dom (ms_entries st) \<union> cd_path ` set cfs"
  using resolveLoop_entries[of env cfs acc st r st'] by (auto simp: dom_def)

lemma buildDirs_named:
  "buildDirs env dirs ch built = Some built' \<Longrightarrow> \<forall>d t. built d = Some t \<longrightarrow> me_tree_name env t \<noteq> None \<Longrightarrow>
   built' d = Some t \<Longrightarrow> me_tree_name env t \<noteq> None"
proof (induction dirs arbitrary: ch built)
  case (Cons dir dirs)
  define u where "u = GTree (sort_key fst (ch dir))"
  from Cons.prems(1) have n: "me_tree_name env u \<noteq> None"
    and r: "buildDirs env dirs (if dir \<noteq> [] then addChild (dirOf dir) (baseOf dir, GDir u) ch else ch)
             (built(dir \<mapsto> u)) = Some built'"
    by (auto simp: u_def Let_def split: option.splits)
  show ?case by (rule Cons.IH[OF r _ Cons.prems(3)]) (use n Cons.prems(2) in auto)
qed simp

lemma buildTree_named: "buildTree env paths es = Some t \<Longrightarrow> me_tree_name env t \<noteq> None"
  by (auto simp: buildTree_def split: option.splits dest!: buildDirs_named)

lemma sideTree_changes:
  assumes "me_tree env ancestor = Some bt" "flattenTree bt = Some B"
    and "sideTree env bl bt B draftTip X" "sideTree env bl bt B source Y"
  shows "\<exists>d. computeMergeDiff env ancestor draftTip source = Some d \<and> md_merged d = B \<and>
    diffOf B X (md_ours d) \<and> diffOf B Y (md_theirs d) \<and> finite (dom (md_ours d) \<union> dom (md_theirs d))"
proof -
  from assms(3) obtain tx cx where x: "me_tree env draftTip = Some tx" "me_diff_tree env bt tx = Some cx"
    "plainDiff B X cx" by (auto simp: sideTree_def)
  from assms(4) obtain ty cy where y: "me_tree env source = Some ty" "me_diff_tree env bt ty = Some cy"
    "plainDiff B Y cy" by (auto simp: sideTree_def)
  from buildSideChanges_plain[OF x(3)] buildSideChanges_plain[OF y(3)] obtain mx my where
    "buildSideChanges Map.empty cx = Some mx" "diffOf B X mx" "finite (dom mx)"
    "buildSideChanges Map.empty cy = Some my" "diffOf B Y my" "finite (dom my)" by blast
  with assms(1,2) x y show ?thesis by (simp add: computeMergeDiff_def)
qed

lemma diffOf_complete:
  assumes "md_merged d = B" "diffOf B X (md_ours d)" "diffOf B Y (md_theirs d)"
    and "wfEntries bl B" "wfEntries bl X" "wfEntries bl Y"
  shows "complete bl d"
  unfolding complete_def
proof (intro allI impI)
  fix p o1 t1 assume ch: "md_ours d p = Some o1" "md_theirs d p = Some t1"
  have B: "entry_hash (B p) = zeroHash \<or> bl (entry_hash (B p)) \<noteq> None"
    using assms(4) by (cases "B p") (auto simp: entry_hash_def wfEntries_def)
  have side: "sc_toHash c = zeroHash \<or> bl (sc_toHash c) \<noteq> None"
    if "diffOf B S m" "m p = Some c" "wfEntries bl S" for S m c
  proof -
    from that(1,2) have "if sc_deleted c then S p = None \<and> sc_toHash c = zeroHash
      else S p = Some \<lparr>te_hash = sc_toHash c, te_mode = sc_mode c\<rparr>"
      unfolding diffOf_def by (metis (mono_tags, lifting) option.simps(5))
    with that(3) show ?thesis by (fastforce simp: wfEntries_def split: if_splits)
  qed
  show "\<forall>h \<in> {entry_hash (md_merged d p), sc_toHash o1, sc_toHash t1}. h = zeroHash \<or> bl h \<noteq> None"
    using B side[OF assms(2) ch(1) assms(5)] side[OF assms(3) ch(2) assms(6)] assms(1) by simp
qed

text \<open>The state from which a merge that is not a hard conflict builds its tree.\<close>

lemma Merge_builds:
  assumes "computeMergeDiff env ancestor draftTip source = Some d"
    and "c_hash source \<noteq> c_hash ancestor" "c_hash draftTip \<noteq> c_hash ancestor"
    and "Merge env order listing bl source draftTip ancestor = Some r" "mr_kind r \<noteq> HardConflict"
  shows "\<exists>st es t. applyChangesPerPath env (order d) bl d = Some st \<and>
    (\<forall>p. p \<notin> cd_path ` set (ms_conflicted st) \<longrightarrow> es p = ms_entries st p) \<and>
    buildTree env (listing es) es = Some t \<and> me_tree_name env t = Some (mr_tree r)"
proof -
  from assms(1-4) obtain st where st: "applyChangesPerPath env (order d) bl d = Some st"
    by (auto simp: Merge_def tryShortCircuit_def split: option.splits)
  have named: "me_tree_name env t = Some (the (me_tree_name env t))" if "buildTree env ps es = Some t" for ps es t
    using buildTree_named[OF that] by simp
  show ?thesis
  proof (cases "ms_conflicted st \<noteq> [] \<and> ms_hard st = []")
    case True
    obtain acc st' where l: "resolveLoop env (ms_conflicted st) (None, [], True) st = (acc, st')" by fastforce
    note keep = resolveLoop_entries[OF l]
    have "\<exists>t. buildTree env (listing (ms_entries st')) (ms_entries st') = Some t \<and> mr_tree r = the (me_tree_name env t)"
      using assms st True l
      by (auto simp: Merge_def tryShortCircuit_def resolveConflicts_def split: option.splits prod.splits if_splits)
    with st keep named show ?thesis by metis
  next
    case False
    then have "\<exists>t. buildTree env (listing (ms_entries st)) (ms_entries st) = Some t \<and> mr_tree r = the (me_tree_name env t)"
      using assms st
      by (auto simp: Merge_def tryShortCircuit_def split: option.splits if_splits)
    with st named show ?thesis by metis
  qed
qed

lemma marked_paths:
  "p \<in> cd_path ` set (concat (map (\<lambda>p. markedOf p (oc p)) ps)) \<longleftrightarrow>
   p \<in> set ps \<and> (\<exists>m mode b x y. oc p = Marked m mode b x y)"
proof -
  have m: "cd_path ` set (markedOf q k) = (if \<exists>m mode b x y. k = Marked m mode b x y then {q} else {})" for q k
    by (cases k) auto
  have "cd_path ` set (concat (map (\<lambda>p. markedOf p (oc p)) ps)) = (\<Union>q \<in> set ps. cd_path ` set (markedOf q (oc q)))"
    by auto
  then show ?thesis unfolding m by auto
qed

lemma mset_concat_map_perm: "mset ps = mset qs \<Longrightarrow> mset (concat (map f ps)) = mset (concat (map f qs))"
  by (simp add: mset_concat sum_mset_sum_list[symmetric])

lemma merged_state:
  assumes "contentAddressed env bl" and "md_merged d = B" and "complete bl d"
    and "distinct ps" and "set ps = dom (md_ours d) \<union> dom (md_theirs d)"
    and "applyChangesPerPath env ps bl d = Some st"
  shows "ms_entries st p = outcomeEntry env (B p) (outcomeAt env bl d p)"
    and "p \<in> cd_path ` set (ms_conflicted st) \<Longrightarrow> \<exists>m mode b x y. outcomeAt env bl d p = Marked m mode b x y"
proof -
  let ?st0 = "\<lparr>ms_entries = md_merged d, ms_hard = [], ms_conflicted = [], ms_blobs = bl\<rparr>"
  from applyPaths_outcome[OF assms(1,3), of ?st0 ps] assms(4,6) obtain bl' where
    st: "st = pathsState env bl d ps ?st0 bl'"
    by (auto simp: applyChangesPerPath_def split: if_splits)
  show "ms_entries st p = outcomeEntry env (B p) (outcomeAt env bl d p)"
  proof (cases "p \<in> set ps")
    case True
    with st assms(2) show ?thesis by (simp add: pathsState_def)
  next
    case False
    with assms(5) have "md_ours d p = None" "md_theirs d p = None" by auto
    with False st assms(2) show ?thesis by (simp add: pathsState_def)
  qed
  show "\<exists>m mode b x y. outcomeAt env bl d p = Marked m mode b x y"
    if "p \<in> cd_path ` set (ms_conflicted st)"
    using that unfolding st pathsState_def mergeState.simps append_Nil marked_paths by blast
qed

lemma buildDirs_total:
  assumes "\<forall>t. me_tree_name env t \<noteq> None"
  shows "\<exists>built'. buildDirs env dirs ch built = Some built'"
proof (induction dirs arbitrary: ch built)
  case (Cons dir dirs)
  from assms obtain n where "me_tree_name env (GTree (sort_key fst (ch dir))) = Some n" by blast
  with Cons show ?case by (simp add: Let_def)
qed simp

lemma buildDirs_dom: "buildDirs env dirs ch built = Some built' \<Longrightarrow> d \<in> set dirs \<or> built d \<noteq> None \<Longrightarrow> built' d \<noteq> None"
proof (induction dirs arbitrary: ch built)
  case (Cons dir dirs)
  define u where "u = GTree (sort_key fst (ch dir))"
  from Cons.prems(1) have
    r: "buildDirs env dirs (if dir \<noteq> [] then addChild (dirOf dir) (baseOf dir, GDir u) ch else ch)
             (built(dir \<mapsto> u)) = Some built'"
    by (auto simp: u_def Let_def split: option.splits)
  show ?case by (rule Cons.IH[OF r]) (use Cons.prems(2) in auto)
qed simp

subsection \<open>Examples\<close>

text \<open>Three commits over one file, whose sides differ in trailing blanks only.\<close>

definition ex_blob :: "string \<Rightarrow> string" where "ex_blob c = ''b'' @ c"

lemma ex_blob_nonzero: "ex_blob c \<noteq> zeroHash"
proof
  assume "ex_blob c = zeroHash"
  then have "hd (ex_blob c) = hd zeroHash" by simp
  then show False by (simp add: ex_blob_def zeroHash_def)
qed

lemma ex_blob_eq: "ex_blob c = ex_blob d \<longleftrightarrow> c = d"
  by (simp add: ex_blob_def)

definition ex_entry :: "string \<Rightarrow> treeEntry" where "ex_entry c = \<lparr>te_hash = ex_blob c, te_mode = 33188\<rparr>"

definition ex_commit :: "string \<Rightarrow> Commit" where
  "ex_commit h = \<lparr>c_hash = h, c_message = [], c_author_name = [], c_author_email = [], c_parents = []\<rparr>"

definition ex_file :: "string \<Rightarrow> string \<Rightarrow> File" where
  "ex_file name c = \<lparr>f_hash = ex_blob c, f_name = name, f_mode = 33188\<rparr>"

definition blank_tree :: "string \<Rightarrow> gtree" where "blank_tree c = GTree [(''f'', GBlob (ex_entry c))]"

text \<open>The name of a tree is here the name of its file, so that a result shows the content.\<close>

definition blank_env :: "(string \<Rightarrow> bool) \<Rightarrow> merge_env" where
  "blank_env fails = \<lparr>me_blob_name = ex_blob,
     me_tree_name = (\<lambda>t. case t of GTree [(n, GBlob e)] \<Rightarrow> Some (te_hash e) | _ \<Rightarrow> Some []),
     me_read_err = (\<lambda>h. False), me_write_err = fails,
     me_tree = (\<lambda>c. Some (blank_tree (c_hash c))),
     me_diff_tree = (\<lambda>b t. case (b, t) of
        (GTree [(n, GBlob e)], GTree [(m, GBlob f)]) \<Rightarrow>
          Some [Some (Some \<lparr>f_hash = te_hash e, f_name = n, f_mode = te_mode e\<rparr>,
                      Some \<lparr>f_hash = te_hash f, f_name = m, f_mode = te_mode f\<rparr>)]
      | _ \<Rightarrow> None),
     me_merge_file = (\<lambda>b x y. Some (''<<<<<<< ours'', 1)), me_diff = demo_env\<rparr>"

definition blank_blobs :: blobs where
  "blank_blobs = [ex_blob ''a'' \<mapsto> ''a'', ex_blob ''a '' \<mapsto> ''a '', ex_blob ''a  '' \<mapsto> ''a  '']"

definition ex_order :: "mergeDiff \<Rightarrow> string list" where "ex_order d = [''f'']"
definition ex_listing :: "entries \<Rightarrow> string list" where "ex_listing es = [''f'']"

lemma blank_resolve: "tryAutoResolve demo_env ''a'' ''a '' ''a  '' = Some (''a '', ''whitespace'')"
  by (simp add: tryAutoResolve_def isBinary_def isIdenticalEdit_def isWhitespaceOnly_def
      normaliseLF_def ReplaceAll_def splitLines_def TrimSuffix_def HasSuffix_def newline_def
      carriage_return_def TrimRight_def blanks_def leadingTabs_def tab_def)

lemma blank_state:
  "applyChangesPerPath (blank_env fails) [''f''] blank_blobs
     \<lparr>md_ours = [''f'' \<mapsto> sideChangeOf (Some (ex_file ''f'' ''a'')) (Some (ex_file ''f'' ''a ''))],
      md_theirs = [''f'' \<mapsto> sideChangeOf (Some (ex_file ''f'' ''a'')) (Some (ex_file ''f'' ''a  ''))],
      md_merged = [''f'' \<mapsto> ex_entry ''a'']\<rparr> =
   (if fails ''<<<<<<< ours'' then None else Some
     \<lparr>ms_entries = [''f'' \<mapsto> ex_entry ''<<<<<<< ours''], ms_hard = [],
      ms_conflicted = [\<lparr>cd_path = ''f'', cd_base = ''a'', cd_ours = ''a '', cd_theirs = ''a  '',
         cd_mode = 33188, cd_ranges = ParseConflictRanges ''<<<<<<< ours''\<rparr>],
      ms_blobs = blank_blobs(ex_blob ''<<<<<<< ours'' \<mapsto> ''<<<<<<< ours'')\<rparr>)"
  by (simp add: applyChangesPerPath_def applyPath_def mergeBothModifiedPath_def runThreeWayMerge_def
      sideChangeOf_def ex_file_def ex_entry_def ex_blob_nonzero ex_blob_eq entry_hash_def blobContent_def
      blank_env_def blank_blobs_def mergeFileContent_def interpretMergeFileExit_def writeBlob_def Let_def)

lemma blank_tree_built: "buildTree (blank_env fails) [''f''] [''f'' \<mapsto> ex_entry c] = Some (blank_tree c)"
  by (simp add: buildTree_def sortedDirs_def parentDirs_def seedChildren_def addChild_def dirOf_def
      baseOf_def blank_env_def blank_tree_def)

lemma blank_diff:
  "computeMergeDiff (blank_env fails) (ex_commit ''a'') (ex_commit ''a '') (ex_commit ''a  '') = Some
     \<lparr>md_ours = [''f'' \<mapsto> sideChangeOf (Some (ex_file ''f'' ''a'')) (Some (ex_file ''f'' ''a ''))],
      md_theirs = [''f'' \<mapsto> sideChangeOf (Some (ex_file ''f'' ''a'')) (Some (ex_file ''f'' ''a  ''))],
      md_merged = [''f'' \<mapsto> ex_entry ''a'']\<rparr>"
  by (simp add: computeMergeDiff_def blank_env_def blank_tree_def ex_commit_def ex_entry_def ex_file_def
      flattenTree_def effectivePath_def sideChangeOf_def)

lemma blank_merge:
  "Merge (blank_env fails) ex_order ex_listing blank_blobs (ex_commit ''a  '') (ex_commit ''a '') (ex_commit ''a'') =
   (if fails ''<<<<<<< ours'' then None
    else if fails ''a '' then
      Some \<lparr>mr_kind = CleanMerge, mr_tree = ex_blob ''<<<<<<< ours'', mr_heuristic = [], mr_conflicts = []\<rparr>
    else Some \<lparr>mr_kind = SafeAutoResolve, mr_tree = ex_blob ''a '', mr_heuristic = ''whitespace'', mr_conflicts = []\<rparr>)"
proof -
  have sc: "tryShortCircuit (blank_env fails) (ex_commit ''a  '') (ex_commit ''a '') (ex_commit ''a'') = None"
    by (simp add: tryShortCircuit_def ex_commit_def)
  have diff: "me_diff (blank_env fails) = demo_env" and wr: "me_write_err (blank_env fails) = fails"
    and bn: "me_blob_name (blank_env fails) = ex_blob"
    and tn: "me_tree_name (blank_env fails) (blank_tree c) = Some (ex_blob c)" for c
    by (simp_all add: blank_env_def blank_tree_def ex_entry_def)
  show ?thesis
    unfolding Merge_def sc blank_diff
    by (simp add: ex_order_def blank_state resolveConflicts_def diff wr bn blank_resolve writeBlob_def
        ex_listing_def ex_entry_def[symmetric] blank_tree_built tn del: fun_upd_apply)
qed

text \<open>A merge of two independent changes: our side edits a file, their side adds another.\<close>

definition two_tree :: "string \<Rightarrow> gtree" where
  "two_tree h = (if h = ''ours'' then GTree [(''f'', GBlob (ex_entry ''b''))]
     else if h = ''theirs'' then GTree [(''f'', GBlob (ex_entry ''a'')), (''g'', GBlob (ex_entry ''c''))]
     else GTree [(''f'', GBlob (ex_entry ''a''))])"

definition two_env :: merge_env where
  "two_env = \<lparr>me_blob_name = ex_blob, me_tree_name = (\<lambda>t. Some ''tree''),
     me_read_err = (\<lambda>h. False), me_write_err = (\<lambda>c. False),
     me_tree = (\<lambda>c. Some (two_tree (c_hash c))),
     me_diff_tree = (\<lambda>b t. if t = two_tree ''ours''
       then Some [Some (Some (ex_file ''f'' ''a''), Some (ex_file ''f'' ''b''))]
       else Some [Some (None, Some (ex_file ''g'' ''c''))]),
     me_merge_file = (\<lambda>b x y. None), me_diff = demo_env\<rparr>"

definition two_blobs :: blobs where
  "two_blobs = [ex_blob ''a'' \<mapsto> ''a'', ex_blob ''b'' \<mapsto> ''b'', ex_blob ''c'' \<mapsto> ''c'']"

definition key_order :: "mergeDiff \<Rightarrow> string list" where
  "key_order d = sorted_list_of_set (dom (md_ours d) \<union> dom (md_theirs d))"
definition key_listing :: "entries \<Rightarrow> string list" where
  "key_listing es = sorted_list_of_set (dom es)"

definition two_diff :: mergeDiff where
  "two_diff = \<lparr>md_ours = [''f'' \<mapsto> sideChangeOf (Some (ex_file ''f'' ''a'')) (Some (ex_file ''f'' ''b''))],
     md_theirs = [''g'' \<mapsto> sideChangeOf None (Some (ex_file ''g'' ''c''))],
     md_merged = [''f'' \<mapsto> ex_entry ''a'']\<rparr>"

lemma key_orders_proper: "properOrders key_order key_listing"
  by (simp add: properOrders_def key_order_def key_listing_def)

lemma two_addressed: "contentAddressed two_env two_blobs"
  by (auto simp: contentAddressed_def two_env_def two_blobs_def inj_def ex_blob_eq split: if_splits)

lemma two_flatten:
  "flattenTree (two_tree ''base'') = Some [''f'' \<mapsto> ex_entry ''a'']"
  "flattenTree (two_tree ''ours'') = Some [''f'' \<mapsto> ex_entry ''b'']"
  "flattenTree (two_tree ''theirs'') = Some [''f'' \<mapsto> ex_entry ''a'', ''g'' \<mapsto> ex_entry ''c'']"
  by (simp_all add: two_tree_def flattenTree_def)

lemma two_clean: "cleanPath ''f''" "cleanPath ''g''"
  by (simp_all add: cleanPath_def cleanName_def)

lemma two_wf:
  "wfEntries two_blobs [''f'' \<mapsto> ex_entry ''a'']" "wfEntries two_blobs [''f'' \<mapsto> ex_entry ''b'']"
  "wfEntries two_blobs [''f'' \<mapsto> ex_entry ''a'', ''g'' \<mapsto> ex_entry ''c'']"
  using two_clean by (auto simp: wfEntries_def ex_entry_def two_blobs_def ex_blob_eq split: if_splits)

lemma two_sides:
  "sideTree two_env two_blobs (two_tree ''base'') [''f'' \<mapsto> ex_entry ''a''] (ex_commit ''ours'') [''f'' \<mapsto> ex_entry ''b'']"
  "sideTree two_env two_blobs (two_tree ''base'') [''f'' \<mapsto> ex_entry ''a''] (ex_commit ''theirs'')
     [''f'' \<mapsto> ex_entry ''a'', ''g'' \<mapsto> ex_entry ''c'']"
proof -
  have "two_tree ''theirs'' \<noteq> two_tree ''ours''" by (simp add: two_tree_def)
  moreover have "plainDiff [''f'' \<mapsto> ex_entry ''a''] [''f'' \<mapsto> ex_entry ''b'']
      [Some (Some (ex_file ''f'' ''a''), Some (ex_file ''f'' ''b''))]"
    by (auto simp: plainDiff_def newFile_def ex_file_def ex_entry_def ex_blob_eq effectivePath_def sideChangeOf_def)
  moreover have "plainDiff [''f'' \<mapsto> ex_entry ''a''] [''f'' \<mapsto> ex_entry ''a'', ''g'' \<mapsto> ex_entry ''c'']
      [Some (None, Some (ex_file ''g'' ''c''))]"
    by (auto simp: plainDiff_def newFile_def ex_file_def ex_entry_def effectivePath_def sideChangeOf_def)
  ultimately show
    "sideTree two_env two_blobs (two_tree ''base'') [''f'' \<mapsto> ex_entry ''a''] (ex_commit ''ours'') [''f'' \<mapsto> ex_entry ''b'']"
    "sideTree two_env two_blobs (two_tree ''base'') [''f'' \<mapsto> ex_entry ''a''] (ex_commit ''theirs'')
       [''f'' \<mapsto> ex_entry ''a'', ''g'' \<mapsto> ex_entry ''c'']"
    using two_flatten two_wf by (simp_all add: sideTree_def two_env_def ex_commit_def)
qed

lemma two_merge:
  "Merge two_env key_order key_listing two_blobs (ex_commit ''theirs'') (ex_commit ''ours'') (ex_commit ''base'') =
   Some \<lparr>mr_kind = CleanMerge, mr_tree = ''tree'', mr_heuristic = [], mr_conflicts = []\<rparr>"
proof -
  have "computeMergeDiff two_env (ex_commit ''base'') (ex_commit ''ours'') (ex_commit ''theirs'') = Some two_diff"
    using two_flatten by (simp add: computeMergeDiff_def two_env_def ex_commit_def two_diff_def two_tree_def
        effectivePath_def sideChangeOf_def ex_file_def)
  moreover have "key_order two_diff = [''f'', ''g'']" by (simp add: key_order_def two_diff_def)
  moreover have "applyChangesPerPath two_env [''f'', ''g''] two_blobs two_diff = Some
    \<lparr>ms_entries = [''f'' \<mapsto> ex_entry ''b'', ''g'' \<mapsto> ex_entry ''c''], ms_hard = [], ms_conflicted = [], ms_blobs = two_blobs\<rparr>"
    by (simp add: applyChangesPerPath_def applyPath_def two_diff_def takeSide_def sideChangeOf_def
        ex_file_def ex_entry_def)
  moreover have "key_listing [''f'' \<mapsto> ex_entry ''b'', ''g'' \<mapsto> ex_entry ''c''] = [''f'', ''g'']"
    by (simp add: key_listing_def)
  moreover have "\<exists>t. buildTree two_env [''f'', ''g''] [''f'' \<mapsto> ex_entry ''b'', ''g'' \<mapsto> ex_entry ''c''] = Some t"
    by (simp add: buildTree_def sortedDirs_def parentDirs_def two_env_def)
  moreover have "tryShortCircuit two_env (ex_commit ''theirs'') (ex_commit ''ours'') (ex_commit ''base'') = None"
    by (simp add: tryShortCircuit_def ex_commit_def)
  moreover have "me_tree_name two_env t = Some ''tree''" for t by (simp add: two_env_def)
  ultimately show ?thesis by (auto simp: Merge_def)
qed

lemma buildSideChanges_other:
  "buildSideChanges out chs = Some m \<Longrightarrow> p \<notin> changePath ` set chs \<Longrightarrow> m p = out p"
proof (induction chs arbitrary: out)
  case (Cons ch chs)
  then show ?case by (cases ch) (auto simp: Let_def split: prod.splits)
qed simp

text \<open>Git orders the entries of a tree by name, a directory as if its name ended with a slash.\<close>

definition gitSorted :: "gtree \<Rightarrow> bool" where
  "gitSorted t = (case t of GTree es \<Rightarrow>
     sorted (map (\<lambda>(n, e). case e of GDir _ \<Rightarrow> n @ ''/'' | _ \<Rightarrow> n) es))"

definition sorting_env :: merge_env where
  "sorting_env = two_env\<lparr>me_tree_name := (\<lambda>t. if gitSorted t then Some ''tree'' else None)\<rparr>"

definition clash_diff :: mergeDiff where
  "clash_diff = \<lparr>md_ours = [''a'' \<mapsto> sideChangeOf None (Some (ex_file ''a'' ''b''))],
     md_theirs = [''a/b'' \<mapsto> sideChangeOf None (Some (ex_file ''a/b'' ''c''))],
     md_merged = Map.empty\<rparr>"

definition rename_changes :: "change list" where
  "rename_changes = [Some (Some (ex_file ''f'' ''a''), Some (ex_file ''h'' ''a''))]"

definition rename_diff :: mergeDiff where
  "rename_diff = \<lparr>md_ours = [''h'' \<mapsto> sideChangeOf (Some (ex_file ''f'' ''a'')) (Some (ex_file ''h'' ''a''))],
     md_theirs = Map.empty, md_merged = [''f'' \<mapsto> ex_entry ''a'']\<rparr>"

subsection \<open>Properties\<close>



text \<open>
  C17: the order of the paths does not matter.  For a complete, content-addressed database, two walks
  over the same paths either both fail or end with the same entries and, up to order, the same hard
  conflicts and conflicted files.
\<close>

theorem applyChangesPerPath_order:
  assumes "contentAddressed env bl" and "complete bl d" and "distinct ps" and "mset ps = mset qs"
  shows "case (applyChangesPerPath env ps bl d, applyChangesPerPath env qs bl d) of
      (Some s, Some t) \<Rightarrow> ms_entries s = ms_entries t \<and> mset (ms_hard s) = mset (ms_hard t) \<and>
        mset (ms_conflicted s) = mset (ms_conflicted t)
    | (None, None) \<Rightarrow> True
    | _ \<Rightarrow> False"
proof -
  have set: "set ps = set qs" and dq: "distinct qs"
    using assms(3,4) by (metis set_mset_mset, metis mset_eq_imp_distinct_iff)
  note cat = mset_concat_map_perm[OF assms(4)]
  let ?st0 = "\<lparr>ms_entries = md_merged d, ms_hard = [], ms_conflicted = [], ms_blobs = bl\<rparr>"
  note oc = applyPaths_outcome[OF assms(1,2), of ?st0]
  show ?thesis
  proof (cases "\<exists>p \<in> set ps. outcomeAt env bl d p = Failed")
    case True
    with oc[of ps] oc[of qs] assms(3) dq set show ?thesis by (simp add: applyChangesPerPath_def)
  next
    case False
    with oc[of ps] oc[of qs] assms(3) dq set obtain b1 b2 where
      "applyPaths env d ps ?st0 = Some (pathsState env bl d ps ?st0 b1)"
      "applyPaths env d qs ?st0 = Some (pathsState env bl d qs ?st0 b2)" by auto
    with set show ?thesis by (simp add: applyChangesPerPath_def pathsState_def cat)
  qed
qed

theorem applyChangesPerPath_order_witness:
  "case (applyChangesPerPath two_env [''f'', ''g''] two_blobs two_diff,
         applyChangesPerPath two_env [''g'', ''f''] two_blobs two_diff) of
      (Some s, Some t) \<Rightarrow> ms_entries s = ms_entries t \<and> mset (ms_hard s) = mset (ms_hard t) \<and>
        mset (ms_conflicted s) = mset (ms_conflicted t)
    | (None, None) \<Rightarrow> True
    | _ \<Rightarrow> False"
proof (rule applyChangesPerPath_order[OF two_addressed])
  show "complete two_blobs two_diff" by (simp add: complete_def two_diff_def)
qed simp_all

text \<open>
  a failed write turns a conflict into a clean merge.  When auto-resolution cannot store a
  resolved file, its error is dropped and the placeholder with the conflict markers is still in the
  entries, so the merge of the example reports a clean merge of a file full of conflict markers;
  with the write succeeding it reports an auto-resolved file.
\<close>

theorem failed_write_commits_markers:
  "Merge (blank_env (\<lambda>c. c = ''a '')) ex_order ex_listing blank_blobs
     (ex_commit ''a  '') (ex_commit ''a '') (ex_commit ''a'') =
     Some \<lparr>mr_kind = CleanMerge, mr_tree = ex_blob ''<<<<<<< ours'', mr_heuristic = [], mr_conflicts = []\<rparr> \<and>
   Merge (blank_env (\<lambda>c. False)) ex_order ex_listing blank_blobs
     (ex_commit ''a  '') (ex_commit ''a '') (ex_commit ''a'') =
     Some \<lparr>mr_kind = SafeAutoResolve, mr_tree = ex_blob ''a '', mr_heuristic = ''whitespace'', mr_conflicts = []\<rparr>"
  by (simp add: blank_merge)



text \<open>
  a renamed file stays at its old path.  A change of our side from one name to another is
  recorded under the new name only; when nothing else touches the old name, the merged entries
  still have the base version there.
\<close>

theorem rename_keeps_old_path:
  assumes "contentAddressed env bl" and "complete bl d"
    and "buildSideChanges Map.empty chs = Some (md_ours d)" and "Some (Some f, Some g) \<in> set chs"
    and "f_name f \<notin> changePath ` set chs" and "md_theirs d (f_name f) = None"
    and "distinct ps" and "set ps = dom (md_ours d) \<union> dom (md_theirs d)"
    and "applyChangesPerPath env ps bl d = Some st"
  shows "f_name g \<noteq> f_name f \<and> ms_entries st (f_name f) = md_merged d (f_name f)"
proof
  show "f_name g \<noteq> f_name f"
  proof
    assume "f_name g = f_name f"
    then have "changePath (Some (Some f, Some g)) = f_name f"
      by (simp add: effectivePath_def sideChangeOf_def)
    with assms(4,5) show False by (metis image_eqI)
  qed
  have "md_ours d (f_name f) = None" using buildSideChanges_other[OF assms(3,5)] by simp
  then show "ms_entries st (f_name f) = md_merged d (f_name f)"
    using merged_state(1)[OF assms(1) refl assms(2,7,8,9), of "f_name f"] assms(6) by simp
qed

theorem rename_keeps_old_path_witness:
  "f_name (ex_file ''h'' ''a'') \<noteq> f_name (ex_file ''f'' ''a'') \<and>
   ms_entries \<lparr>ms_entries = [''f'' \<mapsto> ex_entry ''a'', ''h'' \<mapsto> ex_entry ''a''], ms_hard = [],
     ms_conflicted = [], ms_blobs = two_blobs\<rparr> (f_name (ex_file ''f'' ''a'')) =
   md_merged rename_diff (f_name (ex_file ''f'' ''a''))"
proof (rule rename_keeps_old_path[OF two_addressed])
  show "complete two_blobs rename_diff" by (simp add: complete_def rename_diff_def)
  show "buildSideChanges Map.empty rename_changes = Some (md_ours rename_diff)"
    by (simp add: rename_changes_def rename_diff_def sideChangeOf_def effectivePath_def ex_file_def)
  show "Some (Some (ex_file ''f'' ''a''), Some (ex_file ''h'' ''a'')) \<in> set rename_changes"
    by (simp add: rename_changes_def)
  show "f_name (ex_file ''f'' ''a'') \<notin> changePath ` set rename_changes"
    by (simp add: rename_changes_def sideChangeOf_def effectivePath_def ex_file_def)
  show "applyChangesPerPath two_env [''h''] two_blobs rename_diff = Some
    \<lparr>ms_entries = [''f'' \<mapsto> ex_entry ''a'', ''h'' \<mapsto> ex_entry ''a''], ms_hard = [],
     ms_conflicted = [], ms_blobs = two_blobs\<rparr>"
    by (simp add: applyChangesPerPath_def applyPath_def rename_diff_def takeSide_def sideChangeOf_def
        ex_file_def ex_entry_def)
qed (simp_all add: rename_diff_def)

text \<open>
  tree entries are not in git's order.  Children are sorted by name alone, so a directory next to
  a file whose name continues its name with a character below the slash comes out of order, and a
  storage that refuses unsorted trees makes the construction fail.
\<close>

theorem buildTree_unsorted:
  assumes "\<forall>t. \<not> gitSorted t \<longrightarrow> me_tree_name env t = None"
  shows "buildTree env [''src.txt'', ''src/a''] es = None"
proof -
  have dirs: "sortedDirs [''src.txt'', ''src/a''] = [''src'', []]"
    by code_simp
  have seed: "seedChildren es [''src.txt'', ''src/a''] =
    (\<lambda>_. [])([] := [(''src.txt'', GBlob (the (es ''src.txt'')))], ''src'' := [(''a'', GBlob (the (es ''src/a'')))])"
    by (simp add: seedChildren_def addChild_def dirOf_def baseOf_def fun_eq_iff)
  have "\<not> gitSorted (GTree [(''src'', GDir t), (''src.txt'', e)])" if "e = GBlob x" for t e x
    using that by (simp add: gitSorted_def)
  with assms have "me_tree_name env (GTree [(''src'', GDir t), (''src.txt'', GBlob x)]) = None" for t x
    by blast
  then show ?thesis
    unfolding buildTree_def dirs seed
    by (simp add: Let_def addChild_def dirOf_def baseOf_def split: option.split)
qed

theorem buildTree_unsorted_witness:
  "buildTree sorting_env [''src.txt'', ''src/a''] [''src.txt'' \<mapsto> ex_entry ''a'', ''src/a'' \<mapsto> ex_entry ''b''] = None"
  by (rule buildTree_unsorted) (simp add: sorting_env_def)

text \<open>
  a file and a directory of the same name.  Our side adds a file where their side adds a
  directory; no conflict is reported, and the tree that is built has two entries of one name.
\<close>

theorem file_directory_clash:
  "\<exists>st. applyChangesPerPath two_env [''a'', ''a/b''] two_blobs clash_diff = Some st \<and>
     ms_hard st = [] \<and> ms_conflicted st = [] \<and>
     buildTree two_env [''a'', ''a/b''] (ms_entries st) =
       Some (GTree [(''a'', GBlob (ex_entry ''b'')), (''a'', GDir (GTree [(''b'', GBlob (ex_entry ''c''))]))])"
proof -
  have "applyChangesPerPath two_env [''a'', ''a/b''] two_blobs clash_diff = Some
    \<lparr>ms_entries = [''a'' \<mapsto> ex_entry ''b'', ''a/b'' \<mapsto> ex_entry ''c''], ms_hard = [], ms_conflicted = [],
     ms_blobs = two_blobs\<rparr>"
    by (simp add: applyChangesPerPath_def applyPath_def clash_diff_def takeSide_def sideChangeOf_def
        ex_file_def ex_entry_def)
  moreover have "sortedDirs [''a'', ''a/b''] = [''a'', []]" by code_simp
  then have "buildTree two_env [''a'', ''a/b''] [''a'' \<mapsto> ex_entry ''b'', ''a/b'' \<mapsto> ex_entry ''c''] =
       Some (GTree [(''a'', GBlob (ex_entry ''b'')), (''a'', GDir (GTree [(''b'', GBlob (ex_entry ''c''))]))])"
    by (simp add: buildTree_def seedChildren_def addChild_def dirOf_def baseOf_def two_env_def Let_def)
  ultimately show ?thesis by simp
qed

end
