(* ===== verification/Store.thy ===== *)
theory Store
  imports StoreTypes Prelude
begin

text \<open>
  The relational store behind the portal, as far as the event log and the finalize flow use it
  (\<^verbatim>\<open>internal/db/store/sqlite_adapter.go\<close> over \<^verbatim>\<open>db/queries/sqlite\<close> and \<^verbatim>\<open>db/schema/sqlite.sql\<close>).
  A database is a record of tables; each adapter method is one function with the effect of its
  statement, the primary keys, unique indexes and checks of the schema included.  Anything else
  that makes a statement fail (a lost connection, a busy database, a violated foreign key) is a
  fault: callers run every statement through \<open>call\<close>, which consults a fault schedule indexed by
  the call site, so a theorem that quantifies over schedules covers every such failure.
\<close>

datatype store_error = ErrNotFound | ErrUniqueViolation | ErrOther

text \<open>A fault schedule: does the \<open>n\<close>-th call at this site fail?\<close>

type_synonym faults = "string \<Rightarrow> nat \<Rightarrow> bool"

definition no_faults :: faults where
  "no_faults site n = False"

definition call :: "faults \<Rightarrow> string \<Rightarrow> nat \<Rightarrow> store_error + 'a \<Rightarrow> store_error + 'a" where
  "call flt site n r = (if flt site n then Inl ErrOther else r)"

lemma call_no_faults [simp]: "call no_faults site n r = r"
  by (simp add: call_def no_faults_def)

subsection \<open>Rows and tables\<close>

record SessionMember =
  sm_org :: string
  sm_session :: string
  sm_account :: string
  sm_role :: string
  sm_joined_at :: time

record FinalizeLock =
  fl_id :: string
  fl_org :: string
  fl_session :: string
  fl_acquired_by :: string
  fl_acquired_at :: time
  fl_last_activity_at :: time
  fl_selected_commit_shas :: string
  fl_target_branch :: string
  fl_base_sha :: string
  fl_mode :: string
  fl_commit_message :: "string option"
  fl_superseded_by :: "string option"
  fl_released_at :: "time option"

record EventRow =
  ev_id :: string
  ev_org :: string
  ev_session :: string
  ev_seq :: int
  ev_type :: string
  ev_payload :: string
  ev_created_at :: time

record PresenceRow =
  pr_org :: string
  pr_session :: string
  pr_account :: string
  pr_ref :: string
  pr_current_sha :: string
  pr_last_active_at :: time

record db =
  d_sessions :: "string \<rightharpoonup> Session"
  d_org_members :: "(string \<times> string) list"
  d_session_members :: "SessionMember list"
  d_accounts :: "Account list"
  d_locks :: "FinalizeLock list"
  d_event_seq :: "string \<rightharpoonup> int"
  d_events :: "EventRow list"
  d_presence :: "string \<times> string \<times> string \<rightharpoonup> PresenceRow"

subsection \<open>Transactions\<close>

text \<open>
  \<^verbatim>\<open>WithTx\<close> runs the closure on the open transaction; an error of the closure or of the commit
  leaves the database as it was.
\<close>

definition WithTx :: "faults \<Rightarrow> ('d \<Rightarrow> 'e + ('a \<times> 'd)) \<Rightarrow> (store_error \<Rightarrow> 'e) \<Rightarrow> 'd \<Rightarrow> ('e + 'a) \<times> 'd" where
  "WithTx flt fn wrap d =
     (if flt ''begin tx'' 0 then (Inl (wrap ErrOther), d)
      else case fn d of
             Inl e \<Rightarrow> (Inl e, d)
           | Inr (a, d') \<Rightarrow>
               if flt ''commit tx'' 0 then (Inl (wrap ErrOther), d) else (Inr a, d'))"

lemma WithTx_rollback: "WithTx flt fn wrap d = (Inl e, d') \<Longrightarrow> d' = d"
  by (auto simp: WithTx_def split: if_splits sum.splits)

lemma WithTx_commit: "WithTx flt fn wrap d = (Inr a, d') \<Longrightarrow> fn d = Inr (a, d')"
  by (auto simp: WithTx_def split: if_splits sum.splits)

subsection \<open>Sessions and members\<close>

definition GetSession :: "db \<Rightarrow> string \<Rightarrow> string \<Rightarrow> store_error + Session" where
  "GetSession d org sid =
     (case d_sessions d sid of
        Some s \<Rightarrow> if s_org s = org then Inr s else Inl ErrNotFound
      | None \<Rightarrow> Inl ErrNotFound)"

text \<open>An \<^verbatim>\<open>UPDATE sessions ... WHERE org_id = ? AND id = ?\<close>; no matching row is not an error.\<close>

definition update_session :: "string \<Rightarrow> string \<Rightarrow> (Session \<Rightarrow> Session) \<Rightarrow> db \<Rightarrow> db" where
  "update_session org sid f d =
     (case d_sessions d sid of
        Some s \<Rightarrow> if s_org s = org then d\<lparr>d_sessions := (d_sessions d)(sid \<mapsto> f s)\<rparr> else d
      | None \<Rightarrow> d)"

definition UpdateSessionStatus :: "string \<Rightarrow> string \<Rightarrow> string \<Rightarrow> db \<Rightarrow> store_error + db" where
  "UpdateSessionStatus org sid st d = Inr (update_session org sid (s_status_update (\<lambda>_. st)) d)"

definition SetSessionEndReason ::
  "string \<Rightarrow> string \<Rightarrow> string option \<Rightarrow> time option \<Rightarrow> db \<Rightarrow> store_error + db"
where
  "SetSessionEndReason org sid reason at d =
     Inr (update_session org sid (\<lambda>s. s\<lparr>s_end_reason := reason, s_ended_at := at\<rparr>) d)"

definition SetFinalizeLock :: "string \<Rightarrow> string \<Rightarrow> string option \<Rightarrow> db \<Rightarrow> store_error + db" where
  "SetFinalizeLock org sid acc d =
     Inr (update_session org sid (s_finalize_locked_by_update (\<lambda>_. acc)) d)"

definition ClearFinalizeLock :: "string \<Rightarrow> string \<Rightarrow> db \<Rightarrow> store_error + db" where
  "ClearFinalizeLock org sid d =
     Inr (update_session org sid (s_finalize_locked_by_update (\<lambda>_. None)) d)"

definition GetOrgMember :: "db \<Rightarrow> string \<Rightarrow> string \<Rightarrow> store_error + (string \<times> string)" where
  "GetOrgMember d org acc =
     (if (org, acc) \<in> set (d_org_members d) then Inr (org, acc) else Inl ErrNotFound)"

definition GetSessionMember :: "db \<Rightarrow> string \<Rightarrow> string \<Rightarrow> string \<Rightarrow> store_error + SessionMember" where
  "GetSessionMember d org sid acc =
     (case find (\<lambda>m. sm_org m = org \<and> sm_session m = sid \<and> sm_account m = acc) (d_session_members d) of
        Some m \<Rightarrow> Inr m
      | None \<Rightarrow> Inl ErrNotFound)"

definition ListSessionMembers :: "db \<Rightarrow> string \<Rightarrow> string \<Rightarrow> store_error + SessionMember list" where
  "ListSessionMembers d org sid =
     Inr (sort_key sm_joined_at
            (filter (\<lambda>m. sm_org m = org \<and> sm_session m = sid) (d_session_members d)))"

definition GetAccountByEmail :: "db \<Rightarrow> string \<Rightarrow> store_error + Account" where
  "GetAccountByEmail d email =
     (case find (\<lambda>a. a_email a = email) (d_accounts d) of
        Some a \<Rightarrow> Inr a
      | None \<Rightarrow> Inl ErrNotFound)"

subsection \<open>Finalize locks\<close>

text \<open>The predicate of the unique partial index: neither released nor superseded.\<close>

definition lock_active :: "FinalizeLock \<Rightarrow> bool" where
  "lock_active l \<longleftrightarrow> fl_released_at l = None \<and> fl_superseded_by l = None"

definition active_locks :: "string \<Rightarrow> db \<Rightarrow> FinalizeLock list" where
  "active_locks sid d = filter (\<lambda>l. fl_session l = sid \<and> lock_active l) (d_locks d)"

definition valid_mode :: "string \<Rightarrow> bool" where
  "valid_mode m \<longleftrightarrow> m = ''squash'' \<or> m = ''preserve''"

definition InsertFinalizeLock :: "FinalizeLock \<Rightarrow> db \<Rightarrow> store_error + db" where
  "InsertFinalizeLock l d =
     (if \<not> valid_mode (fl_mode l) then Inl ErrOther
      else if fl_id l \<in> fl_id ` set (d_locks d) then Inl ErrUniqueViolation
      else if lock_active l \<and> active_locks (fl_session l) d \<noteq> [] then Inl ErrUniqueViolation
      else Inr (d\<lparr>d_locks := d_locks d @ [l]\<rparr>))"

definition GetFinalizeLockByID :: "db \<Rightarrow> string \<Rightarrow> store_error + FinalizeLock" where
  "GetFinalizeLockByID d i =
     (case find (\<lambda>l. fl_id l = i) (d_locks d) of Some l \<Rightarrow> Inr l | None \<Rightarrow> Inl ErrNotFound)"

definition GetActiveFinalizeLockForSession :: "db \<Rightarrow> string \<Rightarrow> store_error + FinalizeLock" where
  "GetActiveFinalizeLockForSession d sid =
     (case sort_key (\<lambda>l. - fl_acquired_at l) (active_locks sid d) of
        l # _ \<Rightarrow> Inr l
      | [] \<Rightarrow> Inl ErrNotFound)"

text \<open>An \<^verbatim>\<open>UPDATE finalize_locks ... WHERE id = ? AND ...\<close>.\<close>

definition update_locks ::
  "(FinalizeLock \<Rightarrow> bool) \<Rightarrow> (FinalizeLock \<Rightarrow> FinalizeLock) \<Rightarrow> db \<Rightarrow> db"
where
  "update_locks w f d = d\<lparr>d_locks := map (\<lambda>l. if w l then f l else l) (d_locks d)\<rparr>"

definition UpdateFinalizeLockCuration ::
  "string \<Rightarrow> string \<Rightarrow> string \<Rightarrow> string \<Rightarrow> string \<Rightarrow> string option \<Rightarrow> time \<Rightarrow> db \<Rightarrow> store_error + db"
where
  "UpdateFinalizeLockCuration i shas branch base mode msg at d =
     (if \<not> valid_mode mode \<and> i \<in> fl_id ` set (d_locks d) then Inl ErrOther
      else Inr (update_locks (\<lambda>l. fl_id l = i)
             (\<lambda>l. l\<lparr>fl_selected_commit_shas := shas, fl_target_branch := branch, fl_base_sha := base,
                    fl_mode := mode, fl_commit_message := msg, fl_last_activity_at := at\<rparr>) d))"

definition TouchFinalizeLock :: "string \<Rightarrow> time \<Rightarrow> db \<Rightarrow> store_error + db" where
  "TouchFinalizeLock i at d =
     Inr (update_locks (\<lambda>l. fl_id l = i) (fl_last_activity_at_update (\<lambda>_. at)) d)"

definition ReleaseLockRow :: "string \<Rightarrow> time \<Rightarrow> db \<Rightarrow> store_error + db" where
  "ReleaseLockRow i at d =
     Inr (update_locks (\<lambda>l. fl_id l = i \<and> fl_released_at l = None)
            (fl_released_at_update (\<lambda>_. Some at)) d)"

text \<open>The conditional release also returns the number of rows it changed.\<close>

definition ReleaseFinalizeLockIfStale ::
  "string \<Rightarrow> time \<Rightarrow> time \<Rightarrow> db \<Rightarrow> store_error + (nat \<times> db)"
where
  "ReleaseFinalizeLockIfStale i at cutoff d =
     (let w = (\<lambda>l. fl_id l = i \<and> fl_released_at l = None \<and> fl_last_activity_at l < cutoff) in
      Inr (length (filter w (d_locks d)),
           update_locks w (fl_released_at_update (\<lambda>_. Some at)) d))"

definition SupersedeFinalizeLock :: "string \<Rightarrow> string \<Rightarrow> db \<Rightarrow> store_error + db" where
  "SupersedeFinalizeLock i by_id d =
     Inr (update_locks (\<lambda>l. fl_id l = i) (fl_superseded_by_update (\<lambda>_. Some by_id)) d)"

subsection \<open>Event sequence numbers, events and presence\<close>

definition EnsureEventSeqRow :: "string \<Rightarrow> db \<Rightarrow> store_error + db" where
  "EnsureEventSeqRow sid d =
     Inr (case d_event_seq d sid of
            None \<Rightarrow> d\<lparr>d_event_seq := (d_event_seq d)(sid \<mapsto> 0)\<rparr>
          | Some _ \<Rightarrow> d)"

definition AllocateNextSeqN :: "string \<Rightarrow> int \<Rightarrow> db \<Rightarrow> store_error + (int \<times> db)" where
  "AllocateNextSeqN sid n d =
     (case d_event_seq d sid of
        None \<Rightarrow> Inl ErrNotFound
      | Some k \<Rightarrow> Inr (k + n, d\<lparr>d_event_seq := (d_event_seq d)(sid \<mapsto> k + n)\<rparr>))"

definition AllocateNextSeq :: "string \<Rightarrow> db \<Rightarrow> store_error + (int \<times> db)" where
  "AllocateNextSeq sid d =
     (case d_event_seq d sid of
        None \<Rightarrow> Inl ErrNotFound
      | Some k \<Rightarrow> Inr (k + 1, d\<lparr>d_event_seq := (d_event_seq d)(sid \<mapsto> k + 1)\<rparr>))"

definition InsertEvent :: "EventRow \<Rightarrow> db \<Rightarrow> store_error + db" where
  "InsertEvent e d =
     (if ev_id e \<in> ev_id ` set (d_events d)
         \<or> (ev_session e, ev_seq e) \<in> (\<lambda>x. (ev_session x, ev_seq x)) ` set (d_events d)
      then Inl ErrUniqueViolation
      else Inr (d\<lparr>d_events := d_events d @ [e]\<rparr>))"

text \<open>\<^verbatim>\<open>ORDER BY seq ASC LIMIT ?\<close>; SQLite reads a negative limit as no limit.\<close>

definition ListEventsSince :: "db \<Rightarrow> string \<Rightarrow> int \<Rightarrow> int \<Rightarrow> store_error + EventRow list" where
  "ListEventsSince d sid since lim =
     Inr (let rows = sort_key ev_seq (filter (\<lambda>e. ev_session e = sid \<and> since < ev_seq e) (d_events d)) in
          if lim < 0 then rows else take (nat lim) rows)"

definition UpsertPresence :: "PresenceRow \<Rightarrow> db \<Rightarrow> store_error + db" where
  "UpsertPresence p d =
     (let k = (pr_session p, pr_account p, pr_ref p) in
      Inr (d\<lparr>d_presence := (d_presence d)(k \<mapsto>
        (case d_presence d k of
           None \<Rightarrow> p
         | Some r \<Rightarrow> r\<lparr>pr_current_sha := pr_current_sha p, pr_last_active_at := pr_last_active_at p\<rparr>))\<rparr>))"

subsection \<open>Frames\<close>

text \<open>Which tables an operation leaves alone.\<close>

lemma update_session_frame [db_simps]:
  "d_locks (update_session org sid f d) = d_locks d"
  "d_event_seq (update_session org sid f d) = d_event_seq d"
  "d_events (update_session org sid f d) = d_events d"
  "d_org_members (update_session org sid f d) = d_org_members d"
  "d_session_members (update_session org sid f d) = d_session_members d"
  "d_accounts (update_session org sid f d) = d_accounts d"
  by (auto simp: update_session_def split: option.split)

lemma update_locks_frame [db_simps]:
  "d_sessions (update_locks w f d) = d_sessions d"
  "d_event_seq (update_locks w f d) = d_event_seq d"
  "d_events (update_locks w f d) = d_events d"
  "d_org_members (update_locks w f d) = d_org_members d"
  "d_session_members (update_locks w f d) = d_session_members d"
  "d_accounts (update_locks w f d) = d_accounts d"
  by (simp_all add: update_locks_def)

lemmas store_write_defs =
  UpdateSessionStatus_def SetSessionEndReason_def SetFinalizeLock_def ClearFinalizeLock_def
  TouchFinalizeLock_def ReleaseLockRow_def SupersedeFinalizeLock_def

lemmas store_read_defs =
  GetSession_def GetOrgMember_def GetSessionMember_def GetFinalizeLockByID_def
  GetActiveFinalizeLockForSession_def

end
