(* ===== verification/EventLog.thy ===== *)
theory EventLog
  imports Store GoJSON
begin

text \<open>
  The portal's event log (\<^verbatim>\<open>internal/portal/events/log.go\<close>): per-session sequence numbers allocated
  inside the transaction that inserts the events, and non-blocking fan-out to buffered subscriber
  channels after the commit.  The state is the database and the subscriber list.  Identifiers are
  drawn from \<open>ids\<close>, the clock reads \<open>now\<close>, and every statement may fail by the fault schedule.
\<close>

subsection \<open>Subscribers\<close>

record subscriber =
  sub_id :: nat
  sub_filter :: string
  sub_queue :: "EventRow list"

record log_state =
  l_subs :: "subscriber list"
  l_next_sub :: nat

definition chan_cap :: nat where "chan_cap = 64"

definition Subscribe :: "string \<Rightarrow> log_state \<Rightarrow> nat \<times> log_state" where
  "Subscribe typeFilter l =
     (l_next_sub l,
      l\<lparr>l_subs := l_subs l @ [\<lparr>sub_id = l_next_sub l, sub_filter = typeFilter, sub_queue = []\<rparr>],
        l_next_sub := Suc (l_next_sub l)\<rparr>)"

definition unsubscribe :: "nat \<Rightarrow> log_state \<Rightarrow> log_state" where
  "unsubscribe i l = l\<lparr>l_subs := remove1_by (\<lambda>s. sub_id s = i) (l_subs l)\<rparr>"

definition deliver :: "EventRow \<Rightarrow> subscriber \<Rightarrow> subscriber" where
  "deliver e s =
     (if sub_filter s \<noteq> [] \<and> sub_filter s \<noteq> ev_type e then s
      else if length (sub_queue s) < chan_cap then s\<lparr>sub_queue := sub_queue s @ [e]\<rparr>
      else s)"

definition fanOut :: "EventRow \<Rightarrow> log_state \<Rightarrow> log_state" where
  "fanOut e l = l\<lparr>l_subs := map (deliver e) (l_subs l)\<rparr>"

text \<open>The consumer takes the oldest buffered event from its channel.\<close>

definition recv :: "nat \<Rightarrow> log_state \<Rightarrow> log_state" where
  "recv i l = l\<lparr>l_subs := map (\<lambda>s. if sub_id s = i then s\<lparr>sub_queue := tl (sub_queue s)\<rparr> else s) (l_subs l)\<rparr>"

subsection \<open>Emitting\<close>

record DraftEvent =
  de_type :: string
  de_payload :: string

definition draft_row ::
  "(nat \<Rightarrow> string) \<Rightarrow> time \<Rightarrow> string \<Rightarrow> string \<Rightarrow> int \<Rightarrow> nat \<Rightarrow> DraftEvent \<Rightarrow> EventRow"
where
  "draft_row ids now org sid first i x =
     \<lparr>ev_id = ids i, ev_org = org, ev_session = sid, ev_seq = first + int i,
      ev_type = de_type x, ev_payload = de_payload x, ev_created_at = now\<rparr>"

fun insertDrafts ::
  "faults \<Rightarrow> (nat \<Rightarrow> string) \<Rightarrow> time \<Rightarrow> string \<Rightarrow> string \<Rightarrow> int \<Rightarrow> nat \<Rightarrow> DraftEvent list \<Rightarrow> db
   \<Rightarrow> store_error + db"
where
  "insertDrafts flt ids now org sid first i [] d = Inr d"
| "insertDrafts flt ids now org sid first i (x # xs) d =
     res_bind (call flt ''insert event'' i (InsertEvent (draft_row ids now org sid first i x) d))
       (insertDrafts flt ids now org sid first (Suc i) xs)"

definition insertTx ::
  "faults \<Rightarrow> (nat \<Rightarrow> string) \<Rightarrow> time \<Rightarrow> string \<Rightarrow> string \<Rightarrow> DraftEvent list \<Rightarrow> db \<Rightarrow> store_error + (int \<times> db)"
where
  "insertTx flt ids now org sid drafts d =
     res_bind (call flt ''ensure event_seq row'' 0 (EnsureEventSeqRow sid d)) (\<lambda>d1.
     res_bind (call flt ''allocate seqs'' 0 (AllocateNextSeqN sid (int (length drafts)) d1)) (\<lambda>(last, d2).
     let firstSeq = last - int (length drafts) + 1 in
     res_bind (insertDrafts flt ids now org sid firstSeq 0 drafts d2) (\<lambda>d3.
     Inr (firstSeq, d3))))"

definition draft_rows ::
  "(nat \<Rightarrow> string) \<Rightarrow> time \<Rightarrow> string \<Rightarrow> string \<Rightarrow> int \<Rightarrow> DraftEvent list \<Rightarrow> EventRow list"
where
  "draft_rows ids now org sid first drafts =
     map (\<lambda>(i, x). draft_row ids now org sid first i x) (enumerate 0 drafts)"

definition insertAndPublish ::
  "faults \<Rightarrow> (nat \<Rightarrow> string) \<Rightarrow> time \<Rightarrow> string \<Rightarrow> string \<Rightarrow> DraftEvent list \<Rightarrow> db \<times> log_state
   \<Rightarrow> (store_error + int \<times> string list \<times> time) \<times> db \<times> log_state"
where
  "insertAndPublish flt ids now org sid drafts = (\<lambda>(d, l).
     case WithTx flt (insertTx flt ids now org sid drafts) (\<lambda>e. e) d of
       (Inl e, d') \<Rightarrow> (Inl e, d', l)
     | (Inr firstSeq, d') \<Rightarrow>
         (Inr (firstSeq, map ids [0..<length drafts], now), d',
          fold fanOut (draft_rows ids now org sid firstSeq drafts) l))"

definition Emit ::
  "faults \<Rightarrow> (nat \<Rightarrow> string) \<Rightarrow> time \<Rightarrow> string \<Rightarrow> string \<Rightarrow> string \<Rightarrow> string \<Rightarrow> db \<times> log_state
   \<Rightarrow> (store_error + int) \<times> db \<times> log_state"
where
  "Emit flt ids now org sid ty payload w =
     apfst (map_sum (\<lambda>e. e) fst)
       (insertAndPublish flt ids now org sid [\<lparr>de_type = ty, de_payload = payload\<rparr>] w)"

definition EmitBatch ::
  "faults \<Rightarrow> (nat \<Rightarrow> string) \<Rightarrow> time \<Rightarrow> string \<Rightarrow> string \<Rightarrow> DraftEvent list \<Rightarrow> db \<times> log_state
   \<Rightarrow> (store_error + int) \<times> db \<times> log_state"
where
  "EmitBatch flt ids now org sid drafts w =
     (if drafts = [] then (Inr 0, w)
      else apfst (map_sum (\<lambda>e. e) fst) (insertAndPublish flt ids now org sid drafts w))"

subsection \<open>Presence\<close>

definition presence_payload :: "string \<Rightarrow> string \<Rightarrow> string \<Rightarrow> string" where
  "presence_payload acc ref sha =
     MarshalObject [(''account_id'', acc), (''ref'', ref), (''current_sha'', sha)]"

definition presence_row ::
  "string \<Rightarrow> time \<Rightarrow> string \<Rightarrow> string \<Rightarrow> string \<Rightarrow> string \<Rightarrow> string \<Rightarrow> int \<Rightarrow> EventRow"
where
  "presence_row i now org sid acc ref sha seq =
     \<lparr>ev_id = i, ev_org = org, ev_session = sid, ev_seq = seq, ev_type = ''presence.updated'',
      ev_payload = presence_payload acc ref sha, ev_created_at = now\<rparr>"

definition presenceTx ::
  "faults \<Rightarrow> string \<Rightarrow> time \<Rightarrow> string \<Rightarrow> string \<Rightarrow> string \<Rightarrow> string \<Rightarrow> string \<Rightarrow> db \<Rightarrow> store_error + (int \<times> db)"
where
  "presenceTx flt i now org sid acc ref sha d =
     res_bind (call flt ''upsert presence'' 0
       (UpsertPresence \<lparr>pr_org = org, pr_session = sid, pr_account = acc, pr_ref = ref,
                        pr_current_sha = sha, pr_last_active_at = now\<rparr> d)) (\<lambda>d1.
     res_bind (call flt ''ensure event_seq row'' 0 (EnsureEventSeqRow sid d1)) (\<lambda>d2.
     res_bind (call flt ''allocate seq'' 0 (AllocateNextSeq sid d2)) (\<lambda>(seq, d3).
     res_bind (call flt ''insert event'' 0
       (InsertEvent (presence_row i now org sid acc ref sha seq) d3)) (\<lambda>d4.
     Inr (seq, d4)))))"

definition UpdatePresence ::
  "faults \<Rightarrow> string \<Rightarrow> time \<Rightarrow> string \<Rightarrow> string \<Rightarrow> string \<Rightarrow> string \<Rightarrow> string \<Rightarrow> db \<times> log_state
   \<Rightarrow> (store_error + unit) \<times> db \<times> log_state"
where
  "UpdatePresence flt i now org sid acc ref sha = (\<lambda>(d, l).
     case WithTx flt (presenceTx flt i now org sid acc ref sha) (\<lambda>e. e) d of
       (Inl e, d') \<Rightarrow> (Inl e, d', l)
     | (Inr seq, d') \<Rightarrow> (Inr (), d', fanOut (presence_row i now org sid acc ref sha seq) l))"

definition ListSince :: "faults \<Rightarrow> db \<Rightarrow> string \<Rightarrow> int \<Rightarrow> int \<Rightarrow> store_error + EventRow list" where
  "ListSince flt d sid since lim = call flt ''list events'' 0 (ListEventsSince d sid since lim)"

subsection \<open>Delivery to a subscriber\<close>

definition wants :: "subscriber \<Rightarrow> EventRow \<Rightarrow> bool" where
  "wants s e \<longleftrightarrow> sub_filter s = [] \<or> sub_filter s = ev_type e"

lemma deliver_wants:
  "deliver e s =
     (if wants s e \<and> length (sub_queue s) < chan_cap then s\<lparr>sub_queue := sub_queue s @ [e]\<rparr> else s)"
  by (auto simp: deliver_def wants_def)

lemma wants_queue [simp]: "wants (s\<lparr>sub_queue := q\<rparr>) = wants s"
  by (simp add: fun_eq_iff wants_def)

lemma fold_deliver:
  "fold deliver es s =
     s\<lparr>sub_queue := sub_queue s @ take (chan_cap - length (sub_queue s)) (filter (wants s) es)\<rparr>"
proof (induction es arbitrary: s)
  case Nil
  then show ?case by simp
next
  case (Cons e es)
  show ?case
    by (auto simp: Cons.IH deliver_wants[of e s] take_Cons' Suc_diff_Suc)
qed

lemma fold_fanOut: "fold fanOut es l = l\<lparr>l_subs := map (fold deliver es) (l_subs l)\<rparr>"
  by (induction es arbitrary: l) (auto simp: fanOut_def)

subsection \<open>What a committed batch does\<close>

lemma insertDrafts_Inr:
  "insertDrafts flt ids now org sid first i xs d = Inr d' \<Longrightarrow>
     d' = d\<lparr>d_events := d_events d @ map (\<lambda>(j, x). draft_row ids now org sid first j x) (enumerate i xs)\<rparr>"
proof (induction xs arbitrary: i d)
  case Nil
  then show ?case by simp
next
  case (Cons x xs)
  then have "insertDrafts flt ids now org sid first (Suc i) xs
      (d\<lparr>d_events := d_events d @ [draft_row ids now org sid first i x]\<rparr>) = Inr d'"
    by (auto simp: res_bind_Inr_iff call_def InsertEvent_def split: if_splits)
  from Cons.IH[OF this] show ?case by simp
qed

definition next_seq :: "db \<Rightarrow> string \<Rightarrow> int" where
  "next_seq d sid = (case d_event_seq d sid of None \<Rightarrow> 0 | Some k \<Rightarrow> k)"

lemma EnsureEventSeqRow_eq:
  "EnsureEventSeqRow sid d = Inr (d\<lparr>d_event_seq := (d_event_seq d)(sid \<mapsto> next_seq d sid)\<rparr>)"
  by (auto simp: EnsureEventSeqRow_def next_seq_def fun_upd_idem split: option.split)

lemma Allocate_ensured:
  "AllocateNextSeqN sid n (d\<lparr>d_event_seq := m(sid \<mapsto> k)\<rparr>) = Inr (k + n, d\<lparr>d_event_seq := m(sid \<mapsto> k + n)\<rparr>)"
  "AllocateNextSeq sid (d\<lparr>d_event_seq := m(sid \<mapsto> k)\<rparr>) = Inr (k + 1, d\<lparr>d_event_seq := m(sid \<mapsto> k + 1)\<rparr>)"
  by (simp_all add: AllocateNextSeqN_def AllocateNextSeq_def)

lemma call_Inr_iff: "call flt site n r = Inr x \<longleftrightarrow> \<not> flt site n \<and> r = Inr x"
  by (simp add: call_def)

lemma insertTx_Inr:
  assumes "insertTx flt ids now org sid xs d = Inr (first, d')"
  shows "first = next_seq d sid + 1"
    and "d' = d\<lparr>d_event_seq := (d_event_seq d)(sid \<mapsto> next_seq d sid + int (length xs)),
                d_events := d_events d @ draft_rows ids now org sid first xs\<rparr>"
proof -
  let ?d2 = "d\<lparr>d_event_seq := (d_event_seq d)(sid \<mapsto> next_seq d sid + int (length xs))\<rparr>"
  from assms have f: "first = next_seq d sid + 1"
    and i: "insertDrafts flt ids now org sid (next_seq d sid + 1) 0 xs ?d2 = Inr d'"
    unfolding insertTx_def res_bind_Inr_iff call_Inr_iff EnsureEventSeqRow_eq
    by (auto simp: call_Inr_iff Allocate_ensured res_bind_Inr_iff Let_def simp del: fun_upd_apply)
  show "first = next_seq d sid + 1" by (fact f)
  show "d' = d\<lparr>d_event_seq := (d_event_seq d)(sid \<mapsto> next_seq d sid + int (length xs)),
                d_events := d_events d @ draft_rows ids now org sid first xs\<rparr>"
    using insertDrafts_Inr[OF i] by (simp add: draft_rows_def f)
qed

lemma UpsertPresence_frame:
  assumes "UpsertPresence p d = Inr d'"
  shows "d_event_seq d' = d_event_seq d" "d_events d' = d_events d" "d_locks d' = d_locks d"
    "d_sessions d' = d_sessions d" "next_seq d' = next_seq d"
    "map_option pr_current_sha (d_presence d' (pr_session p, pr_account p, pr_ref p)) = Some (pr_current_sha p)"
  using assms by (auto simp: UpsertPresence_def Let_def next_seq_def fun_eq_iff split: option.splits)

lemma presenceTx_Inr:
  assumes "presenceTx flt i now org sid acc ref sha d = Inr (seq, d')"
  shows "seq = next_seq d sid + 1"
    and "d_event_seq d' = (d_event_seq d)(sid \<mapsto> seq)"
    and "d_events d' = d_events d @ [presence_row i now org sid acc ref sha seq]"
    and "d_locks d' = d_locks d" and "d_sessions d' = d_sessions d"
    and "map_option pr_current_sha (d_presence d' (sid, acc, ref)) = Some sha"
proof -
  let ?p = "\<lparr>pr_org = org, pr_session = sid, pr_account = acc, pr_ref = ref,
             pr_current_sha = sha, pr_last_active_at = now\<rparr>"
  from assms obtain d1 where u: "UpsertPresence ?p d = Inr d1"
    and s: "seq = next_seq d1 sid + 1"
    and e: "InsertEvent (presence_row i now org sid acc ref sha seq)
              (d1\<lparr>d_event_seq := (d_event_seq d1)(sid \<mapsto> seq)\<rparr>) = Inr d'"
    unfolding presenceTx_def res_bind_Inr_iff call_Inr_iff EnsureEventSeqRow_eq
    by (auto simp: call_Inr_iff Allocate_ensured res_bind_Inr_iff simp del: fun_upd_apply)
  note fr = UpsertPresence_frame[OF u]
  from e have d': "d' = d1\<lparr>d_event_seq := (d_event_seq d1)(sid \<mapsto> seq),
      d_events := d_events d1 @ [presence_row i now org sid acc ref sha seq]\<rparr>"
    by (auto simp: InsertEvent_def split: if_splits)
  show "seq = next_seq d sid + 1" using s fr by simp
  show "d_event_seq d' = (d_event_seq d)(sid \<mapsto> seq)"
    "d_events d' = d_events d @ [presence_row i now org sid acc ref sha seq]"
    "d_locks d' = d_locks d" "d_sessions d' = d_sessions d"
    "map_option pr_current_sha (d_presence d' (sid, acc, ref)) = Some sha"
    using fr by (simp_all add: d')
qed

subsection \<open>The invariant\<close>

definition session_seqs :: "db \<Rightarrow> string \<Rightarrow> int list" where
  "session_seqs d sid = map ev_seq (filter (\<lambda>e. ev_session e = sid) (d_events d))"

definition log_inv :: "db \<Rightarrow> bool" where
  "log_inv d \<longleftrightarrow> (\<forall>sid. 0 \<le> next_seq d sid \<and> session_seqs d sid = [1..next_seq d sid])"

definition sub_inv :: "log_state \<Rightarrow> bool" where
  "sub_inv l \<longleftrightarrow> (\<forall>s \<in> set (l_subs l). length (sub_queue s) \<le> chan_cap \<and> list_all (wants s) (sub_queue s))"

lemma seqs_draft_rows:
  "map ev_seq (draft_rows ids now org sid first xs) = [first..first + int (length xs) - 1]"
  by (rule nth_equalityI)
     (auto simp: draft_rows_def draft_row_def nth_enumerate_eq case_prod_unfold)

lemma session_draft_rows: "e \<in> set (draft_rows ids now org sid first xs) \<Longrightarrow> ev_session e = sid"
  by (auto simp: draft_rows_def draft_row_def)

lemma upto_append:
  assumes "0 \<le> k" "0 \<le> n"
  shows "[1..k] @ [k + 1..k + n] = [1..k + (n::int)]"
proof (cases "k = 0")
  case True
  then show ?thesis by simp
next
  case False
  with assms show ?thesis using upto_split2[of 1 k "k + n"] by simp
qed

lemma log_inv_append:
  assumes inv: "log_inv d" and n: "0 \<le> n"
    and seq: "d_event_seq d' = (d_event_seq d)(sid \<mapsto> next_seq d sid + n)"
    and ev: "d_events d' = d_events d @ rows"
    and rows: "\<And>e. e \<in> set rows \<Longrightarrow> ev_session e = sid"
      "map ev_seq rows = [next_seq d sid + 1..next_seq d sid + n]"
  shows "log_inv d'"
  unfolding log_inv_def
proof (intro allI)
  fix s
  have k: "0 \<le> next_seq d s" "session_seqs d s = [1..next_seq d s]"
    using inv by (auto simp: log_inv_def)
  show "0 \<le> next_seq d' s \<and> session_seqs d' s = [1..next_seq d' s]"
  proof (cases "s = sid")
    case True
    have "filter (\<lambda>e. ev_session e = sid) rows = rows"
      using rows(1) by (simp add: filter_id_conv)
    moreover have "next_seq d' sid = next_seq d sid + n" by (simp add: next_seq_def seq)
    ultimately show ?thesis
      using True k n upto_append[of "next_seq d sid" n] by (simp add: session_seqs_def ev rows(2))
  next
    case False
    then have "filter (\<lambda>e. ev_session e = s) rows = []"
      using rows(1) by (auto simp: filter_empty_conv)
    moreover have "next_seq d' s = next_seq d s" using False by (simp add: next_seq_def seq)
    ultimately show ?thesis using k by (simp add: session_seqs_def ev)
  qed
qed

lemma insertAndPublish_Inl:
  "insertAndPublish flt ids now org sid xs (d, l) = (Inl e, d', l') \<Longrightarrow> d' = d \<and> l' = l"
  by (auto simp: insertAndPublish_def dest: WithTx_rollback split: prod.splits sum.splits)

lemma insertAndPublish_Inr:
  assumes "insertAndPublish flt ids now org sid xs (d, l) = (Inr (first, is, t), d', l')"
  shows "first = next_seq d sid + 1"
    and "d' = d\<lparr>d_event_seq := (d_event_seq d)(sid \<mapsto> next_seq d sid + int (length xs)),
                d_events := d_events d @ draft_rows ids now org sid first xs\<rparr>"
    and "l' = fold fanOut (draft_rows ids now org sid first xs) l"
proof -
  have tx: "insertTx flt ids now org sid xs d = Inr (first, d')"
    and l': "l' = fold fanOut (draft_rows ids now org sid first xs) l"
    using assms by (auto simp: insertAndPublish_def dest: WithTx_commit split: prod.splits sum.splits)
  show "first = next_seq d sid + 1" by (rule insertTx_Inr(1)[OF tx])
  show "d' = d\<lparr>d_event_seq := (d_event_seq d)(sid \<mapsto> next_seq d sid + int (length xs)),
                d_events := d_events d @ draft_rows ids now org sid first xs\<rparr>"
    by (rule insertTx_Inr(2)[OF tx])
  show "l' = fold fanOut (draft_rows ids now org sid first xs) l" by (fact l')
qed

lemma insertAndPublish_frame:
  assumes "insertAndPublish flt ids now org sid xs (d, l) = (r, d', l')"
  shows "d_locks d' = d_locks d" "d_sessions d' = d_sessions d"
  using assms insertAndPublish_Inl insertAndPublish_Inr(2)
  by (cases r; fastforce)+

lemma log_inv_insertAndPublish:
  assumes "log_inv d" and r: "insertAndPublish flt ids now org sid xs (d, l) = (r, d', l')"
  shows "log_inv d'"
proof (cases r)
  case (Inl e)
  with r assms(1) show ?thesis using insertAndPublish_Inl by metis
next
  case (Inr q)
  then obtain first "is" t where "r = Inr (first, is, t)" by (cases q) auto
  note tx = insertAndPublish_Inr[OF r[unfolded this]]
  show ?thesis
    by (rule log_inv_append[OF assms(1), of "int (length xs)" _ sid "draft_rows ids now org sid first xs"])
       (auto simp: tx(1,2) seqs_draft_rows session_draft_rows)
qed

lemma log_inv_UpdatePresence:
  assumes "log_inv d" and "UpdatePresence flt i now org sid acc ref sha (d, l) = (r, d', l')"
  shows "log_inv d'"
proof (cases "WithTx flt (presenceTx flt i now org sid acc ref sha) (\<lambda>e. e) d")
  case (Pair q d'')
  show ?thesis
  proof (cases q)
    case (Inl e)
    with Pair assms WithTx_rollback[of flt _ "\<lambda>e. e" d e d''] show ?thesis
      by (auto simp: UpdatePresence_def)
  next
    case (Inr seq)
    with Pair assms(2) have d': "d' = d''" by (auto simp: UpdatePresence_def)
    have "presenceTx flt i now org sid acc ref sha d = Inr (seq, d')"
      using WithTx_commit[of flt _ "\<lambda>e. e" d seq d''] Pair Inr d' by simp
    note tx = presenceTx_Inr[OF this]
    show ?thesis
      by (rule log_inv_append[OF assms(1), of 1 _ sid "[presence_row i now org sid acc ref sha seq]"])
         (use tx in \<open>auto simp: presence_row_def\<close>)
  qed
qed

lemma sub_inv_fanOut: "sub_inv l \<Longrightarrow> sub_inv (fanOut e l)"
  by (auto simp: sub_inv_def fanOut_def deliver_wants)

lemma sub_inv_fold_fanOut: "sub_inv l \<Longrightarrow> sub_inv (fold fanOut es l)"
  by (induction es arbitrary: l) (auto intro: sub_inv_fanOut)

lemma sub_inv_insertAndPublish:
  "sub_inv l \<Longrightarrow> insertAndPublish flt ids now org sid xs (d, l) = (r, d', l') \<Longrightarrow> sub_inv l'"
  by (auto simp: insertAndPublish_def sub_inv_fold_fanOut split: prod.splits sum.splits)

lemma sub_inv_UpdatePresence:
  "sub_inv l \<Longrightarrow> UpdatePresence flt i now org sid acc ref sha (d, l) = (r, d', l') \<Longrightarrow> sub_inv l'"
  by (auto simp: UpdatePresence_def sub_inv_fanOut split: prod.splits sum.splits)

subsection \<open>The log as a transition system\<close>

inductive log_step :: "db \<times> log_state \<Rightarrow> db \<times> log_state \<Rightarrow> bool" where
  emit: "insertAndPublish flt ids now org sid xs w = (r, w') \<Longrightarrow> log_step w w'"
| presence: "UpdatePresence flt i now org sid acc ref sha w = (r, w') \<Longrightarrow> log_step w w'"
| publish: "log_step (d, l) (d, fanOut e l)"
| subscribe: "Subscribe ty l = (i, l') \<Longrightarrow> log_step (d, l) (d, l')"
| unsub: "log_step (d, l) (d, unsubscribe i l)"
| receive: "log_step (d, l) (d, recv i l)"

definition log_start :: "db \<times> log_state \<Rightarrow> bool" where
  "log_start w \<longleftrightarrow> d_events (fst w) = [] \<and> d_event_seq (fst w) = Map.empty \<and> l_subs (snd w) = []"

definition log_ok :: "db \<times> log_state \<Rightarrow> bool" where
  "log_ok w \<longleftrightarrow> log_inv (fst w) \<and> sub_inv (snd w)"

lemma log_ok_start: "log_start w \<Longrightarrow> log_ok w"
  by (auto simp: log_start_def log_ok_def log_inv_def sub_inv_def session_seqs_def next_seq_def)

lemma set_tl_in: "x \<in> set (tl xs) \<Longrightarrow> x \<in> set xs"
  by (cases xs) auto

lemma log_ok_step: "log_step w w' \<Longrightarrow> log_ok w \<Longrightarrow> log_ok w'"
proof (induction rule: log_step.induct)
  case (emit flt ids now org sid xs w r w')
  then show ?case
    by (cases w; cases w') (auto simp: log_ok_def intro: log_inv_insertAndPublish sub_inv_insertAndPublish)
next
  case (presence flt i now org sid acc ref sha w r w')
  then show ?case
    by (cases w; cases w') (auto simp: log_ok_def intro: log_inv_UpdatePresence sub_inv_UpdatePresence)
next
  case (publish d l e)
  then show ?case by (simp add: log_ok_def sub_inv_fanOut)
next
  case (subscribe ty l i l' d)
  then show ?case by (auto simp: log_ok_def sub_inv_def Subscribe_def)
next
  case (unsub d l i)
  then show ?case
    using set_remove1_by[of "\<lambda>s. sub_id s = i" "l_subs l"]
    by (auto simp: log_ok_def sub_inv_def unsubscribe_def)
next
  case (receive d l i)
  then show ?case
    by (auto simp: log_ok_def sub_inv_def recv_def list_all_iff) (blast dest: set_tl_in)
qed

interpretation log_sys: invariant_system log_start log_step log_ok
  by unfold_locales (auto intro: log_ok_start log_ok_step)

text \<open>
  C6: Sequence numbers are gapless and collision-free.  In every state reachable by emitting single
  events and batches, updating presence and (un)subscribing, with any failures of the statements
  on the way, the events of a session carry the numbers 1, 2, ..., n in the order of their
  insertion, where n is the session's counter.
\<close>
theorem event_seqs_gapless:
  assumes "reachable log_start log_step (d, l)"
  shows "map ev_seq (filter (\<lambda>e. ev_session e = sid) (d_events d)) = [1..next_seq d sid]"
  using log_sys.reachable_inv[OF assms] by (simp add: log_ok_def log_inv_def session_seqs_def)

definition empty_db :: db where
  "empty_db = \<lparr>d_sessions = Map.empty, d_org_members = [], d_session_members = [], d_accounts = [],
     d_locks = [], d_event_seq = Map.empty, d_events = [], d_presence = Map.empty\<rparr>"

definition empty_log :: log_state where
  "empty_log = \<lparr>l_subs = [], l_next_sub = 0\<rparr>"

definition demo_drafts :: "DraftEvent list" where
  "demo_drafts = [\<lparr>de_type = ''commit.arrived'', de_payload = ''1''\<rparr>, \<lparr>de_type = ''ref.updated'', de_payload = ''2''\<rparr>]"

definition demo_ids :: "nat \<Rightarrow> string" where
  "demo_ids i = replicate i CHR ''x''"

definition demo_world :: "db \<times> log_state" where
  "demo_world = snd (EmitBatch no_faults demo_ids 5 ''o'' ''s'' demo_drafts
     (empty_db, snd (Subscribe [] empty_log)))"

lemma demo_world_reachable: "reachable log_start log_step demo_world"
proof -
  have "log_start (empty_db, empty_log)" by (simp add: log_start_def empty_db_def empty_log_def)
  then have "reachable log_start log_step (empty_db, empty_log)" by (rule reach_init)
  moreover have "log_step (empty_db, empty_log) (empty_db, snd (Subscribe [] empty_log))"
    by (rule log_step.subscribe) (rule prod.collapse[symmetric])
  moreover have "log_step (empty_db, snd (Subscribe [] empty_log)) demo_world"
    unfolding demo_world_def EmitBatch_def
    by (rule log_step.emit) (simp add: demo_drafts_def prod_eq_iff)
  ultimately show ?thesis by (meson reach_step)
qed

theorem event_seqs_gapless_witness:
  "map ev_seq (filter (\<lambda>e. ev_session e = ''s'') (d_events (fst demo_world))) = [1..next_seq (fst demo_world) ''s'']
   \<and> next_seq (fst demo_world) ''s'' = 2"
proof -
  have "next_seq (fst demo_world) ''s'' = 2" by code_simp
  then show ?thesis
    using event_seqs_gapless[of "fst demo_world" "snd demo_world" "''s''"] demo_world_reachable by simp
qed

text \<open>
  C7: A batch is all or nothing, and published exactly when it is stored.  If the call fails, at
  whatever statement, neither the database nor any subscriber has changed.  If it succeeds, the
  rows appended are the drafts in order, numbered from the counter's successor, and each
  subscriber's buffer has grown by the rows its filter admits, oldest first, up to its capacity
  of 64.
\<close>
theorem insertAndPublish_atomic:
  "case insertAndPublish flt ids now org sid xs (d, l) of
     (Inl e, d', l') \<Rightarrow> d' = d \<and> l' = l
   | (Inr (first, _, _), d', l') \<Rightarrow>
       first = next_seq d sid + 1
       \<and> d' = d\<lparr>d_event_seq := (d_event_seq d)(sid \<mapsto> next_seq d sid + int (length xs)),
                 d_events := d_events d @ draft_rows ids now org sid first xs\<rparr>
       \<and> l' = l\<lparr>l_subs := map (\<lambda>s. s\<lparr>sub_queue := sub_queue s @
              take (chan_cap - length (sub_queue s))
                (filter (wants s) (draft_rows ids now org sid first xs))\<rparr>) (l_subs l)\<rparr>"
proof (cases "insertAndPublish flt ids now org sid xs (d, l)")
  case (fields r d' l')
  show ?thesis
  proof (cases r)
    case (Inl e)
    with fields insertAndPublish_Inl[of flt ids now org sid xs d l e d' l'] show ?thesis by simp
  next
    case (Inr q)
    then obtain first "is" t where r: "r = Inr (first, is, t)" by (cases q) auto
    note tx = insertAndPublish_Inr[OF fields[unfolded r]]
    show ?thesis unfolding fields r using tx by (simp add: fold_fanOut fold_deliver)
  qed
qed

text \<open>
  C20: A client that polls with the last number it has seen misses nothing and sees nothing twice:
  a page holds exactly the events of the session numbered from the cursor's successor up to the
  page limit or the end of the log, in order.
\<close>
theorem ListSince_window:
  assumes "reachable log_start log_step (d, l)" and "0 \<le> since" and "0 \<le> lim"
    and "ListSince flt d sid since lim = Inr rows"
  shows "map ev_seq rows = [since + 1..min (next_seq d sid) (since + lim)]
    \<and> set rows \<subseteq> set (filter (\<lambda>e. ev_session e = sid) (d_events d))"
proof -
  let ?es = "filter (\<lambda>e. ev_session e = sid) (d_events d)"
  let ?f = "filter (\<lambda>e. ev_session e = sid \<and> since < ev_seq e) (d_events d)"
  have seqs: "map ev_seq ?es = [1..next_seq d sid]" and k: "0 \<le> next_seq d sid"
    using log_sys.reachable_inv[OF assms(1)] by (auto simp: log_ok_def log_inv_def session_seqs_def)
  have "?f = filter (\<lambda>e. since < ev_seq e) ?es" by (simp add: conj_commute)
  moreover have "map ev_seq (filter (\<lambda>e. since < ev_seq e) ?es) = filter (\<lambda>x. since < x) (map ev_seq ?es)"
    by (simp add: filter_map comp_def)
  ultimately have f: "map ev_seq ?f = filter (\<lambda>x. since < x) [1..next_seq d sid]"
    by (simp only: seqs)
  have win: "filter (\<lambda>x. since < x) [1..n] = [since + 1..n]" if "0 \<le> n" for n
  proof (rule sorted_distinct_set_unique)
    show "sorted (filter (\<lambda>x. since < x) [1..n])" by (simp add: sorted_wrt_filter)
  qed (use assms(2) in auto)
  have so: "sort_key ev_seq ?f = ?f"
    by (rule sort_key_id_if_sorted) (simp add: f win[OF k])
  have rows: "rows = take (nat lim) ?f"
    using assms(3,4) by (auto simp: ListSince_def call_def ListEventsSince_def so split: if_splits)
  have tk: "take (nat lim) [since + 1..n] = [since + 1..min n (since + lim)]" for n
  proof (rule nth_equalityI)
    show "length (take (nat lim) [since + 1..n]) = length [since + 1..min n (since + lim)]"
      using assms(3) by auto
    fix i assume "i < length (take (nat lim) [since + 1..n])"
    then have "int i < n - since" "int i < lim" by auto
    then show "take (nat lim) [since + 1..n] ! i = [since + 1..min n (since + lim)] ! i"
      using assms(3) by (simp add: nth_upto)
  qed
  have "map ev_seq rows = take (nat lim) (map ev_seq ?f)" by (simp only: rows take_map)
  also have "\<dots> = [since + 1..min (next_seq d sid) (since + lim)]" by (simp only: f win[OF k] tk)
  finally show ?thesis
    unfolding rows using set_take_subset[of "nat lim" ?f] by auto
qed

theorem ListSince_window_witness:
  "\<exists>rows. ListSince no_faults (fst demo_world) ''s'' 1 10 = Inr rows
     \<and> map ev_seq rows = [1 + 1..min (next_seq (fst demo_world) ''s'') (1 + 10)]"
proof -
  obtain rows where r: "ListSince no_faults (fst demo_world) ''s'' 1 10 = Inr rows"
    by (simp add: ListSince_def call_def no_faults_def ListEventsSince_def)
  from ListSince_window[of "fst demo_world" "snd demo_world" 1 10 no_faults "''s''" rows]
  show ?thesis using r demo_world_reachable by simp
qed

lemma draft_row_sel:
  "ev_id (draft_row ids now org sid first i x) = ids i"
  "ev_session (draft_row ids now org sid first i x) = sid"
  "ev_seq (draft_row ids now org sid first i x) = first + int i"
  by (simp_all add: draft_row_def)

lemma insertDrafts_succeeds:
  assumes "\<And>e. e \<in> set (d_events d) \<Longrightarrow> ev_session e = sid \<Longrightarrow> ev_seq e < first + int i"
    and "inj_on ids {i..<i + length xs}"
    and "\<And>j. i \<le> j \<Longrightarrow> j < i + length xs \<Longrightarrow> ids j \<notin> ev_id ` set (d_events d)"
  shows "\<exists>d'. insertDrafts no_faults ids now org sid first i xs d = Inr d'"
  using assms
proof (induction xs arbitrary: i d)
  case Nil
  then show ?case by simp
next
  case (Cons x xs)
  let ?r = "draft_row ids now org sid first i x"
  have "InsertEvent ?r d = Inr (d\<lparr>d_events := d_events d @ [?r]\<rparr>)"
    using Cons.prems(1) Cons.prems(3)[of i] by (fastforce simp: InsertEvent_def draft_row_def)
  moreover have "\<exists>d'. insertDrafts no_faults ids now org sid first (Suc i) xs
      (d\<lparr>d_events := d_events d @ [?r]\<rparr>) = Inr d'"
  proof (rule Cons.IH)
    fix e assume "e \<in> set (d_events (d\<lparr>d_events := d_events d @ [?r]\<rparr>))" "ev_session e = sid"
    then consider "e \<in> set (d_events d)" "ev_session e = sid" | "e = ?r" by auto
    then show "ev_seq e < first + int (Suc i)"
    proof cases
      case 1
      with Cons.prems(1)[of e] show ?thesis by simp
    next
      case 2
      show ?thesis unfolding 2 draft_row_sel by simp
    qed
  next
    show "inj_on ids {Suc i..<Suc i + length xs}"
      by (rule inj_on_subset[OF Cons.prems(2)]) auto
  next
    fix j assume j: "Suc i \<le> j" "j < Suc i + length xs"
    then have "ids j \<noteq> ids i" using Cons.prems(2) by (auto dest: inj_onD)
    then show "ids j \<notin> ev_id ` set (d_events (d\<lparr>d_events := d_events d @ [?r]\<rparr>))"
      using Cons.prems(3)[of j] j by (auto simp: draft_row_def)
  qed
  ultimately show ?case by simp
qed



end
