(* ===== verification/FinalizeEscape.thy ===== *)
theory FinalizeEscape
  imports GoStrings Prelude "HOL-Library.Char_ord"
begin

text \<open>
  Quoting and validation of the values that are spliced into the finalize script
  (\<^verbatim>\<open>internal/portal/finalize/escape.go\<close>), and a model of how a POSIX shell reads one word, against
  which the quoting is judged.
\<close>

definition squote :: char where "squote = CHR 0x27"
definition dquote :: char where "dquote = CHR 0x22"
definition backslash :: char where "backslash = CHR 0x5C"

definition shellquote :: "string \<Rightarrow> string" where
  "shellquote s = [squote] @ ReplaceAll s [squote] [squote, backslash, squote, squote] @ [squote]"

definition ascii_alnum :: "char \<Rightarrow> bool" where
  "ascii_alnum c \<longleftrightarrow>
     (CHR ''A'' \<le> c \<and> c \<le> CHR ''Z'') \<or> (CHR ''a'' \<le> c \<and> c \<le> CHR ''z'') \<or> (CHR ''0'' \<le> c \<and> c \<le> CHR ''9'')"

definition branch_first :: "char \<Rightarrow> bool" where
  "branch_first c \<longleftrightarrow> ascii_alnum c \<or> c \<in> set ''._/''"

definition branch_char :: "char \<Rightarrow> bool" where
  "branch_char c \<longleftrightarrow> branch_first c \<or> c = CHR ''-''"

definition reTargetBranch :: "string \<Rightarrow> bool" where
  "reTargetBranch s = (case s of [] \<Rightarrow> False | c # r \<Rightarrow> branch_first c \<and> list_all branch_char r)"

definition reBaseSHA :: "string \<Rightarrow> bool" where
  "reBaseSHA s \<longleftrightarrow>
     length s = 40
     \<and> list_all (\<lambda>c. (CHR ''a'' \<le> c \<and> c \<le> CHR ''f'') \<or> (CHR ''0'' \<le> c \<and> c \<le> CHR ''9'')) s"

definition ValidateTargetBranch :: "string \<Rightarrow> bool" where
  "ValidateTargetBranch branch =
     (if branch = [] then False
      else if hd branch = CHR ''-'' then False
      else if Contains branch ''..'' then False
      else reTargetBranch branch)"

definition ValidateBaseSHA :: "string \<Rightarrow> bool" where
  "ValidateBaseSHA sha = reBaseSHA sha"

end
