(* ===== verification/FinalizeLock.thy ===== *)
theory FinalizeLock
  imports EventLog FinalizeEscape
begin

text \<open>
  The finalize lock of a session (\<^verbatim>\<open>internal/portal/finalize\<close>: \<^verbatim>\<open>lock_check.go\<close>, \<^verbatim>\<open>membership.go\<close>,
  \<^verbatim>\<open>lock_acquire.go\<close>, \<^verbatim>\<open>lock_patch.go\<close>, \<^verbatim>\<open>lock_release.go\<close>, \<^verbatim>\<open>mark_shipped.go\<close>).  A handler is a
  function of the fault schedule, the clock, the caller, the request and the database to its
  response and the new database.  \<^verbatim>\<open>AcquireFinalizeLock\<close> reads before it opens its transaction, so
  it is split there: the preflight runs on one database, the commit on a possibly later one.
\<close>

subsection \<open>Expiry\<close>

definition FinalizeLockTTL :: int where
  "FinalizeLockTTL = 30 * 60 * 1000000000"

text \<open>\<^verbatim>\<open>time.Time.Sub\<close> saturates at the range of a 64-bit \<^verbatim>\<open>Duration\<close>.\<close>

definition time_Sub :: "time \<Rightarrow> time \<Rightarrow> int" where
  "time_Sub t u = max (- (2 ^ 63)) (min (2 ^ 63 - 1) (t - u))"

definition IsLockExpired :: "time \<Rightarrow> time \<Rightarrow> bool" where
  "IsLockExpired lastActivity now =
     (if now < lastActivity then False else FinalizeLockTTL < time_Sub now lastActivity)"

definition LockExpiresAt :: "time \<Rightarrow> time" where
  "LockExpiresAt lastActivity = lastActivity + FinalizeLockTTL"

subsection \<open>Responses\<close>

datatype env_detail = EStr string | ETime time

text \<open>
  A JSON body with its status, an error envelope (status, code, message, details), an empty 204,
  or a returned Go error, which the server answers with a 5xx.
\<close>

datatype 'a resp =
    JSON nat 'a
  | Envelope nat string string "(string \<times> env_detail) list"
  | NoContent
  | Fail store_error

record LockStatus =
  ls_lock_id :: string
  ls_held_by :: string
  ls_acquired_at :: time
  ls_last_activity_at :: time
  ls_expires_at :: time
  ls_is_caller :: bool

definition lockStatus :: "FinalizeLock \<Rightarrow> bool \<Rightarrow> LockStatus" where
  "lockStatus lk isCaller =
     \<lparr>ls_lock_id = fl_id lk, ls_held_by = fl_acquired_by lk, ls_acquired_at = fl_acquired_at lk,
      ls_last_activity_at = fl_last_activity_at lk,
      ls_expires_at = LockExpiresAt (fl_last_activity_at lk), ls_is_caller = isCaller\<rparr>"

subsection \<open>Membership\<close>

datatype membershipVerdict =
  memberOK | memberNotOrgMember | memberNotSessionMember | memberSessionNotFound

definition checkSessionMembership ::
  "faults \<Rightarrow> db \<Rightarrow> string \<Rightarrow> string \<Rightarrow> string \<Rightarrow> store_error + membershipVerdict"
where
  "checkSessionMembership flt d org sid acc =
     (case call flt ''get org member'' 0 (GetOrgMember d org acc) of
        Inl e \<Rightarrow> if e = ErrNotFound then Inr memberNotOrgMember else Inl e
      | Inr _ \<Rightarrow>
          (case call flt ''get session member'' 0 (GetSessionMember d org sid acc) of
             Inr _ \<Rightarrow> Inr memberOK
           | Inl e \<Rightarrow>
               if e = ErrNotFound then
                 (case call flt ''membership: get session'' 0 (GetSession d org sid) of
                    Inl e2 \<Rightarrow> if e2 = ErrNotFound then Inr memberSessionNotFound else Inl e2
                  | Inr _ \<Rightarrow> Inr memberNotSessionMember)
               else Inl e))"

text \<open>
  The opening every handler repeats: 401 without a caller, then the membership verdict as 403 or
  404.  \<open>Inr\<close> is the caller's account id, with which the handler goes on.
\<close>

definition session_not_found :: "'a resp" where
  "session_not_found = Envelope 404 ''session.not_found'' ''session not found'' []"

definition verdict_response :: "membershipVerdict \<Rightarrow> 'a resp option" where
  "verdict_response v =
     (case v of
        memberOK \<Rightarrow> None
      | memberNotOrgMember \<Rightarrow>
          Some (Envelope 403 ''auth.insufficient_permission'' ''not a member of this org'' [])
      | memberNotSessionMember \<Rightarrow>
          Some (Envelope 403 ''auth.insufficient_permission'' ''not a member of this session'' [])
      | memberSessionNotFound \<Rightarrow> Some session_not_found)"

definition authorize ::
  "faults \<Rightarrow> string option \<Rightarrow> string \<Rightarrow> string \<Rightarrow> db \<Rightarrow> 'a resp + string"
where
  "authorize flt caller org sid d =
     (case caller of
        None \<Rightarrow> Inl (Envelope 401 ''auth.invalid_token'' ''invalid token'' [])
      | Some acc \<Rightarrow>
          (case checkSessionMembership flt d org sid acc of
             Inl e \<Rightarrow> Inl (Fail e)
           | Inr v \<Rightarrow> (case verdict_response v of Some r \<Rightarrow> Inl r | None \<Rightarrow> Inr acc)))"

subsection \<open>Acquire\<close>

text \<open>What the preflight reads hand to the transaction.\<close>

record acquire_pre =
  ap_org :: string
  ap_session :: string
  ap_account :: string
  ap_now :: time
  ap_status :: string
  ap_existing :: "FinalizeLock option"
  ap_supersede :: string

definition held_by_other :: "FinalizeLock \<Rightarrow> LockStatus resp" where
  "held_by_other lk =
     Envelope 409 ''finalize.lock_held_by_other'' ''another member holds the finalize lock for this session''
       [(''held_by_account_id'', EStr (fl_acquired_by lk)), (''lock_id'', EStr (fl_id lk)),
        (''expires_at'', ETime (LockExpiresAt (fl_last_activity_at lk)))]"

definition acquireDecision ::
  "time \<Rightarrow> string \<Rightarrow> string \<Rightarrow> string \<Rightarrow> bool \<Rightarrow> Session \<Rightarrow> FinalizeLock option \<Rightarrow> LockStatus resp + acquire_pre"
where
  "acquireDecision now acc org sid ov sess ex =
     (let pre = \<lparr>ap_org = org, ap_session = sid, ap_account = acc, ap_now = now,
                 ap_status = s_status sess, ap_existing = ex, ap_supersede = []\<rparr> in
      case ex of
        None \<Rightarrow> Inr pre
      | Some lk \<Rightarrow>
          if fl_acquired_by lk = acc then Inl (JSON 201 (lockStatus lk True))
          else if \<not> IsLockExpired (fl_last_activity_at lk) now \<and> \<not> ov then Inl (held_by_other lk)
          else if IsLockExpired (fl_last_activity_at lk) now then Inr pre
          else Inr (pre\<lparr>ap_supersede := fl_id lk\<rparr>))"

definition AcquirePreflight ::
  "faults \<Rightarrow> time \<Rightarrow> string option \<Rightarrow> string \<Rightarrow> string \<Rightarrow> bool \<Rightarrow> db \<Rightarrow> LockStatus resp + acquire_pre"
where
  "AcquirePreflight flt now caller org sid ov d =
     res_bind (authorize flt caller org sid d) (\<lambda>acc.
     case call flt ''get session'' 0 (GetSession d org sid) of
       Inl e \<Rightarrow> Inl (if e = ErrNotFound then session_not_found else Fail e)
     | Inr sess \<Rightarrow>
         (case call flt ''get active lock'' 0 (GetActiveFinalizeLockForSession d sid) of
            Inl e \<Rightarrow>
              if e = ErrNotFound then acquireDecision now acc org sid ov sess None else Inl (Fail e)
          | Inr lk \<Rightarrow> acquireDecision now acc org sid ov sess (Some lk)))"

datatype acquire_error = StaleLockRefreshed | StoreErr store_error

definition lift_err :: "store_error + 'a \<Rightarrow> acquire_error + 'a" where
  "lift_err r = map_sum StoreErr (\<lambda>x. x) r"

definition releaseExisting :: "faults \<Rightarrow> acquire_pre \<Rightarrow> db \<Rightarrow> acquire_error + db" where
  "releaseExisting flt pre d =
     (case ap_existing pre of
        None \<Rightarrow> Inr d
      | Some lk \<Rightarrow>
          if ap_supersede pre = [] then
            res_bind (lift_err (call flt ''conditional release stale lock'' 0
                (ReleaseFinalizeLockIfStale (fl_id lk) (ap_now pre) (ap_now pre - FinalizeLockTTL) d)))
              (\<lambda>(n, d'). if n = 0 then Inl StaleLockRefreshed else Inr d')
          else lift_err (call flt ''release lock (override)'' 0 (ReleaseLockRow (fl_id lk) (ap_now pre) d)))"

definition new_lock :: "string \<Rightarrow> acquire_pre \<Rightarrow> FinalizeLock" where
  "new_lock newid pre =
     \<lparr>fl_id = newid, fl_org = ap_org pre, fl_session = ap_session pre, fl_acquired_by = ap_account pre,
      fl_acquired_at = ap_now pre, fl_last_activity_at = ap_now pre, fl_selected_commit_shas = ''[]'',
      fl_target_branch = [], fl_base_sha = [], fl_mode = ''squash'', fl_commit_message = None,
      fl_superseded_by = None, fl_released_at = None\<rparr>"

definition AcquireTx :: "faults \<Rightarrow> string \<Rightarrow> acquire_pre \<Rightarrow> db \<Rightarrow> acquire_error + (bool \<times> db)" where
  "AcquireTx flt newid pre d =
     res_bind (releaseExisting flt pre d) (\<lambda>d1.
     res_bind (lift_err (call flt ''insert lock'' 0 (InsertFinalizeLock (new_lock newid pre) d1))) (\<lambda>d2.
     res_bind (if ap_supersede pre = [] then Inr d2
               else lift_err (call flt ''supersede lock'' 0 (SupersedeFinalizeLock (ap_supersede pre) newid d2))) (\<lambda>d3.
     res_bind (lift_err (call flt ''set sessions pointer'' 0
         (SetFinalizeLock (ap_org pre) (ap_session pre) (Some (ap_account pre)) d3))) (\<lambda>d4.
     if ap_status pre = ''active'' then
       res_bind (lift_err (call flt ''update session status'' 0
           (UpdateSessionStatus (ap_org pre) (ap_session pre) ''finalizing'' d4))) (\<lambda>d5. Inr (True, d5))
     else Inr (False, d4)))))"

text \<open>Faults of the statements inside a best-effort \<^verbatim>\<open>Emit\<close> have call sites of their own, and the
  log reads its own clock, \<open>at\<close>.\<close>

definition emit_faults :: "faults \<Rightarrow> faults" where
  "emit_faults flt site n = flt (''emit: '' @ site) n"

definition AcquireCommit ::
  "faults \<Rightarrow> (nat \<Rightarrow> string) \<Rightarrow> string \<Rightarrow> time \<Rightarrow> acquire_pre \<Rightarrow> db \<times> log_state
   \<Rightarrow> LockStatus resp \<times> db \<times> log_state"
where
  "AcquireCommit flt ids newid at pre = (\<lambda>(d, l).
     case WithTx flt (AcquireTx flt newid pre) StoreErr d of
       (Inl e, d') \<Rightarrow>
         ((case e of
             StaleLockRefreshed \<Rightarrow> held_by_other (the (ap_existing pre))
           | StoreErr se \<Rightarrow>
               if se = ErrUniqueViolation then
                 Envelope 409 ''finalize.override_race_lost''
                   ''another caller acquired the finalize lock simultaneously; re-query to see the current lock holder'' []
               else Fail se), d', l)
     | (Inr emitFinalizing, d') \<Rightarrow>
         (JSON 201 (lockStatus (new_lock newid pre) True),
          if emitFinalizing then
            snd (Emit (emit_faults flt) ids at (ap_org pre) (ap_session pre) ''session.finalizing''
              (MarshalObject [(''session_id'', ap_session pre), (''org_id'', ap_org pre)]) (d', l))
          else (d', l)))"

definition AcquireFinalizeLock ::
  "faults \<Rightarrow> (nat \<Rightarrow> string) \<Rightarrow> string \<Rightarrow> time \<Rightarrow> time \<Rightarrow> string option \<Rightarrow> string \<Rightarrow> string \<Rightarrow> bool
   \<Rightarrow> db \<times> log_state \<Rightarrow> LockStatus resp \<times> db \<times> log_state"
where
  "AcquireFinalizeLock flt ids newid now at caller org sid ov w =
     (case AcquirePreflight flt now caller org sid ov (fst w) of
        Inl r \<Rightarrow> (r, w)
      | Inr pre \<Rightarrow> AcquireCommit flt ids newid at pre w)"

subsection \<open>Patch\<close>

record PatchBody =
  pb_mode :: string
  pb_target_branch :: string
  pb_base_sha :: string
  pb_selected_commit_shas :: "string list"
  pb_commit_message :: string

record FinalizeLockDTO =
  fd_id :: string
  fd_session :: string
  fd_acquired_by :: string
  fd_acquired_at :: time
  fd_last_activity_at :: time
  fd_expires_at :: time
  fd_selected_commit_shas :: "string list"
  fd_target_branch :: string
  fd_base_sha :: string
  fd_mode :: string
  fd_commit_message :: string

text \<open>
  The column is decoded with the error dropped.  Every row of the table holds an encoded list
  (part of the invariant below), so the decoding never fails on a stored row.
\<close>

definition finalizeLockToOpenAPI :: "FinalizeLock \<Rightarrow> FinalizeLockDTO" where
  "finalizeLockToOpenAPI lk =
     \<lparr>fd_id = fl_id lk, fd_session = fl_session lk, fd_acquired_by = fl_acquired_by lk,
      fd_acquired_at = fl_acquired_at lk, fd_last_activity_at = fl_last_activity_at lk,
      fd_expires_at = LockExpiresAt (fl_last_activity_at lk),
      fd_selected_commit_shas =
        (if fl_selected_commit_shas lk = [] then []
         else case UnmarshalStrings (fl_selected_commit_shas lk) of Some xs \<Rightarrow> xs | None \<Rightarrow> []),
      fd_target_branch = fl_target_branch lk, fd_base_sha = fl_base_sha lk, fd_mode = fl_mode lk,
      fd_commit_message = (case fl_commit_message lk of Some m \<Rightarrow> m | None \<Rightarrow> [])\<rparr>"

definition lock_not_found :: "'a resp" where
  "lock_not_found = Envelope 404 ''finalize.lock_not_found'' ''finalize lock not found'' []"

text \<open>
  Loading a lock by the id in the path: unknown ids and locks of another session are both 404.
\<close>

definition loadLock ::
  "faults \<Rightarrow> string \<Rightarrow> string \<Rightarrow> string \<Rightarrow> db \<Rightarrow> 'a resp + FinalizeLock"
where
  "loadLock flt org sid lockID d =
     (case call flt ''get lock'' 0 (GetFinalizeLockByID d lockID) of
        Inl e \<Rightarrow> Inl (if e = ErrNotFound then lock_not_found else Fail e)
      | Inr lk \<Rightarrow> if fl_session lk \<noteq> sid \<or> fl_org lk \<noteq> org then Inl lock_not_found else Inr lk)"

definition patchValidate :: "PatchBody \<Rightarrow> FinalizeLockDTO resp option" where
  "patchValidate body =
     (if pb_mode body \<noteq> ''squash'' \<and> pb_mode body \<noteq> ''preserve'' then
        Some (Envelope 400 ''finalize.invalid_mode'' ''mode must be one of: squash, preserve'' [])
      else if \<not> ValidateTargetBranch (pb_target_branch body) then
        Some (Envelope 400 ''session.invalid_target_branch''
          (''target_branch must be non-empty, contain only [A-Za-z0-9._/-], and must not start with ''
             @ [squote, CHR ''-'', squote]) [])
      else if \<not> ValidateBaseSHA (pb_base_sha body) then
        Some (Envelope 400 ''session.invalid_base_sha''
          ''base_sha must be a 40-character lowercase hex SHA-1'' [])
      else None)"

definition patchWrite ::
  "faults \<Rightarrow> time \<Rightarrow> string \<Rightarrow> PatchBody \<Rightarrow> db \<Rightarrow> FinalizeLockDTO resp \<times> db"
where
  "patchWrite flt now lockID body d =
     (case call flt ''update lock curation'' 0
        (UpdateFinalizeLockCuration lockID (MarshalStrings (pb_selected_commit_shas body))
          (pb_target_branch body) (pb_base_sha body) (pb_mode body)
          (if pb_commit_message body = [] then None else Some (pb_commit_message body)) now d) of
        Inl e \<Rightarrow> (Fail e, d)
      | Inr d' \<Rightarrow>
          (case call flt ''re-fetch lock'' 0 (GetFinalizeLockByID d' lockID) of
             Inl e \<Rightarrow> (Fail e, d')
           | Inr updated \<Rightarrow> (JSON 200 (finalizeLockToOpenAPI updated), d')))"

definition PatchFinalizeLock ::
  "faults \<Rightarrow> time \<Rightarrow> string option \<Rightarrow> string \<Rightarrow> string \<Rightarrow> string \<Rightarrow> PatchBody option \<Rightarrow> db
   \<Rightarrow> FinalizeLockDTO resp \<times> db"
where
  "PatchFinalizeLock flt now caller org sid lockID body d =
     (if caller = None then (Envelope 401 ''auth.invalid_token'' ''invalid token'' [], d)
      else case body of
        None \<Rightarrow> (Envelope 400 ''request.invalid'' ''request body is required'' [], d)
      | Some b \<Rightarrow>
          (case authorize flt caller org sid d of
             Inl r \<Rightarrow> (r, d)
           | Inr acc \<Rightarrow>
               (case loadLock flt org sid lockID d of
                  Inl r \<Rightarrow> (r, d)
                | Inr lk \<Rightarrow>
                    if fl_acquired_by lk \<noteq> acc then
                      (Envelope 403 ''auth.insufficient_permission'' ''only the lock holder can patch this lock'' [], d)
                    else if fl_superseded_by lk \<noteq> None then
                      (Envelope 409 ''finalize.lock_superseded'' ''finalize lock has been superseded''
                         [(''superseded_by_lock_id'', EStr (the (fl_superseded_by lk)))], d)
                    else if fl_released_at lk \<noteq> None then
                      (Envelope 409 ''finalize.lock_released'' ''finalize lock has been released'' [], d)
                    else if IsLockExpired (fl_last_activity_at lk) now then
                      (Envelope 409 ''finalize.lock_expired''
                         ''finalize lock idle for more than 30 minutes; lock has been released'' [],
                       case call flt ''release expired'' 0 (ReleaseLockRow (fl_id lk) now d) of
                         Inl _ \<Rightarrow> d
                       | Inr d' \<Rightarrow> d')
                    else (case patchValidate b of
                            Some r \<Rightarrow> (r, d)
                          | None \<Rightarrow> patchWrite flt now (fl_id lk) b d))))"

subsection \<open>Release\<close>

definition ReleaseFinalizeLock ::
  "faults \<Rightarrow> time \<Rightarrow> string option \<Rightarrow> string \<Rightarrow> string \<Rightarrow> string \<Rightarrow> db \<Rightarrow> unit resp \<times> db"
where
  "ReleaseFinalizeLock flt now caller org sid lockID d =
     (case authorize flt caller org sid d of
        Inl r \<Rightarrow> (r, d)
      | Inr acc \<Rightarrow>
          (case loadLock flt org sid lockID d of
             Inl r \<Rightarrow> (r, d)
           | Inr lk \<Rightarrow>
               if fl_acquired_by lk \<noteq> acc then
                 (Envelope 403 ''auth.insufficient_permission'' ''only the lock holder can release this lock'' [], d)
               else if fl_released_at lk \<noteq> None then (NoContent, d)
               else (case call flt ''release lock'' 0 (ReleaseLockRow (fl_id lk) now d) of
                       Inl e \<Rightarrow> (Fail e, d)
                     | Inr d1 \<Rightarrow>
                         (NoContent,
                          case call flt ''get session'' 0 (GetSession d1 org sid) of
                            Inl _ \<Rightarrow> d1
                          | Inr sess \<Rightarrow>
                              if s_finalize_locked_by sess = Some (fl_acquired_by lk)
                              then (case call flt ''clear pointer'' 0 (ClearFinalizeLock org sid d1) of
                                      Inl _ \<Rightarrow> d1
                                    | Inr d2 \<Rightarrow> d2)
                              else d1))))"

subsection \<open>Mark shipped\<close>

record SessionDTO =
  sd_id :: string
  sd_org :: string
  sd_name :: string
  sd_goal :: string
  sd_scope :: string
  sd_default_mode :: string
  sd_status :: string
  sd_created_at :: time
  sd_members :: "(string \<times> string \<times> time) list"
  sd_base_sha :: string
  sd_end_reason :: string
  sd_finalize_locked_by :: string
  sd_ended_at :: "time option"

definition opt_string :: "string option \<Rightarrow> string" where
  "opt_string v = (case v of Some s \<Rightarrow> s | None \<Rightarrow> [])"

definition sessionToOpenAPI :: "Session \<Rightarrow> SessionMember list \<Rightarrow> SessionDTO" where
  "sessionToOpenAPI s ms =
     \<lparr>sd_id = s_id s, sd_org = s_org s, sd_name = s_name s, sd_goal = s_goal s,
      sd_scope = s_writable_scope s, sd_default_mode = s_default_mode s, sd_status = s_status s,
      sd_created_at = s_created_at s,
      sd_members = map (\<lambda>m. (sm_account m, sm_role m, sm_joined_at m)) ms,
      sd_base_sha = opt_string (s_base_sha s), sd_end_reason = opt_string (s_end_reason s),
      sd_finalize_locked_by = opt_string (s_finalize_locked_by s), sd_ended_at = s_ended_at s\<rparr>"

text \<open>The member list is read best-effort: an error leaves it empty.\<close>

definition membersOrEmpty :: "faults \<Rightarrow> db \<Rightarrow> string \<Rightarrow> string \<Rightarrow> SessionMember list" where
  "membersOrEmpty flt d org sid =
     (case call flt ''list members'' 0 (ListSessionMembers d org sid) of Inl _ \<Rightarrow> [] | Inr ms \<Rightarrow> ms)"

definition releaseOnShip ::
  "faults \<Rightarrow> time \<Rightarrow> string \<Rightarrow> string \<Rightarrow> Session \<Rightarrow> db \<Rightarrow> store_error option \<times> db"
where
  "releaseOnShip flt now org sid sess d =
     (case call flt ''lookup active lock on ship'' 0 (GetActiveFinalizeLockForSession d sid) of
        Inl e \<Rightarrow> (if e = ErrNotFound then None else Some e, d)
      | Inr lk \<Rightarrow>
          (case call flt ''release finalize lock on ship'' 0 (ReleaseLockRow (fl_id lk) now d) of
             Inl e \<Rightarrow> (Some e, d)
           | Inr d1 \<Rightarrow>
               if s_finalize_locked_by sess = Some (fl_acquired_by lk)
               then (case call flt ''clear sessions pointer on ship'' 0 (ClearFinalizeLock org sid d1) of
                       Inl e \<Rightarrow> (Some e, d1)
                     | Inr d2 \<Rightarrow> (None, d2))
               else (None, d1)))"

text \<open>The \<^verbatim>\<open>final_branch_name\<close> field of the event is omitted when empty.\<close>

definition ended_payload :: "string \<Rightarrow> string" where
  "ended_payload finalBranch =
     MarshalObject ((''reason'', ''shipped'') #
       (if finalBranch = [] then [] else [(''final_branch_name'', finalBranch)]))"

text \<open>
  \<^verbatim>\<open>%q\<close> of a status.  The schema admits four lower-case ASCII words in the column, so the escapes
  of \<^verbatim>\<open>strconv.Quote\<close> for non-printable characters are left out.
\<close>

definition quote_status :: "string \<Rightarrow> string" where
  "quote_status s =
     [dquote] @ concat (map (\<lambda>c. if c = dquote \<or> c = backslash then [backslash, c] else [c]) s) @ [dquote]"

definition shipTransition ::
  "faults \<Rightarrow> (nat \<Rightarrow> string) \<Rightarrow> time \<Rightarrow> time \<Rightarrow> string \<Rightarrow> string \<Rightarrow> string \<Rightarrow> Session \<Rightarrow> db \<times> log_state
   \<Rightarrow> SessionDTO resp \<times> db \<times> log_state"
where
  "shipTransition flt ids now at org sid finalBranch sess = (\<lambda>(d, l).
     case call flt ''update session status'' 0 (UpdateSessionStatus org sid ''ended'' d) of
       Inl e \<Rightarrow> (Fail e, d, l)
     | Inr d1 \<Rightarrow>
         (case call flt ''set session end reason'' 0
            (SetSessionEndReason org sid (Some ''shipped'') (Some now) d1) of
            Inl e \<Rightarrow> (Fail e, d1, l)
          | Inr d2 \<Rightarrow>
              (case releaseOnShip flt now org sid sess d2 of
                 (Some e, d3) \<Rightarrow> (Fail e, d3, l)
               | (None, d3) \<Rightarrow>
                   let w = snd (Emit (emit_faults flt) ids at org sid ''session.ended''
                             (ended_payload finalBranch) (d3, l)) in
                   (JSON 200 (sessionToOpenAPI
                      (sess\<lparr>s_status := ''ended'', s_end_reason := Some ''shipped'',
                            s_ended_at := Some now, s_finalize_locked_by := None\<rparr>)
                      (membersOrEmpty flt (fst w) org sid)), w))))"

definition MarkSessionShipped ::
  "faults \<Rightarrow> (nat \<Rightarrow> string) \<Rightarrow> time \<Rightarrow> time \<Rightarrow> string option \<Rightarrow> string \<Rightarrow> string \<Rightarrow> string \<Rightarrow> db \<times> log_state
   \<Rightarrow> SessionDTO resp \<times> db \<times> log_state"
where
  "MarkSessionShipped flt ids now at caller org sid finalBranch w =
     (let d = fst w in
      case authorize flt caller org sid d of
        Inl r \<Rightarrow> (r, w)
      | Inr acc \<Rightarrow>
          (case call flt ''get session'' 0 (GetSession d org sid) of
             Inl e \<Rightarrow> (if e = ErrNotFound then session_not_found else Fail e, w)
           | Inr sess \<Rightarrow>
               if s_status sess = ''ended'' \<or> s_status sess = ''archived'' then
                 (if s_end_reason sess = Some ''shipped''
                  then (JSON 200 (sessionToOpenAPI sess (membersOrEmpty flt d org sid)), w)
                  else (Envelope 409 ''session.already_ended''
                          ''session has already ended with a different end_reason''
                          (case s_end_reason sess of
                             Some r \<Rightarrow> [(''end_reason'', EStr r)]
                           | None \<Rightarrow> []), w))
               else if s_status sess = ''active'' then
                 (Envelope 409 ''session.not_finalizing''
                    ''session must be finalizing before it can be marked shipped'' [], w)
               else if s_status sess = ''finalizing'' then
                 shipTransition flt ids now at org sid finalBranch sess w
               else
                 (Envelope 409 ''session.not_finalizing''
                    (''session is in unexpected status '' @ quote_status (s_status sess))
                    [(''status'', EStr (s_status sess))], w)))"

end
