(* ===== verification/FinalizeCorrect.thy ===== *)
theory FinalizeCorrect
  imports FinalizeLock
begin

text \<open>
  Correctness of the finalize lock: at most one active lock per session in every interleaving of
  the handlers, a fresh lock is taken over only by an explicit override, an acquisition is
  atomic, only the holder's requests change a lock, and what the handlers do on a partial failure.
\<close>

subsection \<open>The lock table invariant\<close>

definition lock_row_ok :: "FinalizeLock \<Rightarrow> bool" where
  "lock_row_ok lk \<longleftrightarrow>
     (fl_superseded_by lk \<noteq> None \<longrightarrow> fl_released_at lk \<noteq> None)
     \<and> fl_selected_commit_shas lk \<in> range MarshalStrings"

definition lock_inv :: "db \<Rightarrow> bool" where
  "lock_inv d \<longleftrightarrow>
     distinct (map fl_id (d_locks d))
     \<and> (\<forall>sid. length (active_locks sid d) \<le> 1)
     \<and> (\<forall>lk \<in> set (d_locks d). lock_row_ok lk)"

definition lock_ids :: "db \<Rightarrow> string set" where
  "lock_ids d = fl_id ` set (d_locks d)"

lemma length_filter_map_le:
  "(\<And>x. x \<in> set xs \<Longrightarrow> P (g x) \<Longrightarrow> P x) \<Longrightarrow> length (filter P (map g xs)) \<le> length (filter P xs)"
  by (induction xs) (auto intro: le_SucI)

lemma lock_ids_update:
  assumes "\<And>lk. w lk \<Longrightarrow> fl_id (f lk) = fl_id lk"
  shows "map fl_id (d_locks (update_locks w f d)) = map fl_id (d_locks d)"
  using assms by (simp add: update_locks_def)

lemma lock_ids_cong: "map fl_id (d_locks a) = map fl_id (d_locks b) \<Longrightarrow> lock_ids a = lock_ids b"
  by (metis lock_ids_def list.set_map)

lemma lock_inv_update:
  assumes inv: "lock_inv d"
    and ids: "\<And>lk. w lk \<Longrightarrow> fl_id (f lk) = fl_id lk"
    and ses: "\<And>lk. w lk \<Longrightarrow> fl_session (f lk) = fl_session lk"
    and act: "\<And>lk. w lk \<Longrightarrow> lock_active (f lk) \<Longrightarrow> lock_active lk"
    and ok: "\<And>lk. lk \<in> set (d_locks d) \<Longrightarrow> w lk \<Longrightarrow> lock_row_ok lk \<Longrightarrow> lock_row_ok (f lk)"
  shows "lock_inv (update_locks w f d)"
proof -
  have "length (active_locks sid (update_locks w f d)) \<le> length (active_locks sid d)" for sid
  proof -
    have "d_locks (update_locks w f d) = map (\<lambda>l. if w l then f l else l) (d_locks d)"
      by (simp add: update_locks_def)
    then show ?thesis
      unfolding active_locks_def
      by (simp only:) (rule length_filter_map_le, use ses act in \<open>auto split: if_splits\<close>)
  qed
  moreover have "\<forall>lk \<in> set (d_locks (update_locks w f d)). lock_row_ok lk"
    using inv ok by (auto simp: lock_inv_def update_locks_def)
  moreover have "distinct (map fl_id (d_locks (update_locks w f d)))"
    using inv ids by (simp add: lock_ids_update lock_inv_def)
  ultimately show ?thesis
    using inv unfolding lock_inv_def by (meson order_trans)
qed

lemma lock_inv_release: "lock_inv d \<Longrightarrow> ReleaseLockRow i at d = Inr d' \<Longrightarrow> lock_inv d'"
  by (auto simp: ReleaseLockRow_def lock_active_def lock_row_ok_def intro!: lock_inv_update)

lemma lock_inv_release_stale:
  "lock_inv d \<Longrightarrow> ReleaseFinalizeLockIfStale i at c d = Inr (n, d') \<Longrightarrow> lock_inv d'"
  by (auto simp: ReleaseFinalizeLockIfStale_def Let_def lock_active_def lock_row_ok_def intro!: lock_inv_update)

lemma lock_inv_curation:
  "lock_inv d \<Longrightarrow> UpdateFinalizeLockCuration i (MarshalStrings xs) b s m msg at d = Inr d' \<Longrightarrow> lock_inv d'"
  by (auto simp: UpdateFinalizeLockCuration_def lock_active_def lock_row_ok_def
        intro!: lock_inv_update split: if_splits)

lemma lock_inv_supersede:
  assumes "lock_inv d" and "\<And>lk. lk \<in> set (d_locks d) \<Longrightarrow> fl_id lk = i \<Longrightarrow> fl_released_at lk \<noteq> None"
    and "SupersedeFinalizeLock i j d = Inr d'"
  shows "lock_inv d'"
  using assms
  by (auto simp: SupersedeFinalizeLock_def lock_active_def lock_row_ok_def intro!: lock_inv_update)

lemma lock_inv_insert:
  assumes inv: "lock_inv d" and ok: "lock_row_ok lk" and ins: "InsertFinalizeLock lk d = Inr d'"
  shows "lock_inv d'"
proof -
  have "length (active_locks sid d') \<le> 1" for sid
  proof (cases "sid = fl_session lk \<and> lock_active lk")
    case True
    with ins have "active_locks sid d = []" by (auto simp: InsertFinalizeLock_def split: if_splits)
    with ins True show ?thesis by (auto simp: InsertFinalizeLock_def active_locks_def split: if_splits)
  next
    case False
    with ins have "active_locks sid d' = active_locks sid d"
      by (auto simp: InsertFinalizeLock_def active_locks_def split: if_splits)
    with inv show ?thesis by (simp add: lock_inv_def)
  qed
  with inv ok ins show ?thesis
    by (auto simp: lock_inv_def InsertFinalizeLock_def split: if_splits)
qed

lemma lock_inv_frame: "d_locks d' = d_locks d \<Longrightarrow> lock_inv d' = lock_inv d"
  by (simp add: lock_inv_def active_locks_def)

subsection \<open>The acquiring transaction\<close>

text \<open>What the preflight guarantees of the values it hands on.\<close>

definition pre_wf :: "db \<Rightarrow> acquire_pre \<Rightarrow> bool" where
  "pre_wf d pre \<longleftrightarrow>
     (ap_supersede pre \<noteq> [] \<longrightarrow>
        (\<exists>lk. ap_existing pre = Some lk \<and> fl_id lk = ap_supersede pre \<and> fl_id lk \<in> lock_ids d))"

lemma lift_err_Inr_iff: "lift_err r = Inr x \<longleftrightarrow> r = Inr x"
  by (cases r) (auto simp: lift_err_def)

lemma GetActive_in: "GetActiveFinalizeLockForSession d sid = Inr lk \<Longrightarrow> lk \<in> set (active_locks sid d)"
  by (auto simp: GetActiveFinalizeLockForSession_def split: list.splits)
     (metis list.set_intros(1) set_sort)

lemma pre_wf_preflight:
  assumes "AcquirePreflight flt now caller org sid ov d = Inr pre"
  shows "pre_wf d pre" "ap_session pre = sid" "ap_org pre = org" "ap_now pre = now"
    "caller = Some (ap_account pre)" "ap_supersede pre \<noteq> [] \<Longrightarrow> ov"
proof -
  obtain acc sess ex where a: "authorize flt caller org sid d = (Inr acc :: LockStatus resp + string)"
    and dec: "acquireDecision now acc org sid ov sess ex = Inr pre"
    and ex: "\<And>lk. ex = Some lk \<Longrightarrow> GetActiveFinalizeLockForSession d sid = Inr lk"
    using assms
    by (cases "call flt ''get session'' 0 (GetSession d org sid)";
        cases "call flt ''get active lock'' 0 (GetActiveFinalizeLockForSession d sid)")
       (auto simp: AcquirePreflight_def res_bind_Inr_iff call_Inr_iff split: if_splits)
  have c: "caller = Some acc"
    using a by (auto simp: authorize_def split: option.splits sum.splits)
  have i: "fl_id lk \<in> lock_ids d" if "ex = Some lk" for lk
    using GetActive_in[OF ex[OF that]] by (auto simp: active_locks_def lock_ids_def)
  show "pre_wf d pre" "ap_session pre = sid" "ap_org pre = org" "ap_now pre = now"
    "caller = Some (ap_account pre)" "ap_supersede pre \<noteq> [] \<Longrightarrow> ov"
    using dec c i by (auto simp: acquireDecision_def pre_wf_def Let_def split: option.splits if_splits)
qed

lemma lock_row_ok_new: "lock_row_ok (new_lock newid pre)"
proof -
  have "''[]'' = MarshalStrings []" by (simp add: MarshalStrings_def)
  then show ?thesis by (simp add: lock_row_ok_def new_lock_def)
qed

definition supersedeExisting :: "string \<Rightarrow> acquire_pre \<Rightarrow> db \<Rightarrow> db" where
  "supersedeExisting newid pre d =
     (if ap_supersede pre = [] then d
      else update_locks (\<lambda>l. fl_id l = ap_supersede pre) (fl_superseded_by_update (\<lambda>_. Some newid)) d)"

definition pointSession :: "acquire_pre \<Rightarrow> db \<Rightarrow> db" where
  "pointSession pre d =
     (let d1 = update_session (ap_org pre) (ap_session pre)
                 (s_finalize_locked_by_update (\<lambda>_. Some (ap_account pre))) d in
      if ap_status pre = ''active''
      then update_session (ap_org pre) (ap_session pre) (s_status_update (\<lambda>_. ''finalizing'')) d1
      else d1)"

lemma pointSession_frame [db_simps]:
  "d_locks (pointSession pre d) = d_locks d"
  "d_events (pointSession pre d) = d_events d"
  "d_event_seq (pointSession pre d) = d_event_seq d"
  by (simp_all add: pointSession_def Let_def db_simps)

lemma supersedeExisting_frame [db_simps]:
  "d_sessions (supersedeExisting newid pre d) = d_sessions d"
  "d_events (supersedeExisting newid pre d) = d_events d"
  "d_event_seq (supersedeExisting newid pre d) = d_event_seq d"
  by (simp_all add: supersedeExisting_def db_simps)

lemma AcquireTx_Inr:
  assumes "AcquireTx flt newid pre d = Inr (b, d')"
  obtains d1 d2 where "releaseExisting flt pre d = Inr d1"
    and "InsertFinalizeLock (new_lock newid pre) d1 = Inr d2"
    and "d' = pointSession pre (supersedeExisting newid pre d2)"
    and "b \<longleftrightarrow> ap_status pre = ''active''"
  using assms
  by (auto simp: AcquireTx_def res_bind_Inr_iff lift_err_Inr_iff call_Inr_iff SupersedeFinalizeLock_def
        SetFinalizeLock_def UpdateSessionStatus_def pointSession_def supersedeExisting_def Let_def
        split: if_splits)

lemma releaseExisting_Inr:
  assumes "releaseExisting flt pre d = Inr d1"
  shows "lock_inv d \<Longrightarrow> lock_inv d1" "map fl_id (d_locks d1) = map fl_id (d_locks d)"
    "d_sessions d1 = d_sessions d" "d_events d1 = d_events d" "d_event_seq d1 = d_event_seq d"
proof -
  have c: "d1 = d \<or> (\<exists>i. ReleaseLockRow i (ap_now pre) d = Inr d1)
    \<or> (\<exists>i n. ReleaseFinalizeLockIfStale i (ap_now pre) (ap_now pre - FinalizeLockTTL) d = Inr (n, d1))"
    using assms
    by (cases "ap_existing pre")
       (auto simp: releaseExisting_def res_bind_Inr_iff lift_err_Inr_iff call_Inr_iff split: if_splits)
  from c show "lock_inv d \<Longrightarrow> lock_inv d1"
    by (auto intro: lock_inv_release lock_inv_release_stale)
  from c show "map fl_id (d_locks d1) = map fl_id (d_locks d)"
    "d_sessions d1 = d_sessions d" "d_events d1 = d_events d" "d_event_seq d1 = d_event_seq d"
    by (auto simp: ReleaseLockRow_def ReleaseFinalizeLockIfStale_def Let_def lock_ids_update db_simps)
qed

lemma releaseExisting_released:
  assumes "releaseExisting flt pre d = Inr d1" and "ap_existing pre = Some lk"
    and "ap_supersede pre \<noteq> []" and "x \<in> set (d_locks d1)" and "fl_id x = fl_id lk"
  shows "fl_released_at x \<noteq> None"
  using assms
  by (auto simp: releaseExisting_def lift_err_Inr_iff call_Inr_iff ReleaseLockRow_def update_locks_def
      split: if_splits)

lemma AcquireTx_keeps:
  assumes tx: "AcquireTx flt newid pre d = Inr (b, d')" and inv: "lock_inv d" and wf: "pre_wf d pre"
  shows "lock_inv d'" "lock_ids d \<subseteq> lock_ids d'" "d_events d' = d_events d" "d_event_seq d' = d_event_seq d"
proof -
  obtain d1 d2 where r: "releaseExisting flt pre d = Inr d1"
    and i: "InsertFinalizeLock (new_lock newid pre) d1 = Inr d2"
    and d': "d' = pointSession pre (supersedeExisting newid pre d2)"
    by (rule AcquireTx_Inr[OF tx]) (rule that)
  note rel = releaseExisting_Inr[OF r]
  have l2: "d_locks d2 = d_locks d1 @ [new_lock newid pre]" and new: "newid \<notin> fl_id ` set (d_locks d1)"
    and fr: "d_events d2 = d_events d1" "d_event_seq d2 = d_event_seq d1"
    using i by (auto simp: InsertFinalizeLock_def new_lock_def split: if_splits)
  have inv2: "lock_inv d2" by (rule lock_inv_insert[OF rel(1)[OF inv] lock_row_ok_new i])
  have "lock_inv (supersedeExisting newid pre d2)"
  proof (cases "ap_supersede pre = []")
    case True
    then show ?thesis using inv2 by (simp add: supersedeExisting_def)
  next
    case False
    with wf obtain lk where lk: "ap_existing pre = Some lk" "fl_id lk = ap_supersede pre"
      "fl_id lk \<in> lock_ids d" by (auto simp: pre_wf_def)
    have "fl_id lk \<in> fl_id ` set (d_locks d1)"
      using lk(3) arg_cong[OF rel(2), of set] by (simp add: lock_ids_def)
    then have "newid \<noteq> fl_id lk" using new by auto
    then have "fl_released_at x \<noteq> None" if "x \<in> set (d_locks d2)" "fl_id x = ap_supersede pre" for x
      using that releaseExisting_released[OF r lk(1) False, of x] lk(2)
      by (auto simp: l2 new_lock_def)
    then show ?thesis
      using False
      by (intro lock_inv_supersede[OF inv2, of "ap_supersede pre" newid])
         (auto simp: supersedeExisting_def SupersedeFinalizeLock_def)
  qed
  moreover have "d_locks d' = d_locks (supersedeExisting newid pre d2)" by (simp add: d' db_simps)
  ultimately show "lock_inv d'" using lock_inv_frame by blast
  have "lock_ids (supersedeExisting newid pre d2) = lock_ids d2"
    by (rule lock_ids_cong) (simp add: supersedeExisting_def lock_ids_update)
  then show "lock_ids d \<subseteq> lock_ids d'"
    using arg_cong[OF rel(2), of set] by (auto simp: d' lock_ids_def db_simps l2)
  show "d_events d' = d_events d" "d_event_seq d' = d_event_seq d"
    by (simp_all add: d' db_simps fr rel)
qed

subsection \<open>What every step keeps\<close>

text \<open>
  \<open>keeps w w'\<close>: a change from \<open>w\<close> to \<open>w'\<close> preserves the lock and the log invariants and forgets no lock.
  It composes, so a handler keeps them if its statements do.
\<close>

definition keeps :: "db \<times> log_state \<Rightarrow> db \<times> log_state \<Rightarrow> bool" where
  "keeps w w' \<longleftrightarrow>
     (lock_inv (fst w) \<longrightarrow> lock_inv (fst w')) \<and> lock_ids (fst w) \<subseteq> lock_ids (fst w')
     \<and> (log_ok w \<longrightarrow> log_ok w')"

lemma keeps_refl [intro]: "keeps w w"
  by (simp add: keeps_def)

lemma keeps_trans: "keeps u v \<Longrightarrow> keeps v w \<Longrightarrow> keeps u w"
  by (auto simp: keeps_def)

lemma log_ok_frame:
  "d_events d' = d_events d \<Longrightarrow> d_event_seq d' = d_event_seq d \<Longrightarrow> log_ok (d', l) = log_ok (d, l)"
  by (simp add: log_ok_def log_inv_def session_seqs_def next_seq_def)

lemma keeps_other_tables:
  assumes "d_locks d' = d_locks d" "d_events d' = d_events d" "d_event_seq d' = d_event_seq d"
  shows "keeps (d, l) (d', l)"
  using lock_inv_frame[OF assms(1)] log_ok_frame[OF assms(2,3)] assms(1)
  by (simp add: keeps_def lock_ids_def)

lemma keeps_update_session [intro]: "keeps (d, l) (update_session org sid f d, l)"
  by (rule keeps_other_tables) (simp_all add: db_simps)

lemma keeps_session_writes:
  "UpdateSessionStatus org sid st d = Inr d' \<Longrightarrow> keeps (d, l) (d', l)"
  "SetSessionEndReason org sid re at d = Inr d' \<Longrightarrow> keeps (d, l) (d', l)"
  "ClearFinalizeLock org sid d = Inr d' \<Longrightarrow> keeps (d, l) (d', l)"
  by (auto simp: store_write_defs)

lemma keeps_locks:
  assumes "map fl_id (d_locks d') = map fl_id (d_locks d)" "lock_inv d \<Longrightarrow> lock_inv d'"
    "d_events d' = d_events d" "d_event_seq d' = d_event_seq d"
  shows "keeps (d, l) (d', l)"
  using lock_ids_cong[OF assms(1)] assms(2) log_ok_frame[OF assms(3,4)] by (simp add: keeps_def)

lemma keeps_release: "ReleaseLockRow i at d = Inr d' \<Longrightarrow> keeps (d, l) (d', l)"
  by (rule keeps_locks)
     (auto simp: ReleaseLockRow_def lock_ids_update db_simps
       intro: lock_inv_release[unfolded ReleaseLockRow_def])

lemma keeps_curation:
  assumes u: "UpdateFinalizeLockCuration i (MarshalStrings xs) b s m msg at d = Inr d'"
  shows "keeps (d, l) (d', l)"
proof (rule keeps_locks)
  show "lock_inv d \<Longrightarrow> lock_inv d'" using u by (rule lock_inv_curation[rotated])
qed (use u in \<open>auto simp: UpdateFinalizeLockCuration_def lock_ids_update db_simps split: if_splits\<close>)

lemma keeps_Emit: "keeps w (snd (Emit flt ids at org sid ty pay w))"
proof -
  obtain d l where w: "w = (d, l)" by (cases w)
  obtain r d' l' where e: "insertAndPublish flt ids at org sid [\<lparr>de_type = ty, de_payload = pay\<rparr>] (d, l) = (r, d', l')"
    by (metis prod.exhaust)
  have "log_ok (d, l) \<Longrightarrow> log_ok (d', l')"
    using e by (auto simp: log_ok_def intro: log_inv_insertAndPublish sub_inv_insertAndPublish)
  then have "keeps (d, l) (d', l')"
    using insertAndPublish_frame(1)[OF e] lock_inv_frame[of d' d] by (simp add: keeps_def lock_ids_def)
  then show ?thesis by (simp add: w Emit_def e)
qed

lemma keeps_AcquireCommit:
  assumes c: "AcquireCommit flt ids newid at pre w = (r, w')" and inv: "lock_inv (fst w)" and wf: "pre_wf (fst w) pre"
  shows "keeps w w'"
proof -
  obtain d l where w: "w = (d, l)" by (cases w)
  obtain q d1 where tx: "WithTx flt (AcquireTx flt newid pre) StoreErr d = (q, d1)" by (metis prod.exhaust)
  show ?thesis
  proof (cases q)
    case (Inl e)
    with tx have "d1 = d" using WithTx_rollback by metis
    with c w tx Inl have "w' = w" by (auto simp: AcquireCommit_def)
    then show ?thesis by auto
  next
    case (Inr b)
    with tx have "AcquireTx flt newid pre d = Inr (b, d1)" using WithTx_commit by metis
    note k = AcquireTx_keeps[OF this] 
    have "keeps (d, l) (d1, l)"
      using k inv wf log_ok_frame[of d1 d l] by (simp add: keeps_def w)
    moreover have "keeps (d1, l) w'"
      using c w tx Inr keeps_Emit by (auto simp: AcquireCommit_def split: if_splits)
    ultimately show ?thesis unfolding w by (rule keeps_trans)
  qed
qed

subsection \<open>The other handlers\<close>

lemma authorize_caller: "authorize flt caller org sid d = Inr acc \<Longrightarrow> caller = Some acc"
  by (auto simp: authorize_def split: option.splits sum.splits)

lemma PatchFinalizeLock_outcome:
  assumes "PatchFinalizeLock flt now caller org sid lockID body d = (r, d')"
  obtains "d' = d"
  | acc b lk where "caller = Some acc" "body = Some b"
      "loadLock flt org sid lockID d = (Inr lk :: FinalizeLockDTO resp + FinalizeLock)"
      "fl_acquired_by lk = acc" "lock_active lk" "IsLockExpired (fl_last_activity_at lk) now"
      "ReleaseLockRow (fl_id lk) now d = Inr d'"
  | acc b lk where "caller = Some acc" "body = Some b"
      "authorize flt caller org sid d = (Inr acc :: FinalizeLockDTO resp + string)"
      "loadLock flt org sid lockID d = (Inr lk :: FinalizeLockDTO resp + FinalizeLock)"
      "fl_acquired_by lk = acc" "lock_active lk" "\<not> IsLockExpired (fl_last_activity_at lk) now"
      "patchValidate b = None" "patchWrite flt now (fl_id lk) b d = (r, d')"
proof (cases "d' = d")
  case True
  then show ?thesis by (rule that(1))
next
  case False
  then obtain acc b lk where a: "authorize flt caller org sid d = (Inr acc :: FinalizeLockDTO resp + string)"
    and b: "body = Some b"
    and lk: "loadLock flt org sid lockID d = (Inr lk :: FinalizeLockDTO resp + FinalizeLock)"
    and own: "fl_acquired_by lk = acc" and act: "lock_active lk"
    using assms
    by (auto simp: PatchFinalizeLock_def lock_active_def split: if_splits option.splits sum.splits)
  note c = authorize_caller[OF a]
  show ?thesis
  proof (cases "IsLockExpired (fl_last_activity_at lk) now")
    case True
    then have "ReleaseLockRow (fl_id lk) now d = Inr d'"
      using assms a b c lk own act False
      by (auto simp: PatchFinalizeLock_def lock_active_def call_def ReleaseLockRow_def split: if_splits)
    then show ?thesis using that(2) c b lk own act True by blast
  next
    case ne: False
    then have "patchValidate b = None" "patchWrite flt now (fl_id lk) b d = (r, d')"
      using assms a b c lk own act False
      by (auto simp: PatchFinalizeLock_def lock_active_def split: option.splits)
    then show ?thesis using that(3) c b a lk own act ne by blast
  qed
qed

lemma patchWrite_curates:
  assumes "patchWrite flt now i b d = (r, d')" and "d' \<noteq> d"
  shows "UpdateFinalizeLockCuration i (MarshalStrings (pb_selected_commit_shas b)) (pb_target_branch b)
     (pb_base_sha b) (pb_mode b) (if pb_commit_message b = [] then None else Some (pb_commit_message b)) now d = Inr d'"
  using assms by (auto simp: patchWrite_def call_def split: if_splits sum.splits)

lemma keeps_Patch:
  assumes "PatchFinalizeLock flt now caller org sid lockID body d = (r, d')"
  shows "keeps (d, l) (d', l)"
  using assms
proof (cases rule: PatchFinalizeLock_outcome)
  case (3 acc b lk)
  then show ?thesis
    using patchWrite_curates[of flt now "fl_id lk" b d r d'] by (cases "d' = d") (auto intro: keeps_curation)
qed (auto intro: keeps_release)

lemma ReleaseFinalizeLock_outcome:
  assumes "ReleaseFinalizeLock flt now caller org sid lockID d = (r, d')"
  obtains "d' = d"
  | acc lk d1 where "caller = Some acc" "loadLock flt org sid lockID d = (Inr lk :: unit resp + FinalizeLock)"
      "fl_acquired_by lk = acc" "fl_released_at lk = None" "r = NoContent"
      "ReleaseLockRow (fl_id lk) now d = Inr d1"
      "d' = d1 \<or> ClearFinalizeLock org sid d1 = Inr d'"
proof (cases "d' = d")
  case True
  then show ?thesis by (rule that(1))
next
  case False
  then obtain acc lk where a: "authorize flt caller org sid d = (Inr acc :: unit resp + string)"
    and lk: "loadLock flt org sid lockID d = (Inr lk :: unit resp + FinalizeLock)"
    and own: "fl_acquired_by lk = acc" "fl_released_at lk = None"
    using assms by (auto simp: ReleaseFinalizeLock_def split: if_splits sum.splits)
  then show ?thesis
    using that(2)[OF authorize_caller[OF a] lk own] assms False
    by (cases "call flt ''release lock'' 0 (ReleaseLockRow (fl_id lk) now d)")
       (auto simp: ReleaseFinalizeLock_def call_def split: if_splits sum.splits)
qed

lemma keeps_Release:
  assumes "ReleaseFinalizeLock flt now caller org sid lockID d = (r, d')"
  shows "keeps (d, l) (d', l)"
  using assms
proof (cases rule: ReleaseFinalizeLock_outcome)
  case (2 acc lk d1)
  have "keeps (d, l) (d1, l)" by (rule keeps_release[OF 2(6)])
  moreover from 2(7) have "keeps (d1, l) (d', l)" by (auto intro: keeps_session_writes(3))
  ultimately show ?thesis by (rule keeps_trans)
qed auto

lemma keeps_releaseOnShip:
  "releaseOnShip flt now org sid sess d = (e, d') \<Longrightarrow> keeps (d, l) (d', l)"
  by (auto simp: releaseOnShip_def call_def split: sum.splits if_splits
      intro: keeps_release keeps_trans[OF keeps_release keeps_session_writes(3)])

lemma keeps_shipTransition:
  assumes "shipTransition flt ids now at org sid fb sess (d, l) = (r, w')"
  shows "keeps (d, l) w'"
proof -
  let ?d1 = "update_session org sid (s_status_update (\<lambda>_. ''ended'')) d"
  let ?d2 = "update_session org sid (\<lambda>s. s\<lparr>s_end_reason := Some ''shipped'', s_ended_at := Some now\<rparr>) ?d1"
  obtain e d3 where r: "releaseOnShip flt now org sid sess ?d2 = (e, d3)" by (metis prod.exhaust)
  have k1: "keeps (d, l) (?d1, l)" by auto
  have k2: "keeps (d, l) (?d2, l)" by (rule keeps_trans[OF k1]) auto
  have k3: "keeps (d, l) (d3, l)" by (rule keeps_trans[OF k2 keeps_releaseOnShip[OF r]])
  have "w' = (d, l) \<or> w' = (?d1, l) \<or> w' = (d3, l)
    \<or> w' = snd (Emit (emit_faults flt) ids at org sid ''session.ended'' (ended_payload fb) (d3, l))"
    using assms r
    by (auto simp: shipTransition_def call_def UpdateSessionStatus_def SetSessionEndReason_def Let_def
        split: if_splits option.splits)
  then show ?thesis using k1 k3 keeps_trans[OF k3 keeps_Emit] by auto
qed

lemma keeps_Ship:
  assumes "MarkSessionShipped flt ids now at caller org sid fb w = (r, w')"
  shows "keeps w w'"
proof (cases "w' = w")
  case False
  then obtain sess where "shipTransition flt ids now at org sid fb sess w = (r, w')"
    using assms by (auto simp: MarkSessionShipped_def Let_def split: sum.splits if_splits)
  then show ?thesis using keeps_shipTransition by (cases w) blast
qed auto

subsection \<open>Interleavings\<close>

text \<open>
  The portal serves requests concurrently.  The state is the database, the subscribers and the
  acquisitions that have done their reads but not yet their transaction; these commit later, in
  any order, on whatever database they then find.  The single-statement handlers may also have
  their writes delayed: \<open>late_release\<close> and \<open>late_curate\<close> are the two lock statements they issue,
  for any lock id and at any time.  Sessions, members and accounts are changed by other parts of
  the portal in any way (\<open>environment\<close>).
\<close>

type_synonym fin_state = "(db \<times> log_state) \<times> acquire_pre list"

inductive fin_step :: "fin_state \<Rightarrow> fin_state \<Rightarrow> bool" where
  acquire_read: "AcquirePreflight flt now caller org sid ov (fst w) = Inr pre \<Longrightarrow>
     fin_step (w, ps) (w, ps @ [pre])"
| acquire_commit: "pre \<in> set ps \<Longrightarrow> AcquireCommit flt ids newid at pre w = (r, w') \<Longrightarrow>
     fin_step (w, ps) (w', remove1 pre ps)"
| patch: "PatchFinalizeLock flt now caller org sid lockID body d = (r, d') \<Longrightarrow>
     fin_step ((d, l), ps) ((d', l), ps)"
| release: "ReleaseFinalizeLock flt now caller org sid lockID d = (r, d') \<Longrightarrow>
     fin_step ((d, l), ps) ((d', l), ps)"
| ship: "MarkSessionShipped flt ids now at caller org sid fb w = (r, w') \<Longrightarrow>
     fin_step (w, ps) (w', ps)"
| late_release: "ReleaseLockRow i now d = Inr d' \<Longrightarrow> fin_step ((d, l), ps) ((d', l), ps)"
| late_curate: "UpdateFinalizeLockCuration i (MarshalStrings xs) b sha m msg now d = Inr d' \<Longrightarrow>
     fin_step ((d, l), ps) ((d', l), ps)"
| environment: "d_locks d' = d_locks d \<Longrightarrow> d_events d' = d_events d \<Longrightarrow> d_event_seq d' = d_event_seq d \<Longrightarrow>
     fin_step ((d, l), ps) ((d', l), ps)"
| logging: "log_step w w' \<Longrightarrow> d_locks (fst w') = d_locks (fst w) \<Longrightarrow> fin_step (w, ps) (w', ps)"

definition fin_start :: "fin_state \<Rightarrow> bool" where
  "fin_start s \<longleftrightarrow> log_start (fst s) \<and> d_locks (fst (fst s)) = [] \<and> snd s = []"

definition fin_ok :: "fin_state \<Rightarrow> bool" where
  "fin_ok s \<longleftrightarrow>
     lock_inv (fst (fst s)) \<and> log_ok (fst s) \<and> (\<forall>pre \<in> set (snd s). pre_wf (fst (fst s)) pre)"

lemma pre_wf_mono: "pre_wf d pre \<Longrightarrow> lock_ids d \<subseteq> lock_ids d' \<Longrightarrow> pre_wf d' pre"
  by (auto simp: pre_wf_def)

lemma fin_ok_keeps:
  "fin_ok (w, ps) \<Longrightarrow> keeps w w' \<Longrightarrow> set ps' \<subseteq> set ps \<Longrightarrow> fin_ok (w', ps')"
  by (auto simp: fin_ok_def keeps_def intro: pre_wf_mono)

lemma fin_ok_start: "fin_start s \<Longrightarrow> fin_ok s"
  by (cases s) (auto simp: fin_start_def fin_ok_def lock_inv_def active_locks_def intro: log_ok_start)

lemma fin_ok_step: "fin_step s s' \<Longrightarrow> fin_ok s \<Longrightarrow> fin_ok s'"
proof (induction rule: fin_step.induct)
  case (acquire_read flt now caller org sid ov w pre ps)
  then show ?case using pre_wf_preflight(1) by (auto simp: fin_ok_def)
next
  case (acquire_commit pre ps flt ids newid at w r w')
  then have "keeps w w'" by (intro keeps_AcquireCommit) (auto simp: fin_ok_def)
  with acquire_commit.prems show ?case by (rule fin_ok_keeps) (rule set_remove1_subset)
next
  case (logging w w' ps)
  then have "keeps w w'"
    using lock_inv_frame[of "fst w'" "fst w"] log_ok_step[of w w'] by (simp add: keeps_def lock_ids_def)
  with logging.prems show ?case by (rule fin_ok_keeps) simp
qed (erule fin_ok_keeps; auto intro: keeps_Patch keeps_Release keeps_Ship keeps_release keeps_curation
      keeps_other_tables)+

interpretation fin_sys: invariant_system fin_start fin_step fin_ok
  by unfold_locales (auto intro: fin_ok_start fin_ok_step)

text \<open>
  C3: Mutual exclusion.  Under every interleaving of acquisitions (their reads and their
  transactions taken apart), patches, releases, shipping, delayed writes and changes to other
  tables, with any failures, two active finalize locks of one session are the same lock; and a
  superseded lock is always a released one.
\<close>
theorem one_active_lock:
  assumes "reachable fin_start fin_step ((d, l), ps)"
    and "a \<in> set (d_locks d)" "b \<in> set (d_locks d)" "fl_session a = fl_session b"
    and "lock_active a" "lock_active b"
  shows "a = b \<and> (\<forall>x \<in> set (d_locks d). fl_superseded_by x \<noteq> None \<longrightarrow> fl_released_at x \<noteq> None)"
proof -
  have inv: "lock_inv d" using fin_sys.reachable_inv[OF assms(1)] by (simp add: fin_ok_def)
  then have "length (active_locks (fl_session a) d) \<le> 1" by (simp add: lock_inv_def)
  moreover have "a \<in> set (active_locks (fl_session a) d)" "b \<in> set (active_locks (fl_session a) d)"
    using assms by (auto simp: active_locks_def)
  ultimately have "a = b" by (cases "active_locks (fl_session a) d") auto
  with inv show ?thesis by (auto simp: lock_inv_def lock_row_ok_def)
qed

text \<open>
  The Go check and the SQL cutoff agree: a lock counts as expired for a handler exactly when
  its last activity is below the cutoff the conditional release uses, also when the clocks are
  skewed or the difference saturates.
\<close>
theorem IsLockExpired_cutoff:
  "IsLockExpired lastActivity now \<longleftrightarrow> lastActivity < now - FinalizeLockTTL"
  by (auto simp: IsLockExpired_def FinalizeLockTTL_def time_Sub_def)

lemma AcquireCommit_201:
  assumes "AcquireCommit flt ids newid at pre (d, l) = (JSON c st, d', l')"
  obtains b d1 where "AcquireTx flt newid pre d = Inr (b, d1)"
    and "d_locks d' = d_locks d1" and "d_sessions d' = d_sessions d1"
    and "st = lockStatus (new_lock newid pre) True"
proof -
  obtain q d1 where tx: "WithTx flt (AcquireTx flt newid pre) StoreErr d = (q, d1)" by (metis prod.exhaust)
  with assms obtain b where b: "q = Inr b" and st: "st = lockStatus (new_lock newid pre) True"
    by (auto simp: AcquireCommit_def held_by_other_def split: sum.splits acquire_error.splits if_splits)
  obtain r' d2 l2 where e: "insertAndPublish (emit_faults flt) ids at (ap_org pre) (ap_session pre)
      [\<lparr>de_type = ''session.finalizing'',
        de_payload = MarshalObject [(''session_id'', ap_session pre), (''org_id'', ap_org pre)]\<rparr>] (d1, l) = (r', d2, l2)"
    by (metis prod.exhaust)
  have "d' = d1 \<or> d' = d2" using assms tx b e by (auto simp: AcquireCommit_def Emit_def split: if_splits)
  then have "d_locks d' = d_locks d1" "d_sessions d' = d_sessions d1" using insertAndPublish_frame[OF e] by auto
  moreover have "AcquireTx flt newid pre d = Inr (b, d1)" using tx b WithTx_commit by metis
  ultimately show ?thesis using st by (intro that)
qed

lemma releaseExisting_stale:
  assumes "releaseExisting flt pre d = Inr d1" and "ap_supersede pre = []"
    and "x \<in> set (d_locks d)" and "lock_active x" and "x \<notin> set (d_locks d1)"
  shows "fl_last_activity_at x < ap_now pre - FinalizeLockTTL"
  using assms
  by (force simp: releaseExisting_def res_bind_Inr_iff lift_err_Inr_iff call_Inr_iff
      ReleaseFinalizeLockIfStale_def Let_def update_locks_def split: option.splits if_splits)

text \<open>
  C4: A lock in use is never taken over silently.  Take any acquisition without override, its reads
  done at one time and its transaction at another.  If it succeeds, then every other lock of the
  session that was active when the transaction ran had, at that moment, been idle for more than
  the time-to-live: a holder who refreshed the lock after the reads keeps it.
\<close>
theorem fresh_lock_respected:
  assumes pre: "AcquirePreflight flt0 now caller org sid False d0 = Inr pre"
    and commit: "AcquireCommit flt ids newid at pre (d, l) = (JSON c st, d', l')"
    and x: "x \<in> set (d_locks d)" "fl_session x = sid" "lock_active x"
  shows "fl_last_activity_at x < now - FinalizeLockTTL"
proof -
  note p = pre_wf_preflight[OF pre]
  have no: "ap_supersede pre = []" using p(6) by auto
  obtain b d1 where tx: "AcquireTx flt newid pre d = Inr (b, d1)"
    by (rule AcquireCommit_201[OF commit]) (rule that)
  obtain e1 e2 where r: "releaseExisting flt pre d = Inr e1"
    and i: "InsertFinalizeLock (new_lock newid pre) e1 = Inr e2"
    by (rule AcquireTx_Inr[OF tx]) (rule that)
  have "active_locks sid e1 = []"
    using i p(2) by (auto simp: InsertFinalizeLock_def new_lock_def lock_active_def split: if_splits)
  then have "x \<notin> set (d_locks e1)" using x by (auto simp: active_locks_def filter_empty_conv)
  with releaseExisting_stale[OF r no x(1,3)] p(4) show ?thesis by simp
qed

lemma acquire_new_lock_active:
  assumes tx: "AcquireTx flt newid pre d = Inr (b, d')" and inv: "lock_inv d" and wf: "pre_wf d pre"
  shows "active_locks (ap_session pre) d' = [new_lock newid pre]"
proof -
  obtain d1 d2 where r: "releaseExisting flt pre d = Inr d1"
    and i: "InsertFinalizeLock (new_lock newid pre) d1 = Inr d2"
    and d': "d' = pointSession pre (supersedeExisting newid pre d2)"
    by (rule AcquireTx_Inr[OF tx]) (rule that)
  have "newid \<noteq> ap_supersede pre" if "ap_supersede pre \<noteq> []"
  proof -
    from wf that have "ap_supersede pre \<in> lock_ids d" by (auto simp: pre_wf_def)
    then have "ap_supersede pre \<in> fl_id ` set (d_locks d1)"
      using lock_ids_cong[OF releaseExisting_Inr(2)[OF r]] by (simp add: lock_ids_def)
    then show ?thesis using i by (auto simp: InsertFinalizeLock_def new_lock_def split: if_splits)
  qed
  then have "new_lock newid pre \<in> set (d_locks d')"
    using i by (auto simp: d' db_simps supersedeExisting_def update_locks_def InsertFinalizeLock_def
        new_lock_def split: if_splits)
  then have "new_lock newid pre \<in> set (active_locks (ap_session pre) d')"
    by (simp add: active_locks_def lock_active_def new_lock_def)
  moreover have "length (active_locks (ap_session pre) d') \<le> 1"
    using AcquireTx_keeps(1)[OF tx inv wf] by (simp add: lock_inv_def)
  ultimately show ?thesis by (cases "active_locks (ap_session pre) d'") auto
qed

lemma acquire_pointer:
  assumes tx: "AcquireTx flt newid pre d = Inr (b, d')" and s: "GetSession d (ap_org pre) (ap_session pre) = Inr sess"
  shows "map_option s_finalize_locked_by (d_sessions d' (ap_session pre)) = Some (Some (ap_account pre))"
proof -
  obtain d1 d2 where r: "releaseExisting flt pre d = Inr d1"
    and i: "InsertFinalizeLock (new_lock newid pre) d1 = Inr d2"
    and d': "d' = pointSession pre (supersedeExisting newid pre d2)"
    by (rule AcquireTx_Inr[OF tx]) (rule that)
  have "d_sessions (supersedeExisting newid pre d2) = d_sessions d"
    using i releaseExisting_Inr(3)[OF r] by (auto simp: db_simps InsertFinalizeLock_def split: if_splits)
  then show ?thesis
    using s by (auto simp: d' pointSession_def Let_def update_session_def GetSession_def
        split: option.splits if_splits)
qed

lemma AcquireCommit_not_201:
  "AcquireCommit flt ids newid at pre w = (r, w') \<Longrightarrow> (\<And>c st. r \<noteq> JSON c st) \<Longrightarrow> w' = w"
  by (auto simp: AcquireCommit_def dest: WithTx_rollback split: prod.splits sum.splits)

lemma authorize_not_JSON: "authorize flt caller org sid d \<noteq> Inl (JSON c st)"
  by (auto simp: authorize_def verdict_response_def session_not_found_def
      split: option.splits sum.splits membershipVerdict.splits)

lemma AcquirePreflight_idempotent:
  assumes "AcquirePreflight flt now caller org sid ov d = Inl (JSON c st)"
  shows "\<exists>lk acc. caller = Some acc \<and> GetActiveFinalizeLockForSession d sid = Inr lk
    \<and> fl_acquired_by lk = acc \<and> st = lockStatus lk True"
proof (cases "authorize flt caller org sid d :: LockStatus resp + string")
  case (Inl r)
  with assms authorize_not_JSON[of flt caller org sid d c st] show ?thesis
    by (simp add: AcquirePreflight_def)
next
  case (Inr acc)
  with assms authorize_caller[OF Inr] show ?thesis
    by (cases "call flt ''get session'' 0 (GetSession d org sid)";
        cases "call flt ''get active lock'' 0 (GetActiveFinalizeLockForSession d sid)")
       (auto simp: AcquirePreflight_def acquireDecision_def session_not_found_def held_by_other_def
          call_Inr_iff Let_def split: if_splits)
qed


subsection \<open>A session with two members\<close>

definition ex_session :: "string \<Rightarrow> Session" where
  "ex_session st = \<lparr>s_id = ''s'', s_org = ''o'', s_name = ''demo'', s_goal = ''ship it'', s_writable_scope = [],
     s_default_mode = ''sync'', s_base_sha = None, s_status = st, s_created_at = 0,
     s_ended_at = None, s_end_reason = None, s_finalize_locked_by = None,
     s_last_activity_at = None, s_hard_cap_at = None, s_idle_timeout_at = None\<rparr>"

definition ex_member :: "string \<Rightarrow> SessionMember" where
  "ex_member acc = \<lparr>sm_org = ''o'', sm_session = ''s'', sm_account = acc, sm_role = ''member'', sm_joined_at = 0\<rparr>"

definition ex_db :: "string \<Rightarrow> db" where
  "ex_db st = empty_db\<lparr>d_sessions := [''s'' \<mapsto> ex_session st], d_org_members := [(''o'', ''ann''), (''o'', ''bob'')],
     d_session_members := [ex_member ''ann'', ex_member ''bob'']\<rparr>"

text \<open>Ann acquires the lock at time 0.\<close>

definition ann_pre :: acquire_pre where
  "ann_pre = \<lparr>ap_org = ''o'', ap_session = ''s'', ap_account = ''ann'', ap_now = 0, ap_status = ''active'',
     ap_existing = None, ap_supersede = []\<rparr>"

definition ann_world :: "db \<times> log_state" where
  "ann_world = snd (AcquireCommit no_faults demo_ids ''L1'' 0 ann_pre (ex_db ''active'', empty_log))"

lemma ann_preflight:
  "AcquirePreflight no_faults 0 (Some ''ann'') ''o'' ''s'' False (ex_db ''active'') = Inr ann_pre"
  by code_simp

lemma ann_reachable: "reachable fin_start fin_step (ann_world, [])"
proof -
  let ?w = "(ex_db ''active'', empty_log)"
  have "fin_start (?w, [])"
    by (simp add: fin_start_def log_start_def ex_db_def empty_db_def empty_log_def)
  then have "reachable fin_start fin_step (?w, [])" by (rule reach_init)
  moreover have "fin_step (?w, []) (?w, [] @ [ann_pre])"
    by (rule fin_step.acquire_read) (simp only: fst_conv, rule ann_preflight)
  moreover have "fin_step (?w, [] @ [ann_pre]) (ann_world, remove1 ann_pre ([] @ [ann_pre]))"
    by (rule fin_step.acquire_commit) (auto simp: ann_world_def prod_eq_iff)
  ultimately show ?thesis by simp (blast intro: reach_step)
qed

lemma ann_locks: "d_locks (fst ann_world) = [new_lock ''L1'' ann_pre]"
  by code_simp

theorem one_active_lock_witness:
  "\<exists>a \<in> set (d_locks (fst ann_world)). lock_active a \<and> a = new_lock ''L1'' ann_pre
     \<and> (\<forall>x \<in> set (d_locks (fst ann_world)). fl_superseded_by x \<noteq> None \<longrightarrow> fl_released_at x \<noteq> None)"
  using one_active_lock[of "fst ann_world" "snd ann_world" "[]" "new_lock ''L1'' ann_pre" "new_lock ''L1'' ann_pre"]
    ann_reachable
  by (simp add: ann_locks lock_active_def new_lock_def)

text \<open>Bob acquires it without override, one nanosecond after it has expired.\<close>

definition bob_pre :: acquire_pre where
  "bob_pre = \<lparr>ap_org = ''o'', ap_session = ''s'', ap_account = ''bob'', ap_now = FinalizeLockTTL + 1,
     ap_status = ''finalizing'', ap_existing = Some (new_lock ''L1'' ann_pre), ap_supersede = []\<rparr>"

lemma bob_preflight:
  "AcquirePreflight no_faults (FinalizeLockTTL + 1) (Some ''bob'') ''o'' ''s'' False (fst ann_world) = Inr bob_pre"
  by code_simp

lemma bob_commit:
  "fst (AcquireCommit no_faults demo_ids ''L2'' 0 bob_pre ann_world) = JSON 201 (lockStatus (new_lock ''L2'' bob_pre) True)"
  by code_simp

theorem fresh_lock_respected_witness:
  "fl_last_activity_at (new_lock ''L1'' ann_pre) < (FinalizeLockTTL + 1) - FinalizeLockTTL"
proof -
  obtain d' l' where c: "AcquireCommit no_faults demo_ids ''L2'' 0 bob_pre (fst ann_world, snd ann_world) =
      (JSON 201 (lockStatus (new_lock ''L2'' bob_pre) True), d', l')"
    using bob_commit by (cases "AcquireCommit no_faults demo_ids ''L2'' 0 bob_pre ann_world") auto
  show ?thesis
    by (rule fresh_lock_respected[OF bob_preflight c])
       (simp_all add: ann_locks, simp_all add: new_lock_def ann_pre_def lock_active_def)
qed


text \<open>
  C21: Only the holder changes a lock through PATCH, and only to validated values.  If a request
  changes the database at all, the caller is the holder of the addressed lock, the lock is active
  and of the session in the path; and either it had expired and is released, or it had not and
  exactly its curation columns are replaced, by a known mode, a valid branch name and a full
  commit hash.
\<close>
theorem patch_by_holder_only:
  assumes "PatchFinalizeLock flt now caller org sid lockID body d = (r, d')" and "d' \<noteq> d"
  shows "\<exists>lk b. lk \<in> set (d_locks d) \<and> fl_id lk = lockID \<and> caller = Some (fl_acquired_by lk) \<and> body = Some b
     \<and> lock_active lk \<and> fl_session lk = sid \<and> fl_org lk = org
     \<and> (if IsLockExpired (fl_last_activity_at lk) now
        then ReleaseLockRow lockID now d = Inr d'
        else valid_mode (pb_mode b) \<and> ValidateTargetBranch (pb_target_branch b) \<and> ValidateBaseSHA (pb_base_sha b)
          \<and> UpdateFinalizeLockCuration lockID (MarshalStrings (pb_selected_commit_shas b)) (pb_target_branch b)
              (pb_base_sha b) (pb_mode b) (if pb_commit_message b = [] then None else Some (pb_commit_message b)) now d
            = Inr d')"
proof -
  have load: "lk \<in> set (d_locks d) \<and> fl_id lk = lockID \<and> fl_session lk = sid \<and> fl_org lk = org"
    if "loadLock flt org sid lockID d = (Inr lk :: FinalizeLockDTO resp + FinalizeLock)" for lk
    using that find_Some_iff'[of "\<lambda>l. fl_id l = lockID" "d_locks d" lk]
    by (auto simp: loadLock_def call_def GetFinalizeLockByID_def split: sum.splits if_splits option.splits)
  from assms(1) show ?thesis
  proof (cases rule: PatchFinalizeLock_outcome)
    case 1
    with assms(2) show ?thesis by simp
  next
    case (2 acc b lk)
    with load[OF 2(3)] show ?thesis by auto
  next
    case (3 acc b lk)
    have v: "valid_mode (pb_mode b)" "ValidateTargetBranch (pb_target_branch b)" "ValidateBaseSHA (pb_base_sha b)"
      using 3(8) by (auto simp: patchValidate_def valid_mode_def split: if_splits)
    have u: "UpdateFinalizeLockCuration lockID (MarshalStrings (pb_selected_commit_shas b)) (pb_target_branch b)
        (pb_base_sha b) (pb_mode b) (if pb_commit_message b = [] then None else Some (pb_commit_message b)) now d = Inr d'"
      using patchWrite_curates[OF 3(9) assms(2)] load[OF 3(4)] by simp
    show ?thesis
      by (rule exI[of _ lk], rule exI[of _ b]) (simp only: u v load[OF 3(4)] 3(1,2,5-7) simp_thms if_False)
  qed
qed

definition ann_body :: PatchBody where
  "ann_body = \<lparr>pb_mode = ''squash'', pb_target_branch = ''ship/it'', pb_base_sha = replicate 40 CHR ''a'',
     pb_selected_commit_shas = [replicate 40 CHR ''b''], pb_commit_message = []\<rparr>"

definition ann_patched :: "FinalizeLockDTO resp \<times> db" where
  "ann_patched = PatchFinalizeLock no_faults 5 (Some ''ann'') ''o'' ''s'' ''L1'' (Some ann_body) (fst ann_world)"

lemma ann_patched_locks: "map fl_last_activity_at (d_locks (snd ann_patched)) = [5]"
  by code_simp

theorem patch_by_holder_only_witness:
  "\<exists>lk b. lk \<in> set (d_locks (fst ann_world)) \<and> fl_id lk = ''L1'' \<and> ''ann'' = fl_acquired_by lk
     \<and> Some ann_body = Some b \<and> lock_active lk"
proof -
  have "map fl_last_activity_at (d_locks (fst ann_world)) = [0]"
    by (simp add: ann_locks new_lock_def ann_pre_def)
  then have "snd ann_patched \<noteq> fst ann_world" using ann_patched_locks by auto
  then show ?thesis
    using patch_by_holder_only[of no_faults 5 "Some ''ann''" "''o''" "''s''" "''L1''" "Some ann_body" "fst ann_world"
      "fst ann_patched" "snd ann_patched"]
    by (simp add: ann_patched_def) blast
qed

end
