(* ===== verification/JSONRoundtrip.thy ===== *)
theory JSONRoundtrip
  imports GoJSON
begin

text \<open>
  Decoding undoes encoding: for valid UTF-8 strings \<^verbatim>\<open>json.Unmarshal\<close> of \<^verbatim>\<open>json.Marshal\<close> of a list of
  strings is that list.
\<close>

function valid_utf8 :: "string \<Rightarrow> bool" where
  "valid_utf8 s =
     (if s = [] then True
      else if utf8_len s = 0 then False
      else valid_utf8 (drop (utf8_len s) s))"
  by pat_completeness auto
termination
  by (relation "measure length") auto

declare valid_utf8.simps [simp del]

lemma valid_utf8_Nil [simp]: "valid_utf8 []"
  by (simp add: valid_utf8.simps)

subsection \<open>Escapes\<close>

lemma getu4_append: "length w = 4 \<Longrightarrow> getu4 (w @ t) = getu4 w"
  by (auto simp: getu4_def length_Suc_conv numeral_eq_Suc)

lemma hex_digit_0: "hex_digit 0 = CHR ''0''"
  by code_simp

lemma fmt_04x_byte:
  assumes "n < 256"
  shows "fmt_04x n = [CHR ''0'', CHR ''0'', hex_digit (n div 16), hex_digit (n mod 16)]"
proof (cases "n < 16")
  case True
  then show ?thesis by (simp add: fmt_04x_def hex_digits.simps[of n] hex_digit_0 numeral_3_eq_3)
next
  case False
  with assms have "n div 16 < 16" by auto
  with False show ?thesis
    by (simp add: fmt_04x_def hex_digits.simps[of n] hex_digits.simps[of "n div 16"] numeral_2_eq_2)
qed

lemma fmt_04x_small:
  assumes "n < 256"
  shows "length (fmt_04x n) = 4" "getu4 (fmt_04x n) = Some n"
proof -
  have z: "hex_digit_value (CHR ''0'') = Some 0" by code_simp
  have "n div 16 < 16" "n mod 16 < 16" using assms by auto
  then show "getu4 (fmt_04x n) = Some n"
    by (simp add: fmt_04x_byte[OF assms] getu4_def z hex_digit_value_hex_digit)
  show "length (fmt_04x n) = 4" by (simp add: fmt_04x_byte[OF assms])
qed

lemma json_string_u_escape:
  assumes "length (fmt_04x n) = 4" "getu4 (fmt_04x n) = Some n" "n < 0xD800"
  shows "json_string (u_escape n @ t) = map_option (apfst (append (utf8_encode n))) (json_string t)"
  using assms by (subst json_string.simps) (simp add: u_escape_def getu4_append byte_def)

lemma utf8_len_ascii: "byte c < 0x80 \<Longrightarrow> utf8_len (c # r) = 1"
  by (simp add: utf8_len_def)

lemma byte_inject: "byte c = byte d \<longleftrightarrow> c = d"
  by (simp add: byte_def)

lemma char_of_byte: "char_of (byte c) = c"
  by (simp add: byte_def)

lemma append_single: "(@) [c] = (#) c"
  by (simp add: fun_eq_iff)

lemma json_string_escape_byte:
  assumes "byte c < 0x80"
  shows "json_string (escape_byte c @ t) = map_option (apfst (Cons c)) (json_string t)"
proof -
  have u: "json_string (u_escape (byte c) @ t) = map_option (apfst (Cons c)) (json_string t)"
    using json_string_u_escape[OF fmt_04x_small, of "byte c" t] assms
    by (simp add: utf8_encode_def char_of_byte append_single)
  have plain: "json_string (c # t) = map_option (apfst (Cons c)) (json_string t)"
    if "c \<noteq> CHR 0x22" "c \<noteq> CHR 0x5C" "\<not> byte c < 0x20"
    using that utf8_len_ascii[OF assms, of t] by (subst json_string.simps) (simp add: append_single)
  have esc: "json_string (CHR 0x5C # e # t) = map_option (apfst (Cons (the (escape_char e)))) (json_string t)"
    if "escape_char e \<noteq> None" "e \<noteq> CHR ''u''" for e
    using that by (subst json_string.simps) (auto simp: byte_def)
  have ec: "escape_char (CHR 0x22) = Some (CHR 0x22)" "escape_char (CHR 0x5C) = Some (CHR 0x5C)"
    "escape_char (CHR ''b'') = Some (CHR 0x08)" "escape_char (CHR ''f'') = Some (CHR 0x0C)"
    "escape_char (CHR ''n'') = Some (CHR 0x0A)" "escape_char (CHR ''r'') = Some (CHR 0x0D)"
    "escape_char (CHR ''t'') = Some (CHR 0x09)"
    by code_simp+
  have eb: "escape_byte (CHR 0x22) = [CHR 0x5C, CHR 0x22]" "escape_byte (CHR 0x5C) = [CHR 0x5C, CHR 0x5C]"
    "escape_byte (CHR 0x08) = [CHR 0x5C, CHR ''b'']" "escape_byte (CHR 0x0C) = [CHR 0x5C, CHR ''f'']"
    "escape_byte (CHR 0x0A) = [CHR 0x5C, CHR ''n'']" "escape_byte (CHR 0x0D) = [CHR 0x5C, CHR ''r'']"
    "escape_byte (CHR 0x09) = [CHR 0x5C, CHR ''t'']"
    by code_simp+
  consider "c = CHR 0x22" | "c = CHR 0x5C" | "c = CHR 0x08" | "c = CHR 0x0C" | "c = CHR 0x0A"
    | "c = CHR 0x0D" | "c = CHR 0x09" | "escape_byte c = u_escape (byte c)"
    | "escape_byte c = [c]" "c \<noteq> CHR 0x22" "c \<noteq> CHR 0x5C" "\<not> byte c < 0x20"
    unfolding escape_byte_def by argo
  then show ?thesis
    by cases (simp_all add: u plain esc ec eb)
qed

subsection \<open>Multi-byte runes\<close>

lemma cont_byte_append:
  "i < length w \<Longrightarrow> cont_byte lo hi (w @ t) i = cont_byte lo hi w i"
  by (simp add: cont_byte_def nth_append)

lemma utf8_len_cases:
  assumes "utf8_len s = n" "n \<noteq> 0"
  obtains "s \<noteq> []" "n = 1" "byte (hd s) < 0x80"
  | "s \<noteq> []" "n = 2" "0xC2 \<le> byte (hd s)" "byte (hd s) \<le> 0xDF" "cont_byte 0x80 0xBF s 1"
  | "s \<noteq> []" "n = 3" "0xE0 \<le> byte (hd s)" "byte (hd s) \<le> 0xEF"
      "cont_byte (if byte (hd s) = 0xE0 then 0xA0 else 0x80) (if byte (hd s) = 0xED then 0x9F else 0xBF) s 1"
      "cont_byte 0x80 0xBF s 2"
  | "s \<noteq> []" "n = 4" "0xF0 \<le> byte (hd s)" "byte (hd s) \<le> 0xF4"
      "cont_byte (if byte (hd s) = 0xF0 then 0x90 else 0x80) (if byte (hd s) = 0xF4 then 0x8F else 0xBF) s 1"
      "cont_byte 0x80 0xBF s 2" "cont_byte 0x80 0xBF s 3"
proof -
  have s: "s \<noteq> []" using assms by (auto simp: utf8_len_def)
  consider (1) "byte (hd s) < 0x80" | (2) "\<not> byte (hd s) < 0x80" "0xC2 \<le> byte (hd s) \<and> byte (hd s) \<le> 0xDF"
    | (3) "\<not> byte (hd s) < 0x80" "\<not> (0xC2 \<le> byte (hd s) \<and> byte (hd s) \<le> 0xDF)"
          "0xE0 \<le> byte (hd s) \<and> byte (hd s) \<le> 0xEF"
    | (4) "\<not> byte (hd s) < 0x80" "\<not> (0xC2 \<le> byte (hd s) \<and> byte (hd s) \<le> 0xDF)"
          "\<not> (0xE0 \<le> byte (hd s) \<and> byte (hd s) \<le> 0xEF)"
    by blast
  then show thesis
  proof cases
    case 1
    with assms s show thesis using that(1) by (simp add: utf8_len_def)
  next
    case 2
    with assms s have "cont_byte 0x80 0xBF s 1" "n = 2"
      by (simp_all only: utf8_len_def Let_def if_True if_False split: if_splits)
    with 2 s show thesis using that(2) by simp
  next
    case 3
    with assms s have "cont_byte (if byte (hd s) = 0xE0 then 0xA0 else 0x80) (if byte (hd s) = 0xED then 0x9F else 0xBF) s 1
      \<and> cont_byte 0x80 0xBF s 2" "n = 3"
      by (simp_all only: utf8_len_def Let_def if_True if_False) (metis+)
    with 3 s show thesis using that(3) by blast
  next
    case 4
    with assms s have "0xF0 \<le> byte (hd s) \<and> byte (hd s) \<le> 0xF4"
      by (simp only: utf8_len_def Let_def if_True if_False) metis
    with 4 assms s have "cont_byte (if byte (hd s) = 0xF0 then 0x90 else 0x80) (if byte (hd s) = 0xF4 then 0x8F else 0xBF) s 1
      \<and> cont_byte 0x80 0xBF s 2 \<and> cont_byte 0x80 0xBF s 3" "n = 4"
      by (simp_all only: utf8_len_def Let_def if_True if_False simp_thms) (metis+)
    with \<open>0xF0 \<le> byte (hd s) \<and> byte (hd s) \<le> 0xF4\<close> s show thesis using that(4) by blast
  qed
qed

lemma utf8_len_le: "utf8_len s \<le> length s"
proof (cases "utf8_len s = 0")
  case False
  from refl False show ?thesis by (cases rule: utf8_len_cases) (auto simp: cont_byte_def Suc_le_eq)
qed simp

lemma cont_byte_take:
  "i < n \<Longrightarrow> n \<le> length s \<Longrightarrow> cont_byte lo hi (take n s @ t) i \<longleftrightarrow> cont_byte lo hi s i"
  by (simp add: cont_byte_def nth_append)

lemma utf8_len_take:
  assumes "utf8_len s = n" "n \<noteq> 0"
  shows "utf8_len (take n s @ t) = n"
proof -
  have n: "n \<le> length s" using utf8_len_le[of s] assms by simp
  then have h: "hd (take n s @ t) = hd s" using assms(2) by (cases s) (auto simp: hd_append take_Cons')
  have c: "cont_byte lo hi (take n s @ t) i \<longleftrightarrow> cont_byte lo hi s i" if "i < n" for i lo hi
    by (rule cont_byte_take[OF that n])
  from assms show ?thesis
  proof (cases rule: utf8_len_cases)
    case 1
    then show ?thesis using h by (simp add: utf8_len_def)
  next
    case 2
    then show ?thesis using c[of 1] h by (simp add: utf8_len_def)
  next
    case 3
    then show ?thesis
      using c[of 1] c[of 2] h
      by (simp add: utf8_len_def Let_def)
  next
    case 4
    then show ?thesis
      using c[of 1] c[of 2] c[of 3] h
      by (simp add: utf8_len_def Let_def)
  qed
qed

lemma utf8_len_separators:
  "take 3 s = utf8_encode 0x2028 \<Longrightarrow> utf8_len s = 3" "take 3 s = utf8_encode 0x2029 \<Longrightarrow> utf8_len s = 3"
proof -
  have l: "utf8_len (utf8_encode 0x2028) = 3" "utf8_len (utf8_encode 0x2029) = 3"
    by (simp_all add: utf8_encode_def utf8_len_def cont_byte_def byte_def)
  have "utf8_len (take 3 s @ drop 3 s) = 3" if "utf8_len (take 3 s) = 3"
    using utf8_len_take[OF that, of "drop 3 s"] by simp
  then have "utf8_len s = 3" if "utf8_len (take 3 s) = 3"
    using that by (simp only: append_take_drop_id)
  then show "take 3 s = utf8_encode 0x2028 \<Longrightarrow> utf8_len s = 3" "take 3 s = utf8_encode 0x2029 \<Longrightarrow> utf8_len s = 3"
    by (simp_all only: l)
qed

subsection \<open>Strings and lists of strings\<close>

lemma json_string_rune:
  assumes n: "utf8_len s = n" "n \<noteq> 0" and c: "s = c # r" "\<not> byte c < 0x80"
  shows "json_string (take n s @ t) = map_option (apfst (append (take n s))) (json_string t)"
proof -
  have le: "n \<le> length s" using utf8_len_le[of s] n by simp
  obtain m where m: "n = Suc m" using n(2) by (cases n) auto
  have ne: "c \<noteq> CHR 0x22" "c \<noteq> CHR 0x5C" using c(2) by (auto simp: byte_def)
  have l: "utf8_len (take n s @ t) = n" by (rule utf8_len_take[OF n])
  have t: "take n (take n s @ t) = take n s" "drop n (take n s @ t) = t" using le by simp_all
  have cons: "take n s @ t = c # (take m r @ t)" by (simp add: c(1) m)
  show ?thesis
    using l t ne c(2) n(2) unfolding cons
    by (subst json_string.simps) simp
qed

lemma valid_utf8_step:
  "s \<noteq> [] \<Longrightarrow> valid_utf8 s \<longleftrightarrow> utf8_len s \<noteq> 0 \<and> valid_utf8 (drop (utf8_len s) s)"
  by (subst valid_utf8.simps) simp

lemma json_quote_body_wide:
  assumes "s = c # r" "\<not> byte c < 0x80" "utf8_len s \<noteq> 0"
  shows "json_quote_body s =
     (if take 3 s = utf8_encode 0x2028 then u_escape 0x2028 @ json_quote_body (drop 3 s)
      else if take 3 s = utf8_encode 0x2029 then u_escape 0x2029 @ json_quote_body (drop 3 s)
      else take (utf8_len s) s @ json_quote_body (drop (utf8_len s) s))"
  using assms(2,3) unfolding assms(1)
  by (subst json_quote_body.simps) (simp only: list.case if_False if_True simp_thms)

lemma json_string_separator:
  assumes "k = 0x2028 \<or> k = 0x2029"
  shows "json_string (u_escape k @ x) = map_option (apfst (append (utf8_encode k))) (json_string x)"
proof (rule json_string_u_escape)
  show "length (fmt_04x k) = 4" by (rule length_fmt_04x) (use assms in auto)
  have "getu4 (fmt_04x 0x2028) = Some 0x2028" "getu4 (fmt_04x 0x2029) = Some 0x2029"
    by (simp_all add: fmt_04x_def hex_digits.simps getu4_def hex_digit_value_hex_digit)
  with assms show "getu4 (fmt_04x k) = Some k" by auto
  show "k < 0xD800" using assms by auto
qed

lemma json_quote_body_ascii:
  "byte c < 0x80 \<Longrightarrow> json_quote_body (c # r) = escape_byte c @ json_quote_body r"
  by (subst json_quote_body.simps) simp

text \<open>One rune at a time: decoding what the encoder wrote for the first rune gives it back.\<close>

lemma json_string_first_rune:
  assumes "s = c # r" "utf8_len s \<noteq> 0"
  shows "json_string (json_quote_body s @ t) =
     map_option (apfst (append (take (utf8_len s) s))) (json_string (json_quote_body (drop (utf8_len s) s) @ t))"
proof (cases "byte c < 0x80")
  case True
  then show ?thesis
    using utf8_len_ascii[OF True, of r]
    by (simp add: assms(1) json_quote_body_ascii json_string_escape_byte append_single)
next
  case False
  note q = json_quote_body_wide[OF assms(1) False assms(2)]
  consider (a) "take 3 s = utf8_encode 0x2028" | (b) "take 3 s = utf8_encode 0x2029" "take 3 s \<noteq> utf8_encode 0x2028"
    | (c) "take 3 s \<noteq> utf8_encode 0x2028" "take 3 s \<noteq> utf8_encode 0x2029" by blast
  then show ?thesis
  proof cases
    case a
    have "json_quote_body s = u_escape 0x2028 @ json_quote_body (drop 3 s)"
      using q unfolding if_P[OF a] .
    then show ?thesis
      using utf8_len_separators(1)[OF a] json_string_separator[of "0x2028" "json_quote_body (drop 3 s) @ t"]
      by (simp only: append_assoc a simp_thms)
  next
    case b
    have "json_quote_body s = u_escape 0x2029 @ json_quote_body (drop 3 s)"
      using q unfolding if_not_P[OF b(2)] if_P[OF b(1)] .
    then show ?thesis
      using utf8_len_separators(2)[OF b(1)] json_string_separator[of "0x2029" "json_quote_body (drop 3 s) @ t"]
      by (simp only: append_assoc b(1) simp_thms)
  next
    case c
    have "json_quote_body s = take (utf8_len s) s @ json_quote_body (drop (utf8_len s) s)"
      using q unfolding if_not_P[OF c(1)] if_not_P[OF c(2)] .
    then show ?thesis
      using json_string_rune[OF refl assms(2,1) False, of "json_quote_body (drop (utf8_len s) s) @ t"]
      by (simp only: append_assoc)
  qed
qed

lemma json_string_quote:
  "valid_utf8 s \<Longrightarrow> json_string (json_quote_body s @ CHR 0x22 # t) = Some (s, t)"
proof (induction s rule: measure_induct_rule[of length])
  case (less s)
  show ?case
  proof (cases "s = []")
    case True
    then show ?thesis by (simp add: json_quote_body.simps json_string.simps)
  next
    case False
    then obtain c r where s: "s = c # r" by (cases s) auto
    have n: "utf8_len s \<noteq> 0" and v: "valid_utf8 (drop (utf8_len s) s)"
      using less.prems False by (auto simp: valid_utf8_step)
    have "json_string (json_quote_body (drop (utf8_len s) s) @ CHR 0x22 # t) = Some (drop (utf8_len s) s, t)"
      by (rule less.IH[OF _ v]) (use n False in simp)
    then show ?thesis
      by (simp add: json_string_first_rune[OF s n])
  qed
qed

lemma json_element_quote:
  "valid_utf8 s \<Longrightarrow> json_element (json_quote s @ t) = Some (s, t)"
  by (simp add: json_element_def json_quote_def json_string_quote)

lemma skip_ws_quote: "skip_ws (json_quote s @ t) = json_quote s @ t"
  by (simp add: skip_ws_def json_quote_def json_space_def byte_def)

lemma skip_ws_brackets [simp]:
  "skip_ws (CHR 0x2C # t) = CHR 0x2C # t" "skip_ws (CHR 0x5D # t) = CHR 0x5D # t"
  "skip_ws (CHR 0x5B # t) = CHR 0x5B # t" "skip_ws [] = []"
  by (simp_all add: skip_ws_def json_space_def byte_def)

lemma json_elements_quote:
  assumes "\<And>x. x \<in> set (x0 # xs) \<Longrightarrow> valid_utf8 x"
  shows "json_elements (Join (map json_quote (x0 # xs)) [CHR 0x2C] @ CHR 0x5D # t) = Some (x0 # xs, t)"
  using assms
proof (induction xs arbitrary: x0)
  case Nil
  then show ?case
    by (subst json_elements.simps) (simp add: skip_ws_quote json_element_quote)
next
  case (Cons x xs)
  have IH: "json_elements (Join (map json_quote (x # xs)) [CHR 0x2C] @ CHR 0x5D # t) = Some (x # xs, t)"
    by (rule Cons.IH) (use Cons.prems in auto)
  show ?case
    using Cons.prems IH
    by (subst json_elements.simps) (simp add: skip_ws_quote json_element_quote)
qed

lemma UnmarshalStrings_MarshalStrings:
  assumes "\<And>x. x \<in> set xs \<Longrightarrow> valid_utf8 x"
  shows "UnmarshalStrings (MarshalStrings xs) = Some xs"
proof (cases xs)
  case Nil
  then show ?thesis by (simp add: UnmarshalStrings_def MarshalStrings_def Let_def)
next
  case (Cons x ys)
  have j: "Join (map json_quote (x # ys)) [CHR 0x2C] = json_quote x @
      (if ys = [] then [] else CHR 0x2C # Join (map json_quote ys) [CHR 0x2C])"
    by (cases ys) auto
  have "skip_ws (Join (map json_quote (x # ys)) [CHR 0x2C] @ [CHR 0x5D]) =
      Join (map json_quote (x # ys)) [CHR 0x2C] @ [CHR 0x5D]"
    unfolding j append_assoc by (rule skip_ws_quote)
  moreover have "\<not> HasPrefix (Join (map json_quote (x # ys)) [CHR 0x2C] @ [CHR 0x5D]) [CHR 0x5D]"
    unfolding j by (simp add: json_quote_def)
  ultimately show ?thesis
    using json_elements_quote[of x ys "[]"] assms
    by (simp add: UnmarshalStrings_def MarshalStrings_def Let_def Cons)
qed

lemma MarshalStrings_not_Nil [simp]: "MarshalStrings xs \<noteq> []"
  by (simp add: MarshalStrings_def)

end
