(* ===== verification/FinalizeShip.thy ===== *)
theory FinalizeShip
  imports FinalizeCorrect JSONRoundtrip
begin

text \<open>
  The finalize lock's curation state survives the round trip through its JSON column, shipping a
  session ends it and frees its lock, and two histories in which the handlers leave a session in
  a state its comments exclude.
\<close>

subsection \<open>Curation round trip\<close>

lemma find_update_locks:
  assumes "\<And>lk. fl_id (f lk) = fl_id lk"
  shows "find (\<lambda>l. fl_id l = i) (d_locks (update_locks (\<lambda>l. fl_id l = i) f d)) =
     map_option f (find (\<lambda>l. fl_id l = i) (d_locks d))"
proof -
  have "find (\<lambda>l. fl_id l = i) (map (\<lambda>l. if fl_id l = i then f l else l) ls) =
     map_option f (find (\<lambda>l. fl_id l = i) ls)" for ls
    using assms by (induction ls) auto
  then show ?thesis by (simp add: update_locks_def)
qed

lemma patchWrite_200:
  assumes "patchWrite flt now i b d = (JSON c dto, d')"
  shows "\<exists>lk. dto = finalizeLockToOpenAPI (lk\<lparr>fl_selected_commit_shas := MarshalStrings (pb_selected_commit_shas b),
      fl_target_branch := pb_target_branch b, fl_base_sha := pb_base_sha b, fl_mode := pb_mode b,
      fl_commit_message := (if pb_commit_message b = [] then None else Some (pb_commit_message b)),
      fl_last_activity_at := now\<rparr>)"
  using assms
  by (auto simp: patchWrite_def call_def UpdateFinalizeLockCuration_def GetFinalizeLockByID_def find_update_locks
      split: if_splits option.splits)

text \<open>
  C34: What the holder saves is what everyone reads.  When a PATCH answers 200, the lock in the
  answer, read back from the database, carries exactly the commits, branch, base, mode and message of the
  request: encoding the commit list into its JSON column and decoding it loses nothing, for any
  valid UTF-8 entries.
\<close>
theorem patch_roundtrip:
  assumes "PatchFinalizeLock flt now caller org sid lockID (Some b) d = (JSON c dto, d')"
    and "\<And>x. x \<in> set (pb_selected_commit_shas b) \<Longrightarrow> valid_utf8 x"
  shows "c = 200 \<and> fd_selected_commit_shas dto = pb_selected_commit_shas b \<and> fd_target_branch dto = pb_target_branch b
     \<and> fd_base_sha dto = pb_base_sha b \<and> fd_mode dto = pb_mode b \<and> fd_commit_message dto = pb_commit_message b
     \<and> fd_last_activity_at dto = now"
proof -
  have na: "authorize flt caller org sid d \<noteq> (Inl (JSON c dto) :: FinalizeLockDTO resp + string)"
    by (auto simp: authorize_def verdict_response_def session_not_found_def
        split: option.splits sum.splits membershipVerdict.splits)
  have nl: "loadLock flt org sid lockID d \<noteq> (Inl (JSON c dto) :: FinalizeLockDTO resp + FinalizeLock)"
    by (auto simp: loadLock_def lock_not_found_def split: sum.splits)
  have nv: "patchValidate b \<noteq> Some (JSON c dto)" by (simp add: patchValidate_def)
  obtain i where w: "patchWrite flt now i b d = (JSON c dto, d')"
    using assms(1) na nl nv
    by (auto simp: PatchFinalizeLock_def split: if_splits option.splits sum.splits)
  moreover from w have "c = 200" by (auto simp: patchWrite_def split: sum.splits)
  ultimately show ?thesis
    using patchWrite_200[OF w] UnmarshalStrings_MarshalStrings[of "pb_selected_commit_shas b"] assms(2)
    by (auto simp: finalizeLockToOpenAPI_def)
qed

lemma valid_utf8_ascii: "(\<And>c. c \<in> set s \<Longrightarrow> byte c < 0x80) \<Longrightarrow> valid_utf8 s"
proof (induction s)
  case (Cons c s)
  then have "byte c < 0x80" by simp
  then have "utf8_len (c # s) = 1" by (rule utf8_len_ascii)
  with Cons show ?case by (simp add: valid_utf8_step)
qed simp

lemma ann_patched_200: "\<exists>dto. fst ann_patched = JSON 200 dto"
proof -
  have "(case fst ann_patched of JSON c dto \<Rightarrow> c = 200 | _ \<Rightarrow> False)" by code_simp
  then show ?thesis by (auto split: resp.splits)
qed

theorem patch_roundtrip_witness:
  "\<exists>dto. fst ann_patched = JSON 200 dto \<and> fd_selected_commit_shas dto = [replicate 40 CHR ''b'']"
proof -
  obtain dto where dto: "fst ann_patched = JSON 200 dto" using ann_patched_200 by auto
  then have "PatchFinalizeLock no_faults 5 (Some ''ann'') ''o'' ''s'' ''L1'' (Some ann_body) (fst ann_world)
      = (JSON 200 dto, snd ann_patched)"
    using prod.collapse[of ann_patched] by (simp add: ann_patched_def)
  moreover have "valid_utf8 (replicate 40 CHR ''b'')" by (rule valid_utf8_ascii) (simp add: byte_def)
  ultimately have "fd_selected_commit_shas dto = pb_selected_commit_shas ann_body"
    by (intro patch_roundtrip[THEN conjunct2, THEN conjunct1]) (auto simp: ann_body_def)
  with dto show ?thesis by (simp add: ann_body_def)
qed

subsection \<open>Shipping\<close>

lemma active_after_release:
  assumes "length (active_locks sid d) \<le> 1" and "GetActiveFinalizeLockForSession d sid = Inr lk"
    and "ReleaseLockRow (fl_id lk) now d = Inr d1"
  shows "active_locks sid d1 = []"
proof -
  have "lk \<in> set (active_locks sid d)" by (rule GetActive_in[OF assms(2)])
  with assms(1) have one: "active_locks sid d = [lk]" by (cases "active_locks sid d") auto
  have "x = lk" if "x \<in> set (d_locks d)" "fl_session x = sid" "lock_active x" for x
  proof -
    from that have "x \<in> set (active_locks sid d)" by (simp add: active_locks_def)
    then show ?thesis by (simp add: one)
  qed
  then show ?thesis
    using assms(3) by (auto simp: ReleaseLockRow_def update_locks_def active_locks_def filter_empty_conv lock_active_def
        split: if_splits) (metis not_None_eq)
qed

lemma active_after_ship:
  assumes "length (active_locks sid d) \<le> 1" and "releaseOnShip flt now org sid sess d = (None, d')"
  shows "active_locks sid d' = []"
proof (cases "GetActiveFinalizeLockForSession d sid")
  case (Inl e)
  moreover have "active_locks sid d = []"
    if "GetActiveFinalizeLockForSession d sid = Inl e" for e
  proof -
    from that have "sort_key (\<lambda>l. - fl_acquired_at l) (active_locks sid d) = []"
      by (auto simp: GetActiveFinalizeLockForSession_def split: list.splits)
    then show ?thesis by (metis length_0_conv length_sort)
  qed
  ultimately show ?thesis
    using assms(2) by (auto simp: releaseOnShip_def call_def split: if_splits)
next
  case (Inr lk)
  have "\<exists>d1. ReleaseLockRow (fl_id lk) now d = Inr d1 \<and> d_locks d' = d_locks d1"
    using assms(2) Inr
    by (auto simp: releaseOnShip_def call_def ClearFinalizeLock_def db_simps split: if_splits sum.splits)
  then obtain d1 where d1: "ReleaseLockRow (fl_id lk) now d = Inr d1" "d_locks d' = d_locks d1" by auto
  show ?thesis
    using active_after_release[OF assms(1) Inr d1(1)] d1(2) by (simp add: active_locks_def)
qed

lemma releaseOnShip_session:
  assumes "releaseOnShip flt now org sid sess d = (e, d')" and "d_sessions d sid = Some s"
  shows "\<exists>s'. d_sessions d' sid = Some s' \<and> s_status s' = s_status s \<and> s_end_reason s' = s_end_reason s
    \<and> s_ended_at s' = s_ended_at s"
  using assms
  by (auto simp: releaseOnShip_def call_def ReleaseLockRow_def ClearFinalizeLock_def update_session_def db_simps
      split: sum.splits if_splits option.splits)

text \<open>
  C22: Shipping a finalizing session ends it.  Whenever the request answers 200, whichever
  best-effort statement failed on the way, the session row is ended with reason shipped at the
  request's time, and no finalize lock of the session is active any more.
\<close>
theorem ship_ends_session:
  assumes "reachable fin_start fin_step ((d, l), ps)"
    and "GetSession d org sid = Inr sess" and "s_status sess = ''finalizing''"
    and "MarkSessionShipped flt ids now at caller org sid fb (d, l) = (JSON c dto, d', l')"
  shows "active_locks sid d' = []
     \<and> (\<exists>s'. d_sessions d' sid = Some s' \<and> s_status s' = ''ended'' \<and> s_end_reason s' = Some ''shipped''
          \<and> s_ended_at s' = Some now)
     \<and> sd_status dto = ''ended'' \<and> sd_end_reason dto = ''shipped''"
proof -
  have one: "length (active_locks sid d) \<le> 1"
    using fin_sys.reachable_inv[OF assms(1)] by (simp add: fin_ok_def lock_inv_def)
  have ds: "d_sessions d sid = Some sess" "s_org sess = org"
    using assms(2) by (auto simp: GetSession_def split: option.splits if_splits)
  have "authorize flt caller org sid d \<noteq> (Inl (JSON c dto) :: SessionDTO resp + string)"
    by (auto simp: authorize_def verdict_response_def session_not_found_def
        split: option.splits sum.splits membershipVerdict.splits)
  then have t: "shipTransition flt ids now at org sid fb sess (d, l) = (JSON c dto, d', l')"
    using assms(2-4)
    by (auto simp: MarkSessionShipped_def Let_def call_def session_not_found_def split: sum.splits if_splits)
  let ?d1 = "update_session org sid (s_status_update (\<lambda>_. ''ended'')) d"
  let ?d2 = "update_session org sid (\<lambda>s. s\<lparr>s_end_reason := Some ''shipped'', s_ended_at := Some now\<rparr>) ?d1"
  obtain e d3 where r: "releaseOnShip flt now org sid sess ?d2 = (e, d3)" by (metis prod.exhaust)
  obtain q d4 l4 where em: "insertAndPublish (emit_faults flt) ids at org sid
      [\<lparr>de_type = ''session.ended'', de_payload = ended_payload fb\<rparr>] (d3, l) = (q, d4, l4)"
    by (metis prod.exhaust)
  have e: "e = None" and d': "d' = d4" and dto: "sd_status dto = ''ended''" "sd_end_reason dto = ''shipped''"
    using t r em
    by (auto simp: shipTransition_def call_def UpdateSessionStatus_def SetSessionEndReason_def Let_def Emit_def
        sessionToOpenAPI_def opt_string_def split: if_splits option.splits)
  have d2: "d_sessions ?d2 sid = Some (sess\<lparr>s_status := ''ended'', s_end_reason := Some ''shipped'', s_ended_at := Some now\<rparr>)"
    using ds by (simp add: update_session_def)
  have "active_locks sid d3 = []"
    by (rule active_after_ship[OF _ r[unfolded e]]) (use one in \<open>simp add: active_locks_def db_simps\<close>)
  then have "active_locks sid d' = []"
    using insertAndPublish_frame(1)[OF em] by (simp add: d' active_locks_def)
  moreover have "\<exists>s'. d_sessions d' sid = Some s' \<and> s_status s' = ''ended'' \<and> s_end_reason s' = Some ''shipped''
      \<and> s_ended_at s' = Some now"
    using releaseOnShip_session[OF r d2] insertAndPublish_frame(2)[OF em] by (simp add: d')
  ultimately show ?thesis using dto by simp
qed

definition ann_shipped :: "SessionDTO resp \<times> db \<times> log_state" where
  "ann_shipped = MarkSessionShipped no_faults demo_ids 9 9 (Some ''bob'') ''o'' ''s'' ''ship/it'' (fst ann_world, snd ann_world)"

theorem ship_ends_session_witness:
  "\<exists>dto. fst ann_shipped = JSON 200 dto \<and> active_locks ''s'' (fst (snd ann_shipped)) = [] \<and> sd_status dto = ''ended''"
proof -
  have "(case fst ann_shipped of JSON c dto \<Rightarrow> c = 200 | _ \<Rightarrow> False)" by code_simp
  then obtain dto where dto: "fst ann_shipped = JSON 200 dto" by (auto split: resp.splits)
  have "(case GetSession (fst ann_world) ''o'' ''s'' of Inr s \<Rightarrow> s_status s = ''finalizing'' | Inl _ \<Rightarrow> False)"
    by code_simp
  then obtain sess where sess: "GetSession (fst ann_world) ''o'' ''s'' = Inr sess" "s_status sess = ''finalizing''"
    by (auto split: sum.splits)
  have "MarkSessionShipped no_faults demo_ids 9 9 (Some ''bob'') ''o'' ''s'' ''ship/it'' (fst ann_world, snd ann_world)
      = (JSON 200 dto, fst (snd ann_shipped), snd (snd ann_shipped))"
    using dto by (metis ann_shipped_def prod.collapse)
  moreover have "reachable fin_start fin_step ((fst ann_world, snd ann_world), [])" using ann_reachable by simp
  ultimately show ?thesis using ship_ends_session[OF _ sess] dto by blast
qed

text \<open>
  Shipping is not atomic.  The status and the end reason are written by two statements outside
  a transaction.  If the second one fails, the request fails but the session is already ended
  with its lock still held, and every later attempt is refused with 409 already_ended, where the
  handler promises that repeating the call is idempotent.
\<close>
theorem ship_failure_blocks_retry:
  assumes "authorize flt caller org sid d = (Inr acc :: SessionDTO resp + string)"
    and "GetSession d org sid = Inr sess" "s_status sess = ''finalizing''" "s_end_reason sess = None"
    and "flt = (\<lambda>site n. site = ''set session end reason'')"
    and "MarkSessionShipped flt ids now at caller org sid fb (d, l) = (r, d', l')"
  shows "r = Fail ErrOther \<and> active_locks sid d' = active_locks sid d
     \<and> fst (MarkSessionShipped no_faults ids2 now2 at2 caller org sid fb2 (d', l2)) =
         Envelope 409 ''session.already_ended'' ''session has already ended with a different end_reason'' []"
proof -
  have ds: "d_sessions d sid = Some sess" "s_org sess = org"
    using assms(2) by (auto simp: GetSession_def split: option.splits if_splits)
  let ?d1 = "update_session org sid (s_status_update (\<lambda>_. ''ended'')) d"
  have r: "r = Fail ErrOther" and d': "d' = ?d1"
    using assms(6) unfolding MarkSessionShipped_def assms(1) fst_conv Let_def
    by (auto simp: assms(2-5) call_def shipTransition_def UpdateSessionStatus_def SetSessionEndReason_def)
  have a: "authorize no_faults caller org sid ?d1 = (Inr acc :: SessionDTO resp + string)"
    using assms(1,5) ds
    by (auto simp: authorize_def checkSessionMembership_def call_def no_faults_def GetOrgMember_def GetSessionMember_def
        GetSession_def db_simps update_session_def split: option.splits sum.splits if_splits)
  have g: "GetSession ?d1 org sid = Inr (sess\<lparr>s_status := ''ended''\<rparr>)"
    using ds by (simp add: GetSession_def update_session_def)
  show ?thesis
    using r by (simp add: d' MarkSessionShipped_def Let_def a g assms(4) active_locks_def db_simps)
qed

definition reason_fault :: faults where
  "reason_fault = (\<lambda>site n. site = ''set session end reason'')"

theorem ship_failure_blocks_retry_witness:
  "\<exists>d' l'. MarkSessionShipped reason_fault demo_ids 9 9 (Some ''bob'') ''o'' ''s'' [] (fst ann_world, snd ann_world)
       = (Fail ErrOther, d', l')
     \<and> active_locks ''s'' d' = [new_lock ''L1'' ann_pre]
     \<and> fst (MarkSessionShipped no_faults demo_ids 10 10 (Some ''bob'') ''o'' ''s'' [] (d', l')) =
         Envelope 409 ''session.already_ended'' ''session has already ended with a different end_reason'' []"
proof -
  obtain r d' l' where m: "MarkSessionShipped reason_fault demo_ids 9 9 (Some ''bob'') ''o'' ''s'' []
      (fst ann_world, snd ann_world) = (r, d', l')"
    by (metis prod.exhaust)
  have "(case authorize reason_fault (Some ''bob'') ''o'' ''s'' (fst ann_world) :: SessionDTO resp + string of
      Inr a \<Rightarrow> a = ''bob'' | Inl _ \<Rightarrow> False)"
    by code_simp
  then have a: "authorize reason_fault (Some ''bob'') ''o'' ''s'' (fst ann_world) = (Inr ''bob'' :: SessionDTO resp + string)"
    by (auto split: sum.splits)
  have "(case GetSession (fst ann_world) ''o'' ''s'' of
      Inr s \<Rightarrow> s_status s = ''finalizing'' \<and> s_end_reason s = None | Inl _ \<Rightarrow> False)"
    by code_simp
  then obtain sess where g: "GetSession (fst ann_world) ''o'' ''s'' = Inr sess" "s_status sess = ''finalizing''"
    "s_end_reason sess = None"
    by (auto split: sum.splits)
  have "active_locks ''s'' (fst ann_world) = [new_lock ''L1'' ann_pre]" by code_simp
  with ship_failure_blocks_retry[OF a g reason_fault_def m, of demo_ids 10 10 "[]" l'] m show ?thesis by auto
qed

text \<open>
  A late acquisition revives an ended session.  The transaction of an acquisition uses the status
  its preflight read.  If the session was active then but has ended since, by an abandon or a
  ship, the commit still succeeds, sets the status back to finalizing and leaves the
  end reason in place.
\<close>
theorem late_acquire_revives_session:
  assumes "AcquirePreflight flt0 now caller org sid ov d0 = Inr pre"
    and "s_status sess0 = ''active''" "GetSession d0 org sid = Inr sess0"
    and "GetSession d org sid = Inr sess" "s_status sess = ''ended''"
    and "AcquireCommit flt ids newid at pre (d, l) = (JSON c st, d', l')"
  shows "\<exists>s'. d_sessions d' sid = Some s' \<and> s_status s' = ''finalizing'' \<and> s_end_reason s' = s_end_reason sess
     \<and> s_ended_at s' = s_ended_at sess"
proof -
  note p = pre_wf_preflight[OF assms(1)]
  have act: "ap_status pre = ''active''"
    using assms(1-3)
    by (cases "call flt0 ''get active lock'' 0 (GetActiveFinalizeLockForSession d0 sid)")
       (auto simp: AcquirePreflight_def res_bind_Inr_iff call_def[of flt0 "''get session''"] acquireDecision_def Let_def
          split: if_splits)
  obtain b d1 where tx: "AcquireTx flt newid pre d = Inr (b, d1)" and ds: "d_sessions d' = d_sessions d1"
    by (rule AcquireCommit_201[OF assms(6)]) (rule that)
  obtain e1 e2 where r: "releaseExisting flt pre d = Inr e1"
    and i: "InsertFinalizeLock (new_lock newid pre) e1 = Inr e2"
    and d1: "d1 = pointSession pre (supersedeExisting newid pre e2)"
    by (rule AcquireTx_Inr[OF tx]) (rule that)
  have s: "d_sessions (supersedeExisting newid pre e2) = d_sessions d"
    using i releaseExisting_Inr(3)[OF r] by (auto simp: db_simps InsertFinalizeLock_def split: if_splits)
  have g: "d_sessions d sid = Some sess" "s_org sess = org"
    using assms(4) by (auto simp: GetSession_def split: option.splits if_splits)
  show ?thesis
    by (simp add: ds d1 pointSession_def Let_def act update_session_def s g p)
qed

definition ended_db :: db where
  "ended_db = update_session ''o'' ''s'' (\<lambda>s. s\<lparr>s_status := ''ended'', s_end_reason := Some ''abandoned''\<rparr>) (ex_db ''active'')"

theorem late_acquire_revives_session_witness:
  "\<exists>s'. d_sessions (fst (snd (AcquireCommit no_faults demo_ids ''L1'' 0 ann_pre (ended_db, empty_log)))) ''s'' = Some s'
     \<and> s_status s' = ''finalizing'' \<and> s_end_reason s' = Some ''abandoned''"
proof -
  let ?c = "AcquireCommit no_faults demo_ids ''L1'' 0 ann_pre (ended_db, empty_log)"
  have "(case fst ?c of JSON c st \<Rightarrow> c = 201 | _ \<Rightarrow> False)" by code_simp
  then obtain st where "fst ?c = JSON 201 st" by (auto split: resp.splits)
  then have c: "?c = (JSON 201 st, fst (snd ?c), snd (snd ?c))" by (metis prod.collapse)
  have g0: "GetSession (ex_db ''active'') ''o'' ''s'' = Inr (ex_session ''active'')"
    by (simp add: GetSession_def ex_db_def ex_session_def)
  have g: "GetSession ended_db ''o'' ''s'' =
      Inr ((ex_session ''active'')\<lparr>s_status := ''ended'', s_end_reason := Some ''abandoned''\<rparr>)"
    by (simp add: GetSession_def ended_db_def update_session_def ex_db_def ex_session_def)
  from late_acquire_revives_session[OF ann_preflight _ g0 g _ c] show ?thesis
    by (auto simp: ex_session_def)
qed

end
