(* ===== verification/FinalizeScript.thy ===== *)
theory FinalizeScript
  imports FinalizeEscape JSONRoundtrip GitTypes
begin

text \<open>
  Composition of the squash message and of the finalize script
  (\<^verbatim>\<open>internal/portal/finalize/message.go\<close> and \<^verbatim>\<open>script.go\<close>), with the parts of a shell's reading of a
  script that its safety rests on: words, and here-documents with a quoted delimiter.
  Truncation counts runes, so strings are split into the chunks Go's \<^verbatim>\<open>range\<close> visits: a valid UTF-8
  sequence, or a single byte that starts none.
\<close>

subsection \<open>Runes\<close>

function runes :: "string \<Rightarrow> string list" where
  "runes s =
     (if s = [] then []
      else take (max 1 (utf8_len s)) s # runes (drop (max 1 (utf8_len s)) s))"
  by pat_completeness auto
termination
  by (relation "measure length") auto

declare runes.simps [simp del]

definition RuneCountInString :: "string \<Rightarrow> nat" where
  "RuneCountInString s = length (runes s)"

definition ellipsis :: string where
  "ellipsis = [CHR 0xE2, CHR 0x80, CHR 0xA6]"

subsection \<open>The squash message\<close>

definition firstLine :: "string \<Rightarrow> string" where
  "firstLine s =
     (case IndexByte s newline of
        Some i \<Rightarrow> TrimSpace (take i s)
      | None \<Rightarrow> TrimSpace s)"

definition hardTruncate :: "string \<Rightarrow> nat \<Rightarrow> string" where
  "hardTruncate s mx =
     (if RuneCountInString s \<le> mx then s
      else concat (take (mx - 1) (runes s)) @ ellipsis)"

text \<open>The byte offset of the last blank among the first \<open>mx\<close> runes, 0 when there is none.\<close>

fun lastSpaceByte :: "nat \<Rightarrow> nat \<Rightarrow> nat \<Rightarrow> string list \<Rightarrow> nat" where
  "lastSpaceByte 0 i lst rs = lst"
| "lastSpaceByte (Suc n) i lst [] = lst"
| "lastSpaceByte (Suc n) i lst (r # rs) =
     lastSpaceByte n (i + length r) (if r = '' '' \<or> r = [tab] then i else lst) rs"

definition wordBoundaryTruncate :: "string \<Rightarrow> nat \<Rightarrow> string" where
  "wordBoundaryTruncate s mx =
     (if RuneCountInString s \<le> mx then s
      else let lst = lastSpaceByte mx 0 0 (runes s) in
        if 0 < lst then TrimRight (take lst s) [CHR '' '', tab] @ ellipsis
        else let cut = length (concat (take (mx - 1) (runes s))) in
          take (if cut = 0 then length s else cut) s @ ellipsis)"

definition composeSubject :: "string \<Rightarrow> string \<Rightarrow> string" where
  "composeSubject sessionGoal userOverride =
     (if userOverride \<noteq> [] then hardTruncate (firstLine userOverride) 72
      else wordBoundaryTruncate (TrimSpace sessionGoal) 72)"

definition stripTrailersFromSubject :: "string \<Rightarrow> string" where
  "stripTrailersFromSubject s = s"

definition composeBody :: "Commit list \<Rightarrow> string" where
  "composeBody commits =
     (if commits = [] then []
      else [newline] @ concat (map (\<lambda>c. ''- '' @ stripTrailersFromSubject (firstLine (c_message c)) @ [newline]) commits))"

record CoAuthor =
  ca_name :: string
  ca_email :: string
  ca_account :: string

text \<open>
  \<open>lower\<close> stands for \<^verbatim>\<open>strings.ToLower\<close> on the e-mail addresses, whose Unicode tables are not part
  of the model; the loop only compares its results.
\<close>

fun coAuthorsFrom :: "(string \<Rightarrow> string) \<Rightarrow> string list \<Rightarrow> Commit list \<Rightarrow> CoAuthor list" where
  "coAuthorsFrom lower seen [] = []"
| "coAuthorsFrom lower seen (c # cs) =
     (if c_author_email c = [] then coAuthorsFrom lower seen cs
      else if lower (c_author_email c) \<in> set seen then coAuthorsFrom lower seen cs
      else \<lparr>ca_name = c_author_name c, ca_email = c_author_email c, ca_account = []\<rparr>
           # coAuthorsFrom lower (lower (c_author_email c) # seen) cs)"

definition composeCoAuthors :: "(string \<Rightarrow> string) \<Rightarrow> Commit list \<Rightarrow> CoAuthor list" where
  "composeCoAuthors lower commits = coAuthorsFrom lower [] commits"

definition ComposeSquashMessage ::
  "(string \<Rightarrow> string) \<Rightarrow> string \<Rightarrow> string \<Rightarrow> Commit list \<Rightarrow> string \<times> string \<times> CoAuthor list"
where
  "ComposeSquashMessage lower sessionGoal userOverride commits =
     (composeSubject sessionGoal userOverride, composeBody commits, composeCoAuthors lower commits)"

definition RenderSquashMessageBody :: "string \<Rightarrow> string \<Rightarrow> CoAuthor list \<Rightarrow> string" where
  "RenderSquashMessageBody subject body coAuthors =
     subject @ [newline] @ body
     @ (if coAuthors = [] then []
        else [newline] @ concat (map (\<lambda>ca. ''Co-authored-by: '' @ ca_name ca @ '' <'' @ ca_email ca @ ''>'' @ [newline]) coAuthors))"

subsection \<open>The script\<close>

record ScriptInput =
  si_mode :: string
  si_target_branch :: string
  si_base_sha :: string
  si_selected_shas :: "string list"
  si_squash_message_body :: string

definition echo :: "string \<Rightarrow> string" where
  "echo text = ''echo '' @ [dquote] @ ''==> '' @ text @ [dquote, newline]"

definition writeScriptPrologue :: string where
  "writeScriptPrologue = ''#!/usr/bin/env bash'' @ [newline] @ ''set -euo pipefail'' @ [newline]"

definition writeFetchStep :: "string \<Rightarrow> string list \<Rightarrow> string" where
  "writeFetchStep baseSHA shas =
     echo ''Fetching session refs''
     @ ''git fetch '' @ [dquote] @ ''$JAMSESH_FETCH_REMOTE'' @ [dquote]
     @ (if baseSHA = [] then [] else '' '' @ baseSHA)
     @ concat (map (\<lambda>sha. if sha = [] \<or> sha = baseSHA then [] else '' '' @ sha) shas)
     @ [newline]"

definition checkoutCommand :: "string \<Rightarrow> string \<Rightarrow> string" where
  "checkoutCommand targetBranch baseSHA =
     ''git checkout -b '' @ shellquote targetBranch @ '' '' @ shellquote baseSHA @ [newline]"

definition writeCheckoutStep :: "string \<Rightarrow> string \<Rightarrow> string" where
  "writeCheckoutStep targetBranch baseSHA =
     echo (''Creating target branch '' @ targetBranch @ '' at '' @ take 12 baseSHA)
     @ checkoutCommand targetBranch baseSHA"

definition writeDone :: "string \<Rightarrow> string" where
  "writeDone targetBranch = echo (''Done. Push when ready: git push origin '' @ shellquote targetBranch)"

definition heredoc_tag :: string where
  "heredoc_tag = ''JAMSESH_MSG''"

definition commitLine :: string where
  "commitLine = ''git commit --author='' @ [dquote] @ ''$JAMSESH_RUNNER_NAME <$JAMSESH_RUNNER_EMAIL>'' @ [dquote]
     @ '' -F - <<'' @ [squote] @ heredoc_tag @ [squote, newline]"

definition buildSquashScript :: "ScriptInput \<Rightarrow> string" where
  "buildSquashScript si =
     writeScriptPrologue @ writeFetchStep (si_base_sha si) (si_selected_shas si)
     @ writeCheckoutStep (si_target_branch si) (si_base_sha si)
     @ echo (''Staging '' @ dec_digits (length (si_selected_shas si)) @ '' curated commit''
             @ (if length (si_selected_shas si) \<noteq> 1 then ''s'' else []))
     @ (if si_selected_shas si = [] then []
        else ''git cherry-pick --no-commit'' @ concat (map (\<lambda>sha. '' '' @ sha) (si_selected_shas si)) @ [newline])
     @ echo ''Composing squash commit''
     @ commitLine
     @ si_squash_message_body si
     @ (if HasSuffix (si_squash_message_body si) [newline] then [] else [newline])
     @ heredoc_tag @ [newline]
     @ writeDone (si_target_branch si)"

fun cherryPicks :: "nat \<Rightarrow> nat \<Rightarrow> string list \<Rightarrow> string" where
  "cherryPicks i n [] = []"
| "cherryPicks i n (sha # shas) =
     echo (''Cherry-picking commit '' @ dec_digits (i + 1) @ '' of '' @ dec_digits n @ '': '' @ sha)
     @ ''git cherry-pick '' @ sha @ [newline] @ cherryPicks (Suc i) n shas"

definition buildPreserveScript :: "ScriptInput \<Rightarrow> string" where
  "buildPreserveScript si =
     writeScriptPrologue @ writeFetchStep (si_base_sha si) (si_selected_shas si)
     @ writeCheckoutStep (si_target_branch si) (si_base_sha si)
     @ cherryPicks 0 (length (si_selected_shas si)) (si_selected_shas si)
     @ writeDone (si_target_branch si)"

definition BuildScript :: "ScriptInput \<Rightarrow> string" where
  "BuildScript si =
     (if si_mode si = ''squash'' then buildSquashScript si
      else if si_mode si = ''preserve'' then buildPreserveScript si
      else [])"

subsection \<open>How a shell reads words\<close>

text \<open>
  One word from the front of the input, as POSIX shells read it: single quotes take everything
  literally, a backslash outside them takes the next character literally (and vanishes together
  with a newline), and the characters of branch names stand for themselves.  The first other character ends the
  word.  The flag says whether the reader is inside single quotes.
\<close>

fun sh_word :: "bool \<Rightarrow> string \<Rightarrow> (string \<times> string) option" where
  "sh_word q [] = (if q then None else Some ([], []))"
| "sh_word q (c # r) =
     (if q then (if c = squote then sh_word False r else map_option (apfst (Cons c)) (sh_word True r))
      else if c = squote then sh_word True r
      else if c = backslash then
        (case r of
           [] \<Rightarrow> None
         | d # r' \<Rightarrow> if d = newline then sh_word False r' else map_option (apfst (Cons d)) (sh_word False r'))
      else if branch_char c then map_option (apfst (Cons c)) (sh_word False r)
      else Some ([], c # r))"

lemma sh_word_length: "sh_word q s = Some (w, r) \<Longrightarrow> length r \<le> length s"
proof (induction q s arbitrary: w rule: sh_word.induct)
  case (2 q c r0)
  then show ?case
    by (fastforce split: if_splits list.splits)
qed (simp split: if_splits)

text \<open>A simple command: words separated by single blanks up to the end of the line.\<close>

function sh_words :: "string \<Rightarrow> (string list \<times> string) option" where
  "sh_words s =
     (case sh_word False s of
        None \<Rightarrow> None
      | Some (w, r) \<Rightarrow>
          (case r of
             [] \<Rightarrow> Some ([w], [])
           | c # r' \<Rightarrow>
               if c = newline then Some ([w], r')
               else if c = CHR '' '' then map_option (apfst (Cons w)) (sh_words r')
               else None))"
  by pat_completeness auto
termination
  by (relation "measure length") (auto dest: sh_word_length)

declare sh_words.simps [simp del]

lemma sh_word_squoted:
  "sh_word True (ReplaceAll s [squote] [squote, backslash, squote, squote] @ squote # t) =
     map_option (apfst (append s)) (sh_word False t)"
proof (induction s)
  case Nil
  then show ?case by (cases "sh_word False t") auto
next
  case (Cons c s)
  have ne: "squote \<noteq> backslash" "backslash \<noteq> squote" "squote \<noteq> newline"
    by (simp_all add: squote_def backslash_def newline_def)
  show ?case
  proof (cases "c = squote")
    case True
    have "ReplaceAll (c # s) [squote] [squote, backslash, squote, squote] =
        [squote, backslash, squote, squote] @ ReplaceAll s [squote] [squote, backslash, squote, squote]"
      using ReplaceAll_match[of "[squote]" s "[squote, backslash, squote, squote]"] True by simp
    with Cons ne True show ?thesis
      by (cases "sh_word False t") (auto simp: apfst_def)
  next
    case False
    have "ReplaceAll (c # s) [squote] [squote, backslash, squote, squote] =
        c # ReplaceAll s [squote] [squote, backslash, squote, squote]"
      using ReplaceAll_nomatch[of c s "[squote]" "[squote, backslash, squote, squote]"] False by simp
    with Cons False show ?thesis
      by (cases "sh_word False t") (auto simp: apfst_def)
  qed
qed

lemma sh_word_shellquote:
  "sh_word False (shellquote s @ t) = map_option (apfst (append s)) (sh_word False t)"
  using sh_word_squoted[of s t] by (simp add: shellquote_def squote_def)

lemma sh_words_plain:
  assumes "list_all branch_char w"
  shows "sh_words (w @ CHR '' '' # t) = map_option (apfst (Cons w)) (sh_words t)"
proof -
  have sp: "\<not> branch_char (CHR '' '')" "CHR '' '' \<noteq> squote" "CHR '' '' \<noteq> backslash" "CHR '' '' \<noteq> newline"
    by code_simp+
  have nb: "\<not> branch_char squote" "\<not> branch_char backslash" by code_simp+
  have "sh_word False (w @ CHR '' '' # t) = Some (w, CHR '' '' # t)"
    using assms by (induction w) (auto simp: sp nb)
  then show ?thesis by (subst sh_words.simps) (simp add: sp)
qed

lemma sh_words_shellquote_blank:
  "sh_words (shellquote s @ CHR '' '' # t) = map_option (apfst (Cons s)) (sh_words t)"
proof -
  have sp: "\<not> branch_char (CHR '' '')" "CHR '' '' \<noteq> squote" "CHR '' '' \<noteq> backslash" "CHR '' '' \<noteq> newline"
    by code_simp+
  have "sh_word False (shellquote s @ CHR '' '' # t) = Some (s, CHR '' '' # t)"
    by (simp add: sh_word_shellquote sp)
  then show ?thesis by (subst sh_words.simps) (simp add: sp)
qed

lemma sh_words_shellquote_newline:
  "sh_words (shellquote s @ newline # t) = Some ([s], t)"
proof -
  have nl: "\<not> branch_char newline" "newline \<noteq> squote" "newline \<noteq> backslash" by code_simp+
  have "sh_word False (shellquote s @ newline # t) = Some (s, newline # t)"
    by (simp add: sh_word_shellquote nl)
  then show ?thesis by (subst sh_words.simps) simp
qed


subsection \<open>The here-document\<close>

text \<open>
  A here-document with a quoted delimiter: the lines up to the first one that equals the delimiter,
  taken literally, and the lines behind it, which the shell goes on to execute.
\<close>

definition heredoc_read :: "string \<Rightarrow> string list \<Rightarrow> (string list \<times> string list) option" where
  "heredoc_read tag ls =
     (if tag \<in> set ls then Some (takeWhile (\<lambda>l. l \<noteq> tag) ls, tl (dropWhile (\<lambda>l. l \<noteq> tag) ls)) else None)"

definition unlines :: "string list \<Rightarrow> string" where
  "unlines ls = concat (map (\<lambda>l. l @ [newline]) ls)"

definition with_newline :: "string \<Rightarrow> string" where
  "with_newline m = m @ (if HasSuffix m [newline] then [] else [newline])"

lemma with_newline_lines:
  obtains m0 where "with_newline m = m0 @ [newline]" "set (Split newline m0) \<subseteq> set (Split newline m)"
proof (cases "HasSuffix m [newline]")
  case True
  then obtain m0 where "m = m0 @ [newline]" by (auto simp: HasSuffix_iff)
  then show ?thesis
    using that[of m0] True Split_append_sep[of newline m0 "[]"] by (auto simp: with_newline_def)
next
  case False
  then show ?thesis using that[of m] by (simp add: with_newline_def)
qed

lemma unlines_Split: "unlines (Split newline m) = m @ [newline]"
proof -
  have "unlines ls = Join ls [newline] @ [newline]" if "ls \<noteq> []" for ls
    using that by (induction ls rule: list_nonempty_induct) (auto simp: unlines_def Join_Cons)
  then show ?thesis by (simp add: Join_Split)
qed

lemma heredoc_tag_no_newline: "newline \<notin> set heredoc_tag"
  by code_simp

lemma squash_script_tail:
  "\<exists>pre. buildSquashScript si = pre @ commitLine @ with_newline (si_squash_message_body si) @ heredoc_tag @ [newline]
     @ writeDone (si_target_branch si)"
  unfolding buildSquashScript_def with_newline_def
  by (rule exI[of _ "writeScriptPrologue @ writeFetchStep (si_base_sha si) (si_selected_shas si)
     @ writeCheckoutStep (si_target_branch si) (si_base_sha si)
     @ echo (''Staging '' @ dec_digits (length (si_selected_shas si)) @ '' curated commit''
             @ (if length (si_selected_shas si) \<noteq> 1 then ''s'' else []))
     @ (if si_selected_shas si = [] then []
        else ''git cherry-pick --no-commit'' @ concat (map (\<lambda>sha. '' '' @ sha) (si_selected_shas si)) @ [newline])
     @ echo ''Composing squash commit''"]) (simp only: append_assoc)

text \<open>
  The commit message arrives intact.  If no line of the message is the delimiter, the text
  behind the commit command is read back as exactly the message (with a final newline), and the
  script continues with the closing line.
\<close>
theorem heredoc_delivers_message:
  assumes "heredoc_tag \<notin> set (Split newline (si_squash_message_body si))"
  shows "\<exists>pre text ls. buildSquashScript si = pre @ commitLine @ text
     \<and> heredoc_read heredoc_tag (Split newline text) = Some (ls, Split newline (writeDone (si_target_branch si)))
     \<and> unlines ls = with_newline (si_squash_message_body si)"
proof -
  let ?m = "si_squash_message_body si" and ?done = "writeDone (si_target_branch si)"
  obtain m0 where m0: "with_newline ?m = m0 @ [newline]" "set (Split newline m0) \<subseteq> set (Split newline ?m)"
    by (rule with_newline_lines)
  let ?text = "with_newline ?m @ heredoc_tag @ [newline] @ ?done"
  have sp: "Split newline ?text = Split newline m0 @ heredoc_tag # Split newline ?done"
    using Split_append_sep[of newline m0 "heredoc_tag @ newline # ?done"]
      Split_append[OF heredoc_tag_no_newline, of ?done]
    by (simp add: m0)
  have nin: "heredoc_tag \<notin> set (Split newline m0)" using m0(2) assms by blast
  have "heredoc_read heredoc_tag (Split newline ?text) = Some (Split newline m0, Split newline ?done)"
    unfolding sp heredoc_read_def using nin by simp
  moreover have "unlines (Split newline m0) = with_newline ?m" by (simp add: unlines_Split m0)
  moreover obtain pre where "buildSquashScript si = pre @ commitLine @ ?text" using squash_script_tail by blast
  ultimately show ?thesis by blast
qed

subsection \<open>Co-authors\<close>

abbreviation named_authors :: "Commit list \<Rightarrow> Commit list" where
  "named_authors cs \<equiv> filter (\<lambda>c. c_author_email c \<noteq> []) cs"

lemma coAuthorsFrom_emails:
  "(\<lambda>a. lower (ca_email a)) ` set (coAuthorsFrom lower seen cs) =
     (\<lambda>c. lower (c_author_email c)) ` set (named_authors cs) - set seen"
proof (induction cs arbitrary: seen)
  case (Cons c cs)
  let ?S = "(\<lambda>c. lower (c_author_email c)) ` set (named_authors cs)"
  let ?e = "lower (c_author_email c)"
  have "insert ?e (?S - set (?e # seen)) = insert ?e ?S - set seen" if "?e \<notin> set seen" using that by auto
  moreover have "?S - set seen = insert ?e ?S - set seen" if "?e \<in> set seen" using that by auto
  ultimately show ?case
    by (simp add: Cons.IH del: set_filter)
qed simp

lemma coAuthorsFrom_distinct:
  "distinct (map (\<lambda>a. lower (ca_email a)) (coAuthorsFrom lower seen cs))"
proof (induction cs arbitrary: seen)
  case (Cons c cs)
  have "lower (c_author_email c) \<notin> (\<lambda>a. lower (ca_email a)) ` set (coAuthorsFrom lower (lower (c_author_email c) # seen) cs)"
    unfolding coAuthorsFrom_emails by simp
  then show ?case using Cons by auto
qed simp

lemma coAuthorsFrom_origin:
  "(\<lambda>a. (ca_email a, ca_name a)) ` set (coAuthorsFrom lower seen cs)
     \<subseteq> (\<lambda>c. (c_author_email c, c_author_name c)) ` set cs"
proof (induction cs arbitrary: seen)
  case (Cons c cs)
  show ?case
    using Cons.IH[of seen] Cons.IH[of "lower (c_author_email c) # seen"] by (auto simp: subset_insertI2)
qed simp

text \<open>
  Credit is complete and not duplicated: the co-author list names every commit author with an
  e-mail address exactly once up to letter case, each with the spelling of one of the selected commits.
\<close>
theorem composeCoAuthors_spec:
  "distinct (map (\<lambda>a. lower (ca_email a)) (composeCoAuthors lower cs))
   \<and> (\<lambda>a. lower (ca_email a)) ` set (composeCoAuthors lower cs) =
       (\<lambda>c. lower (c_author_email c)) ` set (named_authors cs)
   \<and> (\<lambda>a. (ca_email a, ca_name a)) ` set (composeCoAuthors lower cs)
       \<subseteq> (\<lambda>c. (c_author_email c, c_author_name c)) ` set cs"
  unfolding composeCoAuthors_def
  using coAuthorsFrom_distinct[of lower "[]" cs] coAuthorsFrom_emails[of lower "[]" cs]
    coAuthorsFrom_origin[of lower "[]" cs]
  by simp

subsection \<open>Truncation\<close>

lemma runes_step: "s \<noteq> [] \<Longrightarrow> runes s = take (max 1 (utf8_len s)) s # runes (drop (max 1 (utf8_len s)) s)"
  by (subst runes.simps) simp

lemma runes_Nil [simp]: "runes [] = []"
  by (subst runes.simps) simp

lemma concat_runes: "concat (runes s) = s"
proof (induction s rule: runes.induct)
  case (1 s)
  then show ?case by (cases "s = []") (simp_all add: runes_step)
qed

lemma take_concat_runes: "take (length (concat (take k (runes s)))) s = concat (take k (runes s))"
proof -
  have "s = concat (take k (runes s)) @ concat (drop k (runes s))"
    by (metis append_take_drop_id concat_append concat_runes)
  then show ?thesis by (metis append_eq_conv_conj)
qed

lemma utf8_len_cut:
  assumes "utf8_len (p @ CHR 0xE2 # t) = m" "m \<noteq> 0" "p \<noteq> []"
  shows "utf8_len (p @ u) = m"
proof -
  have at: "\<not> cont_byte lo hi (p @ CHR 0xE2 # t) (length p)" if "hi \<le> 0xBF" for lo hi
    using that by (simp add: cont_byte_def byte_def)
  have "m \<le> length p"
  proof (rule ccontr)
    assume "\<not> m \<le> length p"
    then have l: "length p < m" by simp
    have p: "length p \<noteq> 0" using assms(3) by simp
    from assms(1,2) show False
    proof (cases rule: utf8_len_cases)
      case 1
      then show ?thesis using l p by simp
    next
      case 2
      then have "length p = 1" using l p by linarith
      with 2 at[of "0xBF" "0x80"] show ?thesis by simp
    next
      case 3
      then consider "length p = 1" | "length p = 2" using l p by linarith
      then show ?thesis using 3 at[of "0xBF" "0x80"]
          at[of "if byte (hd (p @ CHR 0xE2 # t)) = 0xED then 0x9F else 0xBF"
                "if byte (hd (p @ CHR 0xE2 # t)) = 0xE0 then 0xA0 else 0x80"]
        by cases (simp_all split: if_splits)
    next
      case 4
      then consider "length p = 1" | "length p = 2" | "length p = 3" using l p by linarith
      then show ?thesis using 4 at[of "0xBF" "0x80"]
          at[of "if byte (hd (p @ CHR 0xE2 # t)) = 0xF4 then 0x8F else 0xBF"
                "if byte (hd (p @ CHR 0xE2 # t)) = 0xF0 then 0x90 else 0x80"]
        by cases (simp_all split: if_splits)
    qed
  qed
  then have "take m (p @ CHR 0xE2 # t) @ drop m p @ u = p @ u" by (simp add: append_assoc[symmetric] del: append_assoc)
  with utf8_len_take[OF assms(1,2), of "drop m p @ u"] show ?thesis by (simp only:)
qed

lemma utf8_len_ellipsis: "utf8_len ellipsis = 3"
  by (simp add: ellipsis_def utf8_len_def cont_byte_def byte_def)

lemma runes_truncated: "runes (concat (take k (runes s)) @ ellipsis) = take k (runes s) @ [ellipsis]"
proof (induction k arbitrary: s)
  case 0
  have "ellipsis \<noteq> []" "length ellipsis = 3" by (simp_all add: ellipsis_def)
  then show ?case by (simp add: runes_step utf8_len_ellipsis)
next
  case (Suc k)
  show ?case
  proof (cases "s = []")
    case True
    then show ?thesis using Suc[of "[]"] by simp
  next
    case False
    let ?n = "max 1 (utf8_len s)"
    let ?p = "concat (take k (runes (drop ?n s)))"
    let ?x = "take ?n s @ ?p @ ellipsis"
    have len: "length (take ?n s) = ?n" using False utf8_len_le[of s] by (cases s) auto
    have "max 1 (utf8_len ?x) = ?n"
    proof (cases "utf8_len s = 0")
      case True
      have "s = (take ?n s @ ?p) @ concat (drop k (runes (drop ?n s)))"
        by (metis append_assoc append_take_drop_id concat_append concat_runes)
      then have "utf8_len ((take ?n s @ ?p) @ CHR 0xE2 # [CHR 0x80, CHR 0xA6]) = 0"
        using utf8_len_cut[of "take ?n s @ ?p" "[CHR 0x80, CHR 0xA6]" _ "concat (drop k (runes (drop ?n s)))"]
          True False by (metis Nil_is_append_conv list.size(3) len max.cobounded1 not_one_le_zero)
      then show ?thesis using True by (simp add: ellipsis_def)
    next
      case ne: False
      then show ?thesis using utf8_len_take[OF refl ne, of "?p @ ellipsis"] by simp
    qed
    note n = this
    have "?x \<noteq> []" using len by auto
    from runes_step[OF this] have "runes ?x = take ?n ?x # runes (drop ?n ?x)" by (simp only: n)
    moreover have "take ?n ?x = take ?n s" "drop ?n ?x = ?p @ ellipsis" using len by simp_all
    ultimately have x: "runes ?x = take ?n s # take k (runes (drop ?n s)) @ [ellipsis]"
      by (simp only: Suc)
    show ?thesis unfolding runes_step[OF False] using x by simp
  qed
qed

lemma lastSpaceByte_offset:
  "lastSpaceByte n i lst rs = lst \<or> (\<exists>j < n. j \<le> length rs \<and> lastSpaceByte n i lst rs = i + length (concat (take j rs)))"
proof (induction n i lst rs rule: lastSpaceByte.induct)
  case (3 n i lst r rs)
  let ?l = "if r = '' '' \<or> r = [tab] then i else lst"
  from 3 consider "lastSpaceByte n (i + length r) ?l rs = ?l"
    | j where "j < n" "j \<le> length rs" "lastSpaceByte n (i + length r) ?l rs = i + length r + length (concat (take j rs))"
    by blast
  then show ?case
  proof cases
    case 1
    then show ?thesis by (auto intro!: exI[of _ 0])
  next
    case (2 j)
    then show ?thesis by (intro disjI2 exI[of _ "Suc j"]) simp
  qed
qed simp_all

lemma runes_ends:
  assumes "r \<in> set (runes s)"
  shows "r \<noteq> [] \<and> (length r = 1 \<or> 0x80 \<le> byte (last r))"
  using assms
proof (induction s rule: runes.induct)
  case (1 s)
  show ?case
  proof (cases "s = []")
    case True
    with 1 show ?thesis by simp
  next
    case False
    let ?n = "max 1 (utf8_len s)"
    from 1(2) consider "r = take ?n s" | "r \<in> set (runes (drop ?n s))" by (auto simp: runes_step[OF False])
    then show ?thesis
    proof cases
      case 2
      with 1 False show ?thesis by simp
    next
      case r: 1
      have le: "?n \<le> length s" using False utf8_len_le[of s] by (cases s) auto
      have lst: "last r = s ! (?n - 1)" using r le False by (simp add: last_conv_nth)
      show ?thesis
      proof (cases "utf8_len s \<le> 1")
        case True
        then show ?thesis using r le False by (simp add: max_def)
      next
        case ne: False
        then have nz: "utf8_len s \<noteq> 0" by simp
        from refl nz have "0x80 \<le> byte (s ! (utf8_len s - 1))"
          by (cases rule: utf8_len_cases) (use ne in \<open>auto simp: cont_byte_def split: if_splits\<close>)
        with r lst le ne False show ?thesis by (simp add: max_def)
      qed
    qed
  qed
qed

lemma TrimRight_runes:
  assumes "set cs \<subseteq> set (runes s)"
  shows "\<exists>j \<le> length cs. TrimRight (concat cs) [CHR '' '', tab] = concat (take j cs)"
  using assms
proof (induction cs rule: rev_induct)
  case Nil
  then show ?case by simp
next
  case (snoc r cs)
  have r: "r \<noteq> []" "length r = 1 \<or> 0x80 \<le> byte (last r)" using runes_ends[of r s] snoc.prems by auto
  show ?case
  proof (cases "last r \<in> set [CHR '' '', tab]")
    case True
    then have "byte (last r) < 0x80" by (auto simp: byte_def tab_def)
    with r have "r = [last r]" by (cases r) auto
    with True have "set r \<subseteq> set [CHR '' '', tab]" by (metis empty_subsetI insert_subset list.simps(15) set_empty2)
    then have "TrimRight (concat (cs @ [r])) [CHR '' '', tab] = TrimRight (concat cs) [CHR '' '', tab]"
      using TrimRight_append_cut[of r "[CHR '' '', tab]" "concat cs"] by simp
    moreover obtain j where "j \<le> length cs" "TrimRight (concat cs) [CHR '' '', tab] = concat (take j cs)"
      using snoc by auto
    ultimately show ?thesis by (intro exI[of _ j]) simp
  next
    case False
    then have "TrimRight (concat (cs @ [r])) [CHR '' '', tab] = concat (cs @ [r])"
      using r(1) by (intro TrimRight_last) auto
    then show ?thesis by (intro exI[of _ "length (cs @ [r])"]) simp
  qed
qed

lemma hardTruncate_bound: "0 < mx \<Longrightarrow> RuneCountInString (hardTruncate s mx) \<le> mx"
  by (auto simp: hardTruncate_def RuneCountInString_def runes_truncated)

lemma wordBoundaryTruncate_bound:
  assumes "1 < mx"
  shows "RuneCountInString (wordBoundaryTruncate s mx) \<le> mx"
proof (cases "RuneCountInString s \<le> mx")
  case True
  then show ?thesis by (simp add: wordBoundaryTruncate_def)
next
  case long: False
  let ?lst = "lastSpaceByte mx 0 0 (runes s)"
  have cut: "\<exists>j < mx. wordBoundaryTruncate s mx = concat (take j (runes s)) @ ellipsis"
  proof (cases "0 < ?lst")
    case True
    then obtain j where j: "j < mx" "?lst = length (concat (take j (runes s)))"
      using lastSpaceByte_offset[of mx 0 0 "runes s"] by auto
    obtain k where k: "k \<le> length (take j (runes s))"
      "TrimRight (concat (take j (runes s))) [CHR '' '', tab] = concat (take k (take j (runes s)))"
      using TrimRight_runes[of "take j (runes s)" s] set_take_subset[of j "runes s"] by auto
    have kj: "k \<le> j" using k(1) by simp
    then have "wordBoundaryTruncate s mx = concat (take k (runes s)) @ ellipsis"
      using long True k by (simp add: wordBoundaryTruncate_def j(2) take_concat_runes min_def)
    then show ?thesis using k(1) j(1) by (intro exI[of _ k]) simp
  next
    case False
    have "runes s \<noteq> []" using long by (auto simp: RuneCountInString_def)
    then have "concat (take (mx - 1) (runes s)) \<noteq> []"
      using assms runes_ends[of "hd (runes s)" s] by (cases "runes s"; cases "mx - 1") auto
    then have "wordBoundaryTruncate s mx = concat (take (mx - 1) (runes s)) @ ellipsis"
      using long False by (simp add: wordBoundaryTruncate_def take_concat_runes Let_def del: concat_eq_Nil_conv)
    then show ?thesis using assms by (intro exI[of _ "mx - 1"]) simp
  qed
  then show ?thesis by (auto simp: RuneCountInString_def runes_truncated)
qed

text \<open>
  A squash subject is never longer than 72 characters, for any goal and any override, also when
  the text is cut and the ellipsis appended, and also for text that is not valid UTF-8.
\<close>
theorem composeSubject_bound:
  "RuneCountInString (composeSubject sessionGoal userOverride) \<le> 72"
  by (simp add: composeSubject_def hardTruncate_bound wordBoundaryTruncate_bound)

definition demo_script :: ScriptInput where
  "demo_script = \<lparr>si_mode = ''squash'', si_target_branch = ''ship'', si_base_sha = ''abc'', si_selected_shas = [''def''],
     si_squash_message_body = ''subject'' @ [newline]\<rparr>"

theorem heredoc_delivers_message_witness:
  "\<exists>pre text ls. buildSquashScript demo_script = pre @ commitLine @ text
     \<and> heredoc_read heredoc_tag (Split newline text) = Some (ls, Split newline (writeDone ''ship''))
     \<and> unlines ls = with_newline (''subject'' @ [newline])"
proof -
  have "heredoc_tag \<notin> set (Split newline (si_squash_message_body demo_script))" by code_simp
  from heredoc_delivers_message[OF this] show ?thesis by (simp add: demo_script_def)
qed

subsection \<open>When the delimiter is a line of the message\<close>

lemma Split_lines: "(\<And>l. l \<in> set ls \<Longrightarrow> newline \<notin> set l) \<Longrightarrow> Split newline (unlines ls @ t) = ls @ Split newline t"
  by (induction ls) (auto simp: unlines_def Split_append)

lemma firstLine_no_newline: "newline \<notin> set (firstLine s)"
proof (cases "IndexByte s newline")
  case None
  then have "newline \<notin> set s" by (simp add: IndexByte_None_iff)
  then show ?thesis using None set_TrimSpace[of s] by (auto simp: firstLine_def)
next
  case (Some i)
  then have "newline \<notin> set (take i s)" using IndexByte_SomeD[of s newline i] by (auto dest: set_takeWhileD)
  then show ?thesis using Some set_TrimSpace[of "take i s"] by (auto simp: firstLine_def)
qed

definition message_lines :: "string \<Rightarrow> Commit list \<Rightarrow> CoAuthor list \<Rightarrow> string list" where
  "message_lines subject commits coAuthors =
     subject # (if commits = [] then [] else [] # map (\<lambda>c. ''- '' @ firstLine (c_message c)) commits)
     @ (if coAuthors = [] then [] else [] # map (\<lambda>ca. ''Co-authored-by: '' @ ca_name ca @ '' <'' @ ca_email ca @ ''>'') coAuthors)"

lemma Render_unlines:
  "RenderSquashMessageBody subject (composeBody commits) coAuthors = unlines (message_lines subject commits coAuthors)"
  by (simp add: RenderSquashMessageBody_def composeBody_def message_lines_def unlines_def
      stripTrailersFromSubject_def comp_def)

text \<open>
  The composed message is safe inside its here-document exactly when the subject is not the
  delimiter itself: for a one-line subject and author fields without newlines, no other line of the
  message can end the here-document early, whatever the commits say.
\<close>
theorem heredoc_tag_only_as_subject:
  assumes "newline \<notin> set subject"
    and "\<And>a. a \<in> set coAuthors \<Longrightarrow> newline \<notin> set (ca_name a) \<and> newline \<notin> set (ca_email a)"
  shows "heredoc_tag \<in> set (Split newline (RenderSquashMessageBody subject (composeBody commits) coAuthors))
     \<longleftrightarrow> subject = heredoc_tag"
proof -
  let ?ls = "message_lines subject commits coAuthors"
  have "newline \<notin> set l" if "l \<in> set ?ls" for l
    using that assms firstLine_no_newline
    by (auto simp: message_lines_def newline_def split: if_splits)
  then have "set (Split newline (unlines ?ls)) = insert [] (set ?ls)"
    using Split_lines[of ?ls "[]"] by simp
  then show ?thesis
    unfolding Render_unlines by (auto simp: message_lines_def heredoc_tag_def)
qed

theorem heredoc_tag_only_as_subject_witness:
  "\<not> (heredoc_tag \<in> set (Split newline (RenderSquashMessageBody ''ship'' (composeBody []) [])))
   \<and> heredoc_tag \<in> set (Split newline (RenderSquashMessageBody heredoc_tag (composeBody []) []))"
  using heredoc_tag_only_as_subject[of "''ship''" "[]" "[]"] heredoc_tag_only_as_subject[of heredoc_tag "[]" "[]"]
    heredoc_tag_no_newline
  by (simp add: heredoc_tag_def newline_def)

subsection \<open>A goal with line breaks\<close>

definition escaping_goal :: string where
  "escaping_goal = ''x'' @ [newline] @ heredoc_tag @ [newline] @ ''id''"

text \<open>
  The subject taken from the session's goal keeps the goal's line breaks, so a goal can hold the delimiter on a
  line of its own: the here-document ends there, and the rest of the goal is a command of the script.
\<close>
theorem goal_escapes_heredoc:
  assumes "si_squash_message_body si = RenderSquashMessageBody (composeSubject escaping_goal []) body coAuthors"
  shows "\<exists>pre post. buildSquashScript si =
      pre @ commitLine @ ''x'' @ [newline] @ heredoc_tag @ [newline] @ ''id'' @ [newline] @ post"
proof -
  let ?pre = "writeScriptPrologue @ writeFetchStep (si_base_sha si) (si_selected_shas si)
     @ writeCheckoutStep (si_target_branch si) (si_base_sha si)
     @ echo (''Staging '' @ dec_digits (length (si_selected_shas si)) @ '' curated commit''
             @ (if length (si_selected_shas si) \<noteq> 1 then ''s'' else []))
     @ (if si_selected_shas si = [] then []
        else ''git cherry-pick --no-commit'' @ concat (map (\<lambda>sha. '' '' @ sha) (si_selected_shas si)) @ [newline])
     @ echo ''Composing squash commit''"
  have "composeSubject escaping_goal [] = escaping_goal" by code_simp
  then obtain tl where m: "si_squash_message_body si = ''x'' @ [newline] @ heredoc_tag @ [newline] @ ''id'' @ [newline] @ tl"
    using assms by (simp add: RenderSquashMessageBody_def escaping_goal_def)
  have "buildSquashScript si = ?pre @ commitLine @ si_squash_message_body si
     @ (if HasSuffix (si_squash_message_body si) [newline] then [] else [newline])
     @ heredoc_tag @ [newline] @ writeDone (si_target_branch si)"
    by (simp only: buildSquashScript_def append_assoc)
  also have "\<dots> = ?pre @ commitLine @ ''x'' @ [newline] @ heredoc_tag @ [newline] @ ''id'' @ [newline]
     @ (tl @ (if HasSuffix (si_squash_message_body si) [newline] then [] else [newline])
        @ heredoc_tag @ [newline] @ writeDone (si_target_branch si))"
    by (subst m) (simp only: append_assoc)
  finally show ?thesis by blast
qed

end
