(* ===== verification/FinalizePlan.thy ===== *)
theory FinalizePlan
  imports FinalizeShip FinalizeScript
begin

text \<open>
  The finalize plan (\<^verbatim>\<open>internal/portal/finalize/plan.go\<close>): the lock's curation state, the commits of
  the session repository and the session's goal become a message and a script.  The repository is a
  parameter: \<open>resolve\<close> is \<^verbatim>\<open>repo.CommitObject(plumbing.NewHash(sha))\<close> of go-git as a function of the text of the
  hash, with the commit's committer time.
\<close>

datatype resolved = Found Commit time | ObjectNotFound | ResolveError

record plan_repo =
  pr_opens :: bool
  pr_resolve :: "string \<Rightarrow> resolved"

record PlanCommit =
  pc_sha :: string
  pc_author_name :: string
  pc_author_email :: string
  pc_subject :: string
  pc_committed_at :: time
  pc_account_id :: string

record PlanResponse =
  pl_id :: string
  pl_mode :: string
  pl_script :: string
  pl_lock_status :: LockStatus
  pl_remote_url :: string
  pl_selected :: "PlanCommit list"
  pl_target_branch :: string
  pl_base_sha :: string
  pl_commit_message :: string
  pl_co_authors :: "CoAuthor list"

definition lookupAccountID :: "faults \<Rightarrow> string \<Rightarrow> nat \<Rightarrow> db \<Rightarrow> string \<Rightarrow> string" where
  "lookupAccountID flt site n d email =
     (if email = [] then []
      else case call flt site n (GetAccountByEmail d email) of Inl _ \<Rightarrow> [] | Inr acc \<Rightarrow> a_id acc)"

text \<open>The curated commits, or the first hash that does not resolve.\<close>

fun resolveCommits :: "plan_repo \<Rightarrow> string list \<Rightarrow> PlanResponse resp + (Commit \<times> time) list" where
  "resolveCommits repo [] = Inr []"
| "resolveCommits repo (sha # shas) =
     (case pr_resolve repo sha of
        Found c t \<Rightarrow> res_bind (resolveCommits repo shas) (\<lambda>cs. Inr ((c, t) # cs))
      | ObjectNotFound \<Rightarrow>
          Inl (Envelope 409 ''finalize.commit_missing'' ''a curated commit is no longer present in the session repo''
                 [(''missing_sha'', EStr sha)])
      | ResolveError \<Rightarrow> Inl (Fail ErrOther))"

definition planCommits :: "faults \<Rightarrow> db \<Rightarrow> (Commit \<times> time) list \<Rightarrow> PlanCommit list" where
  "planCommits flt d cs =
     map (\<lambda>(i, c, t). \<lparr>pc_sha = c_hash c, pc_author_name = c_author_name c, pc_author_email = c_author_email c,
            pc_subject = firstLine (c_message c), pc_committed_at = t,
            pc_account_id = lookupAccountID flt ''commit account'' i d (c_author_email c)\<rparr>) (enumerate 0 cs)"

definition fillAccounts :: "faults \<Rightarrow> db \<Rightarrow> CoAuthor list \<Rightarrow> CoAuthor list" where
  "fillAccounts flt d cas =
     map (\<lambda>(i, ca). let a = lookupAccountID flt ''co-author account'' i d (ca_email ca) in
            if a = [] then ca else ca\<lparr>ca_account := a\<rparr>) (enumerate 0 cas)"

definition composePlan ::
  "faults \<Rightarrow> (string \<Rightarrow> string) \<Rightarrow> string \<Rightarrow> string \<Rightarrow> string \<Rightarrow> string \<Rightarrow> FinalizeLock \<Rightarrow> string list \<Rightarrow> (Commit \<times> time) list
   \<Rightarrow> Session \<Rightarrow> db \<Rightarrow> PlanResponse"
where
  "composePlan flt lower portalURL org sid acc lk shas cs sess d =
     (let mode = (if fl_mode lk = [] then ''squash'' else fl_mode lk);
          squash = (mode = ''squash'');
          (subject, body, cas0) = ComposeSquashMessage lower (s_goal sess) (opt_string (fl_commit_message lk)) (map fst cs);
          cas = fillAccounts flt d cas0;
          msg = (if squash then RenderSquashMessageBody subject body cas else []) in
      \<lparr>pl_id = sid @ '':'' @ fl_id lk, pl_mode = mode,
       pl_script = BuildScript \<lparr>si_mode = mode, si_target_branch = fl_target_branch lk, si_base_sha = fl_base_sha lk,
                     si_selected_shas = shas, si_squash_message_body = msg\<rparr>,
       pl_lock_status = lockStatus lk (fl_acquired_by lk = acc),
       pl_remote_url = portalURL @ ''/git/'' @ org @ ''/'' @ sid @ ''.git'',
       pl_selected = planCommits flt d cs, pl_target_branch = fl_target_branch lk, pl_base_sha = fl_base_sha lk,
       pl_commit_message = msg, pl_co_authors = (if squash then cas else [])\<rparr>)"

definition GetFinalizePlan ::
  "faults \<Rightarrow> (string \<Rightarrow> string) \<Rightarrow> string \<Rightarrow> plan_repo \<Rightarrow> time \<Rightarrow> string option \<Rightarrow> string \<Rightarrow> string \<Rightarrow> string \<Rightarrow> db
   \<Rightarrow> PlanResponse resp"
where
  "GetFinalizePlan flt lower portalURL repo now caller org sid lockID d =
     (case authorize flt caller org sid d of
        Inl r \<Rightarrow> r
      | Inr acc \<Rightarrow>
          (case loadLock flt org sid lockID d of
             Inl r \<Rightarrow> r
           | Inr lk \<Rightarrow>
               if fl_superseded_by lk \<noteq> None then
                 Envelope 409 ''finalize.lock_superseded'' ''finalize lock has been superseded''
                   [(''superseded_by_lock_id'', EStr (the (fl_superseded_by lk)))]
               else if IsLockExpired (fl_last_activity_at lk) now then
                 Envelope 409 ''finalize.lock_expired'' ''finalize lock idle for more than 30 minutes'' []
               else
                 (case (if fl_selected_commit_shas lk = [] then Some [] else UnmarshalStrings (fl_selected_commit_shas lk)) of
                    None \<Rightarrow> Fail ErrOther
                  | Some shas \<Rightarrow>
                      if \<not> pr_opens repo then Fail ErrOther
                      else (case resolveCommits repo shas of
                              Inl r \<Rightarrow> r
                            | Inr cs \<Rightarrow>
                                (case call flt ''get session'' 0 (GetSession d org sid) of
                                   Inl e \<Rightarrow> Fail e
                                 | Inr sess \<Rightarrow>
                                     JSON 200 (composePlan flt lower portalURL org sid acc lk shas cs sess d))))))"

subsection \<open>Properties\<close>

lemma resolveCommits_Inr:
  "resolveCommits repo shas = Inr cs \<Longrightarrow> list_all2 (\<lambda>sha (c, t). pr_resolve repo sha = Found c t) shas cs"
  by (induction shas arbitrary: cs) (auto simp: res_bind_Inr_iff split: resolved.splits)

lemma resolveCommits_not_JSON: "resolveCommits repo shas \<noteq> Inl (JSON c p)"
proof (induction shas)
  case (Cons sha shas)
  then show ?case by (cases "resolveCommits repo shas") (auto split: resolved.splits)
qed simp

lemma authorize_Inl_not_JSON: "authorize flt caller org sid d = Inl r \<Longrightarrow> r \<noteq> JSON c st"
  by (auto simp: authorize_def verdict_response_def session_not_found_def
      split: option.splits sum.splits membershipVerdict.splits)

lemma loadLock_Inl_not_JSON: "loadLock flt org sid lockID d = Inl r \<Longrightarrow> r \<noteq> JSON c st"
  by (auto simp: loadLock_def lock_not_found_def split: sum.splits if_splits)

lemma loadLock_Inr:
  "loadLock flt org sid lockID d = Inr lk \<Longrightarrow>
     lk \<in> set (d_locks d) \<and> fl_id lk = lockID \<and> fl_session lk = sid \<and> fl_org lk = org"
  using find_Some_iff'[of "\<lambda>l. fl_id l = lockID" "d_locks d" lk]
  by (auto simp: loadLock_def call_def GetFinalizeLockByID_def split: sum.splits if_splits option.splits)

lemma GetFinalizePlan_200:
  assumes "GetFinalizePlan flt lower portalURL repo now caller org sid lockID d = JSON c p"
  obtains acc lk shas cs sess where "authorize flt caller org sid d = (Inr acc :: PlanResponse resp + string)"
    "loadLock flt org sid lockID d = (Inr lk :: PlanResponse resp + FinalizeLock)"
    "fl_superseded_by lk = None" "\<not> IsLockExpired (fl_last_activity_at lk) now"
    "(if fl_selected_commit_shas lk = [] then Some [] else UnmarshalStrings (fl_selected_commit_shas lk)) = Some shas"
    "resolveCommits repo shas = Inr cs" "GetSession d org sid = Inr sess"
    "p = composePlan flt lower portalURL org sid acc lk shas cs sess d"
proof -
  obtain acc where a: "authorize flt caller org sid d = (Inr acc :: PlanResponse resp + string)"
    using assms authorize_Inl_not_JSON[of flt caller org sid d _ c p]
    by (cases "authorize flt caller org sid d :: PlanResponse resp + string") (auto simp: GetFinalizePlan_def)
  obtain lk where l: "loadLock flt org sid lockID d = (Inr lk :: PlanResponse resp + FinalizeLock)"
    using assms a loadLock_Inl_not_JSON[of flt org sid lockID d _ c p]
    by (cases "loadLock flt org sid lockID d :: PlanResponse resp + FinalizeLock") (auto simp: GetFinalizePlan_def)
  have ok: "fl_superseded_by lk = None" "\<not> IsLockExpired (fl_last_activity_at lk) now"
    using assms a l by (auto simp: GetFinalizePlan_def split: if_splits)
  let ?dec = "if fl_selected_commit_shas lk = [] then Some [] else UnmarshalStrings (fl_selected_commit_shas lk)"
  obtain shas where s: "?dec = Some shas"
    using assms a l ok by (cases ?dec) (auto simp: GetFinalizePlan_def)
  obtain cs where r: "resolveCommits repo shas = Inr cs"
    using assms a l ok s resolveCommits_not_JSON[of repo shas c p]
    by (cases "resolveCommits repo shas") (auto simp: GetFinalizePlan_def split: if_splits)
  obtain sess where g: "GetSession d org sid = Inr sess" "p = composePlan flt lower portalURL org sid acc lk shas cs sess d"
    using assms a l ok s r
    by (cases "GetSession d org sid") (auto simp: GetFinalizePlan_def call_def split: if_splits)
  show ?thesis by (rule that[OF a l ok s r g])
qed

lemma composePlan_simps:
  "pl_target_branch (composePlan flt lower u org sid acc lk shas cs sess d) = fl_target_branch lk"
  "pl_base_sha (composePlan flt lower u org sid acc lk shas cs sess d) = fl_base_sha lk"
  "\<exists>msg. pl_script (composePlan flt lower u org sid acc lk shas cs sess d) =
     BuildScript \<lparr>si_mode = (if fl_mode lk = [] then ''squash'' else fl_mode lk), si_target_branch = fl_target_branch lk,
       si_base_sha = fl_base_sha lk, si_selected_shas = shas, si_squash_message_body = msg\<rparr>"
  by (auto simp: composePlan_def Let_def ComposeSquashMessage_def)


lemma squash_script_shas:
  assumes "shas \<noteq> []"
  shows "\<exists>pre post. BuildScript \<lparr>si_mode = ''squash'', si_target_branch = b, si_base_sha = base, si_selected_shas = shas,
      si_squash_message_body = msg\<rparr> =
     pre @ ''git cherry-pick --no-commit'' @ concat (map (\<lambda>sha. '' '' @ sha) shas) @ [newline] @ post"
proof -
  let ?si = "\<lparr>si_mode = ''squash'', si_target_branch = b, si_base_sha = base, si_selected_shas = shas,
      si_squash_message_body = msg\<rparr>"
  let ?pre = "writeScriptPrologue @ writeFetchStep base shas @ writeCheckoutStep b base
     @ echo (''Staging '' @ dec_digits (length shas) @ '' curated commit'' @ (if length shas \<noteq> 1 then ''s'' else []))"
  let ?post = "echo ''Composing squash commit'' @ commitLine @ msg @ (if HasSuffix msg [newline] then [] else [newline])
     @ heredoc_tag @ [newline] @ writeDone b"
  have sp: "(@) '' '' = (#) (CHR '' '')" by (simp add: fun_eq_iff)
  have "BuildScript ?si = ?pre @ ''git cherry-pick --no-commit'' @ concat (map (\<lambda>sha. '' '' @ sha) shas) @ [newline] @ ?post"
    using assms by (simp add: BuildScript_def buildSquashScript_def sp)
  then show ?thesis by blast
qed

lemma patchValidate_ignores_shas: "patchValidate (b\<lparr>pb_selected_commit_shas := xs\<rparr>) = patchValidate b"
  by (simp add: patchValidate_def)

text \<open>
  C37: Curated hashes are neither validated nor quoted.  A PATCH is validated without looking at the
  selected hashes, and the plan pastes them into the script as they are.  If the text of a hash may
  carry a tail that go-git's parser ignores (it decodes the leading hexadecimal digits and drops the
  decoding error), a request for a hash followed by any text yields a script with that text on its command
  line.
\<close>
theorem selected_sha_injection:
  assumes tail_ignored: "pr_resolve repo (sha @ junk) = pr_resolve repo sha"
    and found: "pr_resolve repo sha = Found cm t"
    and lock: "loadLock flt org sid lockID d = (Inr lk :: PlanResponse resp + FinalizeLock)"
      "fl_selected_commit_shas lk = MarshalStrings [sha @ junk]" "valid_utf8 (sha @ junk)" "fl_mode lk = ''squash''"
    and plan: "GetFinalizePlan flt lower portalURL repo now caller org sid lockID d = r"
    and live: "authorize flt caller org sid d = (Inr acc :: PlanResponse resp + string)"
      "fl_superseded_by lk = None" "\<not> IsLockExpired (fl_last_activity_at lk) now" "pr_opens repo"
      "call flt ''get session'' 0 (GetSession d org sid) = Inr sess"
  shows "patchValidate (b\<lparr>pb_selected_commit_shas := [sha @ junk]\<rparr>) = patchValidate b
     \<and> (\<exists>p pre post. r = JSON 200 p \<and> pl_script p = pre @ ''git cherry-pick --no-commit '' @ sha @ junk @ [newline] @ post)"
proof -
  have u: "UnmarshalStrings (fl_selected_commit_shas lk) = Some [sha @ junk]"
    using UnmarshalStrings_MarshalStrings[of "[sha @ junk]"] lock(2,3) by simp
  have ne: "fl_selected_commit_shas lk \<noteq> []" by (simp add: lock(2))
  have rs: "resolveCommits repo [sha @ junk] = Inr [(cm, t)]" by (simp add: tail_ignored found)
  have r: "r = JSON 200 (composePlan flt lower portalURL org sid acc lk [sha @ junk] [(cm, t)] sess d)"
    using plan live lock(1) by (simp add: GetFinalizePlan_def ne u rs del: resolveCommits.simps)
  obtain msg where m: "pl_script (composePlan flt lower portalURL org sid acc lk [sha @ junk] [(cm, t)] sess d) =
      BuildScript \<lparr>si_mode = ''squash'', si_target_branch = fl_target_branch lk, si_base_sha = fl_base_sha lk,
        si_selected_shas = [sha @ junk], si_squash_message_body = msg\<rparr>"
    using composePlan_simps(3)[of flt lower portalURL org sid acc lk "[sha @ junk]" "[(cm, t)]" sess d] lock(4) by auto
  obtain pre post where "BuildScript \<lparr>si_mode = ''squash'', si_target_branch = fl_target_branch lk, si_base_sha = fl_base_sha lk,
        si_selected_shas = [sha @ junk], si_squash_message_body = msg\<rparr> =
      pre @ ''git cherry-pick --no-commit '' @ sha @ junk @ [newline] @ post"
    using squash_script_shas[of "[sha @ junk]"] by fastforce
  with r m show ?thesis by (auto simp: patchValidate_ignores_shas)
qed

subsection \<open>A plan with a hash that carries a command\<close>

definition evil_commit :: Commit where
  "evil_commit = \<lparr>c_hash = ''abc'', c_message = ''work'', c_author_name = ''Ann'', c_author_email = ''a@x'', c_parents = []\<rparr>"

text \<open>A repository whose hash parser reads the leading hexadecimal digits.\<close>

definition evil_repo :: plan_repo where
  "evil_repo = \<lparr>pr_opens = True,
     pr_resolve = (\<lambda>s. if takeWhile (\<lambda>c. c \<in> set ''0123456789abcdef'') s = ''abc'' then Found evil_commit 0 else ObjectNotFound)\<rparr>"

definition evil_lock :: FinalizeLock where
  "evil_lock = (new_lock ''L1'' ann_pre)\<lparr>fl_selected_commit_shas := MarshalStrings [''abc; id''], fl_mode := ''squash''\<rparr>"

definition evil_db :: db where
  "evil_db = (ex_db ''finalizing'')\<lparr>d_locks := [evil_lock]\<rparr>"

definition evil_plan :: "PlanResponse resp" where
  "evil_plan = GetFinalizePlan no_faults (\<lambda>s. s) ''https://p'' evil_repo 1 (Some ''ann'') ''o'' ''s'' ''L1'' evil_db"

lemma evil_facts:
  "authorize no_faults (Some ''ann'') ''o'' ''s'' evil_db = (Inr ''ann'' :: PlanResponse resp + string)"
  "loadLock no_faults ''o'' ''s'' ''L1'' evil_db = (Inr evil_lock :: PlanResponse resp + FinalizeLock)"
  "call no_faults ''get session'' 0 (GetSession evil_db ''o'' ''s'') = Inr (ex_session ''finalizing'')"
  "fl_superseded_by evil_lock = None" "\<not> IsLockExpired (fl_last_activity_at evil_lock) 1" "pr_opens evil_repo"
  "pr_resolve evil_repo (''abc'' @ ''; id'') = pr_resolve evil_repo ''abc''"
  "pr_resolve evil_repo ''abc'' = Found evil_commit 0"
  "fl_selected_commit_shas evil_lock = MarshalStrings [''abc'' @ ''; id'']"
  "valid_utf8 (''abc'' @ ''; id'')" "fl_mode evil_lock = ''squash''"
  by code_simp+


theorem selected_sha_injection_witness:
  "\<exists>p pre post. evil_plan = JSON 200 p
     \<and> pl_script p = pre @ ''git cherry-pick --no-commit '' @ ''abc'' @ ''; id'' @ [newline] @ post"
  using selected_sha_injection[OF evil_facts(7,8,2,9,10,11) evil_plan_def[symmetric] evil_facts(1,4,5,6,3)] by blast

end
