(* ===== verification/AutoWorker.thy ===== *)
theory AutoWorker
  imports Store
begin

text \<open>
  The queues of the auto-merger worker (\<^verbatim>\<open>internal/portal/automerger/worker.go\<close>): one bounded channel and one
  draining goroutine per active session, created under the worker's mutex by \<open>enqueue\<close> and given up
  by an idle goroutine that re-checks its channel under the same mutex.  The goroutines interleave
  freely; each critical section, channel operation and completed merge is one step.  The histories
  of accepted and processed events are kept for the statements.
\<close>

datatype loop_state = Waiting | Working EventRow

record worker =
  w_sessions :: "string \<rightharpoonup> nat"
  w_chan :: "nat \<Rightarrow> EventRow list"
  w_loop :: "nat \<rightharpoonup> string \<times> loop_state"
  w_alloc :: nat
  w_cancelled :: bool
  w_backpressure :: "EventRow list"
  w_accepted :: "EventRow list"
  w_done :: "EventRow list"

definition startWorker :: worker where
  "startWorker = \<lparr>w_sessions = Map.empty, w_chan = (\<lambda>_. []), w_loop = Map.empty, w_alloc = 0, w_cancelled = False,
     w_backpressure = [], w_accepted = [], w_done = []\<rparr>"

definition queueSize :: "nat \<Rightarrow> nat" where
  "queueSize n = (if n = 0 then 256 else n)"

subsection \<open>Critical sections\<close>

text \<open>The queue of a session, with a new channel and goroutine when there is none.\<close>

definition sessionQueue :: "string \<Rightarrow> worker \<Rightarrow> nat \<times> worker" where
  "sessionQueue sid w =
     (case w_sessions w sid of
        Some q \<Rightarrow> (q, w)
      | None \<Rightarrow>
          let q = w_alloc w in
          (q, w\<lparr>w_sessions := (w_sessions w)(sid \<mapsto> q), w_chan := (w_chan w)(q := []),
                w_loop := (w_loop w)(q \<mapsto> (sid, Waiting)), w_alloc := Suc q\<rparr>))"

definition enqueue :: "nat \<Rightarrow> EventRow \<Rightarrow> worker \<Rightarrow> worker" where
  "enqueue cap e w =
     (let (q, w1) = sessionQueue (ev_session e) w in
      if length (w_chan w1 q) < cap then
        w1\<lparr>w_chan := (w_chan w1)(q := w_chan w1 q @ [e]), w_accepted := w_accepted w1 @ [e]\<rparr>
      else w1\<lparr>w_backpressure := w_backpressure w1 @ [e]\<rparr>)"

definition receive :: "nat \<Rightarrow> worker \<Rightarrow> worker" where
  "receive q w =
     w\<lparr>w_chan := (w_chan w)(q := tl (w_chan w q)),
       w_loop := (w_loop w)(q \<mapsto> (fst (the (w_loop w q)), Working (hd (w_chan w q))))\<rparr>"

definition processed :: "nat \<Rightarrow> EventRow \<Rightarrow> worker \<Rightarrow> worker" where
  "processed q e w =
     w\<lparr>w_loop := (w_loop w)(q \<mapsto> (fst (the (w_loop w q)), Waiting)), w_done := w_done w @ [e]\<rparr>"

definition leave :: "nat \<Rightarrow> string \<Rightarrow> worker \<Rightarrow> worker" where
  "leave q sid w = w\<lparr>w_sessions := (w_sessions w)(sid := None), w_loop := (w_loop w)(q := None)\<rparr>"

definition idleFires :: "nat \<Rightarrow> string \<Rightarrow> worker \<Rightarrow> worker" where
  "idleFires q sid w = (if w_chan w q = [] then leave q sid w else w)"

subsection \<open>Interleavings\<close>

text \<open>The steps of the draining goroutines that make progress.\<close>

inductive drain_step :: "worker \<Rightarrow> worker \<Rightarrow> bool" where
  recv_event: "w_loop w q = Some (sid, Waiting) \<Longrightarrow> w_chan w q \<noteq> [] \<Longrightarrow> drain_step w (receive q w)"
| process_event: "w_loop w q = Some (sid, Working e) \<Longrightarrow> drain_step w (processed q e w)"
| idle_exit: "w_loop w q = Some (sid, Waiting) \<Longrightarrow> w_chan w q = [] \<Longrightarrow> drain_step w (idleFires q sid w)"

inductive worker_step :: "nat \<Rightarrow> worker \<Rightarrow> worker \<Rightarrow> bool" for cap where
  arrive: "worker_step cap w (enqueue cap e w)"
| drain: "drain_step w w' \<Longrightarrow> worker_step cap w w'"
| idle_stay: "w_loop w q = Some (sid, Waiting) \<Longrightarrow> w_chan w q \<noteq> [] \<Longrightarrow> worker_step cap w (idleFires q sid w)"
| cancel: "worker_step cap w (w\<lparr>w_cancelled := True\<rparr>)"
| cancel_exit: "w_cancelled w \<Longrightarrow> w_loop w q = Some (sid, Waiting) \<Longrightarrow> worker_step cap w (leave q sid w)"

inductive_cases drain_stepE: "drain_step w w'"

subsection \<open>Invariant\<close>

definition of_session :: "string \<Rightarrow> EventRow list \<Rightarrow> EventRow list" where
  "of_session sid = filter (\<lambda>e. ev_session e = sid)"

text \<open>What a session still has in flight: the event being merged, then the channel.\<close>

definition working :: "worker \<Rightarrow> nat \<Rightarrow> EventRow list" where
  "working w q = (case w_loop w q of Some (_, Working e) \<Rightarrow> [e] | _ \<Rightarrow> [])"

definition in_flight :: "worker \<Rightarrow> string \<Rightarrow> EventRow list" where
  "in_flight w sid = (case w_sessions w sid of None \<Rightarrow> [] | Some q \<Rightarrow> working w q @ w_chan w q)"

definition owns :: "worker \<Rightarrow> bool" where
  "owns w \<longleftrightarrow> (\<forall>sid q. w_sessions w sid = Some q \<longleftrightarrow> (\<exists>l. w_loop w q = Some (sid, l)))"

definition worker_inv :: "nat \<Rightarrow> worker \<Rightarrow> bool" where
  "worker_inv cap w \<longleftrightarrow>
     owns w \<and> (\<forall>q l. w_loop w q = Some l \<longrightarrow> q < w_alloc w) \<and> (\<forall>q. length (w_chan w q) \<le> cap)
     \<and> (\<forall>q sid l. w_loop w q = Some (sid, l) \<longrightarrow> (\<forall>e \<in> set (working w q @ w_chan w q). ev_session e = sid))
     \<and> (\<not> w_cancelled w \<longrightarrow> (\<forall>sid. of_session sid (w_accepted w) = of_session sid (w_done w) @ in_flight w sid))"

lemma owns_loop: "owns w \<Longrightarrow> w_loop w q = Some (sid, l) \<Longrightarrow> w_sessions w sid = Some q"
  unfolding owns_def by blast

lemma owns_unique: "owns w \<Longrightarrow> w_loop w q = Some (sid, l) \<Longrightarrow> w_loop w q' = Some (sid, l') \<Longrightarrow> q = q'"
  using owns_loop by (metis option.inject)

lemma owns_other: "owns w \<Longrightarrow> w_loop w q = Some (sid, l) \<Longrightarrow> sid' \<noteq> sid \<Longrightarrow> w_sessions w sid' \<noteq> Some q"
  unfolding owns_def by auto

lemma in_flight_loop: "owns w \<Longrightarrow> w_loop w q = Some (sid, l) \<Longrightarrow> in_flight w sid = working w q @ w_chan w q"
  using owns_loop by (simp add: in_flight_def)

lemma of_session_append [simp]: "of_session sid (xs @ ys) = of_session sid xs @ of_session sid ys"
  by (simp add: of_session_def)

lemma of_session_single: "of_session sid [e] = (if ev_session e = sid then [e] else [])"
  by (simp add: of_session_def)

text \<open>A step that touches only the queue of one session.\<close>

lemma in_flight_frame:
  assumes "\<And>q'. w_sessions w' sid = Some q' \<Longrightarrow> w_chan w' q' = w_chan w q' \<and> w_loop w' q' = w_loop w q'"
    and "w_sessions w' sid = w_sessions w sid"
  shows "in_flight w' sid = in_flight w sid"
  using assms by (auto simp: in_flight_def working_def split: option.splits)

lemma bookkeeping_frame [simp]:
  "working (w\<lparr>w_backpressure := b\<rparr>) = working w" "in_flight (w\<lparr>w_backpressure := b\<rparr>) = in_flight w"
  "working (w\<lparr>w_cancelled := c\<rparr>) = working w" "in_flight (w\<lparr>w_cancelled := c\<rparr>) = in_flight w"
  by (simp_all add: fun_eq_iff working_def in_flight_def cong: option.case_cong)

lemma worker_invD:
  assumes "worker_inv cap w"
  shows "owns w" "w_loop w q = Some l \<Longrightarrow> q < w_alloc w" "length (w_chan w q) \<le> cap"
    "w_loop w q = Some (sid, l') \<Longrightarrow> e \<in> set (working w q @ w_chan w q) \<Longrightarrow> ev_session e = sid"
    "\<not> w_cancelled w \<Longrightarrow> of_session sid (w_accepted w) = of_session sid (w_done w) @ in_flight w sid"
  using assms unfolding worker_inv_def by blast+

lemma worker_invI:
  assumes "owns w" "\<And>q l. w_loop w q = Some l \<Longrightarrow> q < w_alloc w" "\<And>q. length (w_chan w q) \<le> cap"
    "\<And>q sid l' e. w_loop w q = Some (sid, l') \<Longrightarrow> e \<in> set (working w q @ w_chan w q) \<Longrightarrow> ev_session e = sid"
    "\<And>sid. \<not> w_cancelled w \<Longrightarrow> of_session sid (w_accepted w) = of_session sid (w_done w) @ in_flight w sid"
  shows "worker_inv cap w"
  using assms unfolding worker_inv_def by blast

lemma owns_keep_loop:
  assumes "owns w" "w_loop w q = Some (sid, l)" "w_sessions w' = w_sessions w" "w_loop w' = (w_loop w)(q \<mapsto> (sid, l'))"
  shows "owns w'"
  using assms unfolding owns_def by auto

lemma owns_leave:
  assumes "owns w" "w_loop w q = Some (sid, l)"
  shows "owns (leave q sid w)"
  unfolding owns_def
proof (intro allI)
  fix s r
  have o: "w_sessions w s = Some r \<longleftrightarrow> (\<exists>l. w_loop w r = Some (s, l))" using assms(1) unfolding owns_def by blast
  show "w_sessions (leave q sid w) s = Some r \<longleftrightarrow> (\<exists>l. w_loop (leave q sid w) r = Some (s, l))"
  proof (cases "s = sid")
    case True
    then have "w_loop w r = Some (s, l') \<Longrightarrow> r = q" for l' using owns_unique[OF assms, of r l'] by blast
    then have "r \<noteq> q \<Longrightarrow> w_loop w r \<noteq> Some (s, l')" for l' by blast
    with True show ?thesis by (cases "r = q") (simp_all add: leave_def)
  next
    case False
    then have "r = q \<Longrightarrow> w_sessions w s \<noteq> Some r" using owns_other[OF assms] by blast
    with False o show ?thesis by (cases "r = q") (simp_all add: leave_def)
  qed
qed

lemma inv_receive:
  assumes inv: "worker_inv cap w" and q: "w_loop w q = Some (sid, Waiting)" "w_chan w q = e # es"
  shows "worker_inv cap (receive q w)"
proof (rule worker_invI)
  note D = worker_invD[OF inv]
  let ?w = "receive q w"
  have w: "w_loop ?w = (w_loop w)(q \<mapsto> (sid, Working e))" "w_chan ?w = (w_chan w)(q := es)" "w_sessions ?w = w_sessions w"
    using q by (simp_all add: receive_def)
  show own: "owns ?w" by (rule owns_keep_loop[OF D(1) q(1) w(3,1)])
  show "w_loop ?w r = Some l \<Longrightarrow> r < w_alloc ?w" for r l
    using D(2)[of r] D(2)[OF q(1)] by (cases "r = q") (auto simp: w receive_def)
  show "length (w_chan ?w r) \<le> cap" for r using D(3)[of r] D(3)[of q] q(2) by (auto simp: w)
  show "ev_session e' = sid'" if "w_loop ?w r = Some (sid', l)" "e' \<in> set (working ?w r @ w_chan ?w r)" for r sid' l e'
  proof (cases "r = q")
    case True
    then show ?thesis using that D(4)[OF q(1), of e'] q by (auto simp: w working_def)
  next
    case False
    then show ?thesis using that D(4)[of r sid' l e'] by (simp add: w working_def)
  qed
  show "of_session s (w_accepted ?w) = of_session s (w_done ?w) @ in_flight ?w s" if "\<not> w_cancelled ?w" for s
  proof -
    have "in_flight ?w s = in_flight w s"
    proof (cases "s = sid")
      case True
      then show ?thesis using in_flight_loop[OF D(1) q(1)] in_flight_loop[OF own, of q sid] q
        by (simp add: w working_def)
    next
      case False
      then show ?thesis using owns_other[OF D(1) q(1)] by (intro in_flight_frame) (auto simp: w)
    qed
    then show ?thesis using D(5)[of s] that by (simp add: receive_def)
  qed
qed

lemma inv_processed:
  assumes inv: "worker_inv cap w" and q: "w_loop w q = Some (sid, Working e)"
  shows "worker_inv cap (processed q e w)"
proof (rule worker_invI)
  note D = worker_invD[OF inv]
  let ?w = "processed q e w"
  have w: "w_loop ?w = (w_loop w)(q \<mapsto> (sid, Waiting))" "w_chan ?w = w_chan w" "w_sessions ?w = w_sessions w"
    using q by (simp_all add: processed_def)
  have e: "ev_session e = sid" using D(4)[OF q, of e] q by (simp add: working_def)
  show own: "owns ?w" by (rule owns_keep_loop[OF D(1) q w(3,1)])
  show "w_loop ?w r = Some l \<Longrightarrow> r < w_alloc ?w" for r l
    using D(2)[of r] D(2)[OF q] by (cases "r = q") (auto simp: w processed_def)
  show "length (w_chan ?w r) \<le> cap" for r using D(3)[of r] by (simp add: w)
  show "ev_session e' = sid'" if "w_loop ?w r = Some (sid', l)" "e' \<in> set (working ?w r @ w_chan ?w r)" for r sid' l e'
    using that D(4)[OF q, of e'] D(4)[of r sid' l e'] by (cases "r = q") (auto simp: w working_def)
  show "of_session s (w_accepted ?w) = of_session s (w_done ?w) @ in_flight ?w s" if "\<not> w_cancelled ?w" for s
  proof (cases "s = sid")
    case True
    then show ?thesis
      using D(5)[of s] that in_flight_loop[OF D(1) q] in_flight_loop[OF own, of q sid] q e
      by (simp add: w working_def of_session_single) (simp add: processed_def of_session_single)
  next
    case False
    then have "in_flight ?w s = in_flight w s" using owns_other[OF D(1) q] by (intro in_flight_frame) (auto simp: w)
    then show ?thesis using D(5)[of s] that False e by (simp add: processed_def of_session_single)
  qed
qed

lemma inv_leave:
  assumes inv: "worker_inv cap w" and q: "w_loop w q = Some (sid, Waiting)" and ok: "w_cancelled w \<or> w_chan w q = []"
  shows "worker_inv cap (leave q sid w)"
proof (rule worker_invI)
  note D = worker_invD[OF inv]
  let ?w = "leave q sid w"
  have w: "w_loop ?w = (w_loop w)(q := None)" "w_chan ?w = w_chan w" "w_sessions ?w = (w_sessions w)(sid := None)"
    "w_accepted ?w = w_accepted w" "w_done ?w = w_done w" "w_cancelled ?w = w_cancelled w" "w_alloc ?w = w_alloc w"
    by (simp_all add: leave_def)
  show "owns ?w" by (rule owns_leave[OF D(1) q])
  show "w_loop ?w r = Some l \<Longrightarrow> r < w_alloc ?w" for r l using D(2)[of r] by (auto simp: w split: if_splits)
  show "length (w_chan ?w r) \<le> cap" for r using D(3)[of r] by (simp add: w)
  show "ev_session e' = sid'" if "w_loop ?w r = Some (sid', l)" "e' \<in> set (working ?w r @ w_chan ?w r)" for r sid' l e'
    using that D(4)[of r sid' l e'] by (auto simp: w working_def split: if_splits)
  show "of_session s (w_accepted ?w) = of_session s (w_done ?w) @ in_flight ?w s" if c: "\<not> w_cancelled ?w" for s
  proof (cases "s = sid")
    case True
    have "in_flight w sid = []" using in_flight_loop[OF D(1) q] q ok c by (simp add: w working_def)
    then show ?thesis using D(5)[of s] c True by (simp add: w in_flight_def[of ?w])
  next
    case False
    then have "in_flight ?w s = in_flight w s" using owns_other[OF D(1) q] by (intro in_flight_frame) (auto simp: w)
    then show ?thesis using D(5)[of s] c by (simp add: w)
  qed
qed

lemma inv_sessionQueue:
  assumes inv: "worker_inv cap w" and sq: "sessionQueue sid w = (q, w1)"
  shows "worker_inv cap w1" "\<exists>l. w_loop w1 q = Some (sid, l)"
proof -
  note D = worker_invD[OF inv]
  have "worker_inv cap w1 \<and> (\<exists>l. w_loop w1 q = Some (sid, l))"
  proof (cases "w_sessions w sid")
    case (Some q')
    then have "q' = q" "w1 = w" using sq by (simp_all add: sessionQueue_def)
    then show ?thesis using inv Some D(1) unfolding owns_def by blast
  next
    case None
    have w: "q = w_alloc w" "w_sessions w1 = (w_sessions w)(sid \<mapsto> q)" "w_chan w1 = (w_chan w)(q := [])"
      "w_loop w1 = (w_loop w)(q \<mapsto> (sid, Waiting))" "w_alloc w1 = Suc q" "w_cancelled w1 = w_cancelled w"
      "w_accepted w1 = w_accepted w" "w_done w1 = w_done w"
      using sq None by (auto simp: sessionQueue_def Let_def)
    have fresh: "w_loop w q = None" using D(2)[of q] w(1) by (cases "w_loop w q") auto
    have fresh_s: "w_sessions w s \<noteq> Some q" for s using D(1) fresh unfolding owns_def by auto
    have no: "w_loop w r \<noteq> Some (sid, l)" for r l using owns_loop[OF D(1), of r sid l] None by auto
    have "worker_inv cap w1"
    proof (rule worker_invI)
      show "owns w1"
        unfolding owns_def
      proof (intro allI)
        fix s r
        show "w_sessions w1 s = Some r \<longleftrightarrow> (\<exists>l. w_loop w1 r = Some (s, l))"
        proof (cases "r = q")
          case True
          then show ?thesis using fresh_s by (auto simp: w(2,4))
        next
          case False
          then show ?thesis using D(1) no unfolding owns_def by (cases "s = sid") (auto simp: w(2,4))
        qed
      qed
      show "w_loop w1 r = Some l \<Longrightarrow> r < w_alloc w1" for r l
        using D(2)[of r] w(1) by (auto simp: w(4,5) less_Suc_eq split: if_splits)
      show "length (w_chan w1 r) \<le> cap" for r using D(3)[of r] by (simp add: w(3))
      show "ev_session e = s" if "w_loop w1 r = Some (s, l)" "e \<in> set (working w1 r @ w_chan w1 r)" for r s l e
        using that D(4)[of r s l e] by (cases "r = q") (simp_all add: w(3,4) working_def)
      show "of_session s (w_accepted w1) = of_session s (w_done w1) @ in_flight w1 s" if "\<not> w_cancelled w1" for s
      proof -
        have "in_flight w1 s = in_flight w s"
          using fresh_s None by (cases "s = sid") (auto simp: in_flight_def working_def w(2-4) split: option.splits)
        then show ?thesis using D(5)[of s] that by (simp add: w(6-8))
      qed
    qed
    then show ?thesis by (simp add: w(4))
  qed
  then show "worker_inv cap w1" "\<exists>l. w_loop w1 q = Some (sid, l)" by blast+
qed

lemma inv_enqueue:
  assumes inv: "worker_inv cap w"
  shows "worker_inv cap (enqueue cap e w)"
proof -
  obtain q w1 where sq: "sessionQueue (ev_session e) w = (q, w1)" by (cases "sessionQueue (ev_session e) w")
  note inv1 = inv_sessionQueue(1)[OF inv sq] and D = worker_invD[OF inv_sessionQueue(1)[OF inv sq]]
  obtain l where l: "w_loop w1 q = Some (ev_session e, l)" using inv_sessionQueue(2)[OF inv sq] by blast
  show ?thesis
  proof (cases "length (w_chan w1 q) < cap")
    case False
    then have "enqueue cap e w = w1\<lparr>w_backpressure := w_backpressure w1 @ [e]\<rparr>" by (simp add: enqueue_def sq)
    then show ?thesis using inv1 by (simp add: worker_inv_def owns_def)
  next
    case True
    let ?w = "w1\<lparr>w_chan := (w_chan w1)(q := w_chan w1 q @ [e]), w_accepted := w_accepted w1 @ [e]\<rparr>"
    have "worker_inv cap ?w"
    proof (rule worker_invI)
      show own: "owns ?w" using D(1) by (simp add: owns_def)
      show "w_loop ?w r = Some l' \<Longrightarrow> r < w_alloc ?w" for r l' using D(2)[of r] by simp
      show "length (w_chan ?w r) \<le> cap" for r using D(3)[of r] True by simp
      show "ev_session e' = s" if "w_loop ?w r = Some (s, l')" "e' \<in> set (working ?w r @ w_chan ?w r)" for r s l' e'
        using that D(4)[of r s l' e'] l by (auto simp: working_def split: if_splits)
      show "of_session s (w_accepted ?w) = of_session s (w_done ?w) @ in_flight ?w s" if "\<not> w_cancelled ?w" for s
      proof (cases "s = ev_session e")
        case True
        then show ?thesis using D(5)[of s] that in_flight_loop[OF D(1) l] in_flight_loop[OF own, of q "ev_session e"] l
          by (simp add: of_session_single working_def)
      next
        case False
        then have "in_flight ?w s = in_flight w1 s" using owns_other[OF D(1) l] by (intro in_flight_frame) auto
        then show ?thesis using D(5)[of s] that False by (simp add: of_session_single)
      qed
    qed
    then show ?thesis using True by (simp add: enqueue_def sq)
  qed
qed

lemma inv_drain: "worker_inv cap w \<Longrightarrow> drain_step w w' \<Longrightarrow> worker_inv cap w'"
  by (erule drain_stepE)
     (auto simp: idleFires_def neq_Nil_conv intro: inv_receive inv_processed inv_leave)

lemma inv_worker_step: "worker_inv cap w \<Longrightarrow> worker_step cap w w' \<Longrightarrow> worker_inv cap w'"
proof (erule worker_step.cases)
  fix v assume "worker_inv cap w" "w = v" "w' = v\<lparr>w_cancelled := True\<rparr>"
  then show ?thesis by (simp add: worker_inv_def owns_def)
qed (auto simp: idleFires_def intro: inv_enqueue inv_drain inv_leave)

lemma inv_startWorker: "worker_inv cap startWorker"
  by (simp add: worker_inv_def startWorker_def owns_def of_session_def in_flight_def)

interpretation worker_sys: invariant_system "\<lambda>w. w = startWorker" "worker_step cap" "worker_inv cap" for cap
  by unfold_locales (auto intro: inv_worker_step inv_startWorker)

subsection \<open>Properties\<close>

text \<open>
  C10: No accepted event is lost or reordered, and merges of a session never overlap.  In every interleaving of
  arrivals, draining goroutines, idle timeouts and cancellation, at most one goroutine drains a
  session, its channel stays within the bound, and until the worker is cancelled the accepted
  events of a session are the processed ones, then the one being merged, then those in the channel
  of its live goroutine, in order.
\<close>
theorem worker_loses_nothing:
  assumes "reachable (\<lambda>w. w = startWorker) (worker_step cap) w"
  shows "(\<forall>q q' sid l l'. w_loop w q = Some (sid, l) \<longrightarrow> w_loop w q' = Some (sid, l') \<longrightarrow> q = q')
     \<and> (\<forall>q. length (w_chan w q) \<le> cap)
     \<and> (\<not> w_cancelled w \<longrightarrow> (\<forall>sid. of_session sid (w_accepted w) = of_session sid (w_done w) @ in_flight w sid))"
proof -
  note D = worker_invD[OF worker_sys.reachable_inv[OF assms]]
  show ?thesis using owns_unique[OF D(1)] D(3,5) by blast
qed

text \<open>The work left: two for a buffered event, and one or two for a goroutine that waits or works.\<close>

definition loop_work :: "(string \<times> loop_state) option \<Rightarrow> nat" where
  "loop_work l = (case l of None \<Rightarrow> 0 | Some (_, Waiting) \<Rightarrow> 1 | Some (_, Working _) \<Rightarrow> 2)"

definition work_left :: "worker \<Rightarrow> nat" where
  "work_left w = (\<Sum>q < w_alloc w. 2 * length (w_chan w q) + loop_work (w_loop w q))"

lemma sum_less_at:
  fixes f g :: "nat \<Rightarrow> nat"
  assumes "q < n" "f q < g q" "\<And>r. r \<noteq> q \<Longrightarrow> f r = g r"
  shows "(\<Sum>r < n. f r) < (\<Sum>r < n. g r)"
  using assms by (intro sum_strict_mono_ex1) (auto intro: eq_refl, metis le_less)

lemma drain_decreases:
  assumes "worker_inv cap w" "drain_step w w'"
  shows "work_left w' < work_left w"
  using assms(2)
proof (cases rule: drain_step.cases)
  case (recv_event q sid)
  then have "q < w_alloc w" using worker_invD(2)[OF assms(1)] by blast
  then show ?thesis using recv_event unfolding work_left_def
    by (auto simp: receive_def loop_work_def neq_Nil_conv intro!: sum_less_at[of q])
next
  case (process_event q sid e)
  then have "q < w_alloc w" using worker_invD(2)[OF assms(1)] by blast
  then show ?thesis using process_event unfolding work_left_def
    by (auto simp: processed_def loop_work_def intro!: sum_less_at[of q])
next
  case (idle_exit q sid)
  then have "q < w_alloc w" using worker_invD(2)[OF assms(1)] by blast
  then show ?thesis using idle_exit unfolding work_left_def
    by (auto simp: idleFires_def leave_def loop_work_def intro!: sum_less_at[of q])
qed

lemma drain_frame: "drain_step w w' \<Longrightarrow> w_accepted w' = w_accepted w \<and> w_cancelled w' = w_cancelled w"
  by (erule drain_stepE) (auto simp: receive_def processed_def idleFires_def leave_def)

lemma drain_progress:
  assumes "worker_inv cap w" "w_loop w q = Some (sid, l)"
  shows "\<exists>w'. drain_step w w'"
  using assms(2) by (cases l; cases "w_chan w q = []") (blast intro: drain_step.intros)+

lemma drained_done:
  assumes "worker_inv cap w" "\<not> w_cancelled w" "\<nexists>w'. drain_step w w'"
  shows "of_session sid (w_done w) = of_session sid (w_accepted w)"
proof -
  have "w_sessions w sid = None"
    using drain_progress[OF assms(1)] assms(3) worker_invD(1)[OF assms(1)] unfolding owns_def by (metis not_None_eq)
  then show ?thesis using worker_invD(5)[OF assms(1,2), of sid] by (simp add: in_flight_def)
qed

lemma drain_no_chain:
  assumes inv: "worker_inv cap w"
  shows "\<not> (\<exists>f. f 0 = w \<and> (\<forall>i. drain_step (f i) (f (Suc i))))"
proof (intro notI, elim exE conjE)
  fix f assume f: "f 0 = w" "\<forall>i. drain_step (f i) (f (Suc i))"
  have fi: "worker_inv cap (f i)" for i using inv f by (induction i) (auto intro: inv_drain)
  have "work_left (f i) + i \<le> work_left w" for i
  proof (induction i)
    case (Suc i)
    have "work_left (f (Suc i)) < work_left (f i)" by (rule drain_decreases[OF fi f(2)[rule_format]])
    with Suc show ?case by linarith
  qed (simp add: f)
  from this[of "Suc (work_left w)"] show False by simp
qed

lemma drain_closure:
  assumes "worker_inv cap w" "drain_step\<^sup>*\<^sup>* w w'"
  shows "worker_inv cap w' \<and> w_accepted w' = w_accepted w \<and> w_cancelled w' = w_cancelled w"
  using assms(2) by (induction rule: rtranclp_induct) (use assms(1) drain_frame inv_drain in auto)

text \<open>
  C11: Draining ends, and ends with all work done.  From every reachable state no infinite sequence of
  goroutine steps exists, and when no goroutine can step any more, as the last idle ones have gone,
  every event accepted before has been processed, in order.
\<close>
theorem worker_drains:
  assumes "reachable (\<lambda>w. w = startWorker) (worker_step cap) w" "\<not> w_cancelled w"
  shows "\<not> (\<exists>f. f 0 = w \<and> (\<forall>i. drain_step (f i) (f (Suc i))))
    \<and> (\<forall>w' sid. drain_step\<^sup>*\<^sup>* w w' \<longrightarrow> (\<nexists>w''. drain_step w' w'')
         \<longrightarrow> of_session sid (w_done w') = of_session sid (w_accepted w))"
proof -
  have inv: "worker_inv cap w" by (rule worker_sys.reachable_inv[OF assms(1)])
  have "of_session sid (w_done w') = of_session sid (w_accepted w)"
    if "drain_step\<^sup>*\<^sup>* w w'" "\<nexists>w''. drain_step w' w''" for w' sid
    using drained_done[of cap w' sid] drain_closure[OF inv that(1)] that(2) assms(2) by simp
  then show ?thesis using drain_no_chain[OF inv] by blast
qed

definition demo_event :: "string \<Rightarrow> EventRow" where
  "demo_event i = \<lparr>ev_id = i, ev_org = ''o'', ev_session = ''s'', ev_seq = 1, ev_type = ''commit.arrived'',
     ev_payload = ''{}'', ev_created_at = 0\<rparr>"

definition demo_worker :: worker where
  "demo_worker = receive 0 (enqueue 2 (demo_event ''b'') (enqueue 2 (demo_event ''a'') startWorker))"

lemma demo_worker_reachable: "reachable (\<lambda>w. w = startWorker) (worker_step 2) demo_worker"
proof -
  let ?w = "enqueue 2 (demo_event ''b'') (enqueue 2 (demo_event ''a'') startWorker)"
  have "reachable (\<lambda>w. w = startWorker) (worker_step 2) ?w"
    by (rule reach_step[OF reach_step[OF reach_init]]) (auto intro: worker_step.arrive)
  moreover have "drain_step ?w demo_worker" unfolding demo_worker_def
    by (rule recv_event[of _ _ "''s''"])
       (simp_all add: enqueue_def sessionQueue_def startWorker_def demo_event_def)
  ultimately show ?thesis by (blast intro: reach_step worker_step.drain)
qed

theorem worker_loses_nothing_witness:
  "length (w_chan demo_worker 0) \<le> 2
   \<and> of_session ''s'' (w_accepted demo_worker) = of_session ''s'' (w_done demo_worker) @ in_flight demo_worker ''s''
   \<and> in_flight demo_worker ''s'' = [demo_event ''a'', demo_event ''b''] \<and> w_done demo_worker = []"
proof -
  have d: "\<not> w_cancelled demo_worker" "w_done demo_worker = []" "in_flight demo_worker ''s'' = [demo_event ''a'', demo_event ''b'']"
    by (simp_all add: demo_worker_def receive_def enqueue_def sessionQueue_def startWorker_def demo_event_def
        in_flight_def working_def)
  then show ?thesis using worker_loses_nothing[OF demo_worker_reachable] by blast
qed

theorem worker_drains_witness:
  "\<not> (\<exists>f. f 0 = demo_worker \<and> (\<forall>i. drain_step (f i) (f (Suc i)))) \<and> length (w_accepted demo_worker) = 2"
proof -
  have "\<not> w_cancelled demo_worker" "length (w_accepted demo_worker) = 2"
    by (simp_all add: demo_worker_def receive_def enqueue_def sessionQueue_def startWorker_def demo_event_def)
  then show ?thesis using worker_drains[OF demo_worker_reachable] by blast
qed

end
