(* ===== verification/SingleUse.thy ===== *)
theory SingleUse
  imports Prelude
begin

text \<open>
  The contract of a one-time credential.  Steps carry a label that says which credential they issue
  or take; a credential is live between the two.  What the contract promises is proved once: in
  every run a credential is taken at most once for each time it is issued.
\<close>

inductive runs :: "('s \<Rightarrow> 'l \<Rightarrow> 's \<Rightarrow> bool) \<Rightarrow> 's \<Rightarrow> 'l list \<Rightarrow> 's \<Rightarrow> bool" for step where
  runs_refl: "runs step s [] s"
| runs_step: "step s l t \<Longrightarrow> runs step t ls u \<Longrightarrow> runs step s (l # ls) u"

lemma runs_append: "runs step s ls t \<Longrightarrow> runs step t ls' u \<Longrightarrow> runs step s (ls @ ls') u"
  by (induction rule: runs.induct) (auto intro: runs.intros)

lemma runs_single: "step s l t \<Longrightarrow> runs step s [l] t"
  by (blast intro: runs.intros)

lemma runs_invariant:
  assumes "runs step s ls t" "P s" "\<And>s l t. step s l t \<Longrightarrow> P s \<Longrightarrow> P t"
  shows "P t"
  using assms by (induction rule: runs.induct) blast+

definition occurrences :: "('l \<Rightarrow> 'k option) \<Rightarrow> 'k \<Rightarrow> 'l list \<Rightarrow> nat" where
  "occurrences f k ls = length (filter (\<lambda>l. f l = Some k) ls)"

lemma occurrences_simps [simp]: "occurrences f k [] = 0" "occurrences f k (l # ls) = (if f l = Some k then 1 else 0) + occurrences f k ls"
  by (simp_all add: occurrences_def)

locale single_use =
  fixes live :: "'s \<Rightarrow> 'k \<Rightarrow> bool"
    and step :: "'s \<Rightarrow> 'l \<Rightarrow> 's \<Rightarrow> bool"
    and issues :: "'l \<Rightarrow> 'k option"
    and takes :: "'l \<Rightarrow> 'k option"
  assumes take_live: "step s l t \<Longrightarrow> takes l = Some k \<Longrightarrow> live s k \<and> \<not> live t k"
    and keep_dead: "step s l t \<Longrightarrow> \<not> live s k \<Longrightarrow> issues l \<noteq> Some k \<Longrightarrow> \<not> live t k"
begin

lemma takes_bounded:
  assumes "runs step s ls t"
  shows "occurrences takes k ls + of_bool (live t k) \<le> occurrences issues k ls + of_bool (live s k)"
  using assms
proof (induction rule: runs.induct)
  case (runs_step s l t ls u)
  have "of_bool (takes l = Some k) + of_bool (live t k) \<le> of_bool (issues l = Some k) + (of_bool (live s k) :: nat)"
    using take_live[OF runs_step(1), of k] keep_dead[OF runs_step(1), of k] by auto
  with runs_step.IH show ?case by (auto simp: of_bool_def split: if_splits)
qed simp

lemma dead_stays_dead: "runs step s ls t \<Longrightarrow> \<not> live s k \<Longrightarrow> occurrences issues k ls = 0 \<Longrightarrow> \<not> live t k"
  using takes_bounded[of s ls t k] by (auto simp: of_bool_def)

lemma taken_stays_dead:
  assumes "step s l t" "takes l = Some k" "runs step t ls u" "occurrences issues k ls = 0"
  shows "\<not> live u k \<and> (\<forall>l' v. step u l' v \<longrightarrow> takes l' \<noteq> Some k)"
proof -
  have "\<not> live u k" using takes_bounded[OF assms(3), of k] take_live[OF assms(1,2)] assms(4) by (auto simp: of_bool_def)
  then show ?thesis using take_live by blast
qed

end

end
