(* ===== verification/AuthStore.thy ===== *)
theory AuthStore
  imports Store SingleUse
begin

text \<open>
  The tables of accounts and credentials (\<^verbatim>\<open>internal/db/store/sqlite_adapter.go\<close> over the account, organisation,
  token, magic-link, resume-token and OAuth-state queries), as an extension of the database of \<open>Store\<close>.
  Each adapter method is one statement.  All activity on the tables, by any number of concurrent
  requests, is a run of statements, so what holds of runs holds of every interleaving of handlers.
  A violated foreign key into a table that is not part of the model is a fault of the schedule.
\<close>

record OAuthToken =
  tk_id :: string
  tk_account :: string
  tk_hash :: string
  tk_kind :: string
  tk_session :: "string option"
  tk_issued_at :: time
  tk_expires_at :: time
  tk_last_used_at :: "time option"
  tk_revoked_at :: "time option"

record MagicLinkToken =
  ml_id :: string
  ml_hash :: string
  ml_email :: string
  ml_issued_at :: time
  ml_expires_at :: time
  ml_used_at :: "time option"

record ResumeToken =
  rt_id :: string
  rt_hash :: string
  rt_session :: string
  rt_org :: string
  rt_account :: string
  rt_issued_at :: time
  rt_expires_at :: time
  rt_used_at :: "time option"

record OAuthState =
  os_nonce :: string
  os_provider :: string
  os_redirect_uri :: string
  os_created_at :: time
  os_expires_at :: time

record Org =
  o_id :: string
  o_name :: string
  o_slug :: string
  o_created_at :: time

record adb = db +
  ad_tokens :: "OAuthToken list"
  ad_magic :: "MagicLinkToken list"
  ad_resume :: "ResumeToken list"
  ad_states :: "OAuthState list"
  ad_orgs :: "Org list"

definition empty_adb :: adb where
  "empty_adb = \<lparr>d_sessions = Map.empty, d_org_members = [], d_session_members = [], d_accounts = [], d_locks = [],
     d_event_seq = Map.empty, d_events = [], d_presence = Map.empty,
     ad_tokens = [], ad_magic = [], ad_resume = [], ad_states = [], ad_orgs = []\<rparr>"

text \<open>The first row that satisfies a condition, as a \<^verbatim>\<open>:one\<close> query returns it.\<close>

definition one_row :: "('r \<Rightarrow> bool) \<Rightarrow> 'r list \<Rightarrow> store_error + 'r" where
  "one_row P rows = (case find P rows of Some r \<Rightarrow> Inr r | None \<Rightarrow> Inl ErrNotFound)"

definition update_rows :: "('r \<Rightarrow> bool) \<Rightarrow> ('r \<Rightarrow> 'r) \<Rightarrow> 'r list \<Rightarrow> 'r list" where
  "update_rows P f = map (\<lambda>r. if P r then f r else r)"

subsection \<open>OAuth tokens\<close>

definition CreateOAuthToken :: "OAuthToken \<Rightarrow> adb \<Rightarrow> store_error + adb" where
  "CreateOAuthToken t d =
     (if tk_kind t \<notin> {''access'', ''refresh'', ''anonymous_session_bearer''} then Inl ErrOther
      else if tk_id t \<in> tk_id ` set (ad_tokens d) \<or> tk_hash t \<in> tk_hash ` set (ad_tokens d) then Inl ErrUniqueViolation
      else if tk_account t \<notin> a_id ` set (d_accounts d) then Inl ErrOther
      else Inr (d\<lparr>ad_tokens := ad_tokens d @ [t]\<rparr>))"

definition CreateAnonymousBearer ::
  "string \<Rightarrow> string \<Rightarrow> string \<Rightarrow> string \<Rightarrow> time \<Rightarrow> time \<Rightarrow> adb \<Rightarrow> store_error + adb"
where
  "CreateAnonymousBearer i acc h sid issued expires d =
     (if d_sessions d sid = None then Inl ErrOther
      else CreateOAuthToken \<lparr>tk_id = i, tk_account = acc, tk_hash = h, tk_kind = ''anonymous_session_bearer'',
             tk_session = Some sid, tk_issued_at = issued, tk_expires_at = expires, tk_last_used_at = None,
             tk_revoked_at = None\<rparr> d)"

definition GetOAuthTokenByHash :: "adb \<Rightarrow> string \<Rightarrow> store_error + OAuthToken" where
  "GetOAuthTokenByHash d h = one_row (\<lambda>t. tk_hash t = h) (ad_tokens d)"

definition TouchOAuthTokenLastUsed :: "string \<Rightarrow> time \<Rightarrow> adb \<Rightarrow> store_error + adb" where
  "TouchOAuthTokenLastUsed i at d =
     Inr (d\<lparr>ad_tokens := update_rows (\<lambda>t. tk_id t = i) (tk_last_used_at_update (\<lambda>_. Some at)) (ad_tokens d)\<rparr>)"

definition RevokeOAuthToken :: "string \<Rightarrow> time \<Rightarrow> adb \<Rightarrow> store_error + adb" where
  "RevokeOAuthToken i at d =
     Inr (d\<lparr>ad_tokens := update_rows (\<lambda>t. tk_id t = i) (tk_revoked_at_update (\<lambda>_. Some at)) (ad_tokens d)\<rparr>)"

definition RevokeAllOAuthTokensForAccount :: "string \<Rightarrow> time \<Rightarrow> adb \<Rightarrow> store_error + adb" where
  "RevokeAllOAuthTokensForAccount acc at d =
     Inr (d\<lparr>ad_tokens := update_rows (\<lambda>t. tk_account t = acc \<and> tk_revoked_at t = None)
                          (tk_revoked_at_update (\<lambda>_. Some at)) (ad_tokens d)\<rparr>)"

definition RevokeBearersForSession :: "string \<Rightarrow> time \<Rightarrow> adb \<Rightarrow> store_error + adb" where
  "RevokeBearersForSession sid at d =
     Inr (d\<lparr>ad_tokens := update_rows (\<lambda>t. tk_session t = Some sid \<and> tk_revoked_at t = None)
                          (tk_revoked_at_update (\<lambda>_. Some at)) (ad_tokens d)\<rparr>)"

subsection \<open>Accounts and organisations\<close>

definition insertAccount :: "Account \<Rightarrow> adb \<Rightarrow> store_error + adb" where
  "insertAccount a d =
     (if a_id a \<in> a_id ` set (d_accounts d) \<or> a_email a \<in> a_email ` set (d_accounts d) then Inl ErrUniqueViolation
      else Inr (d\<lparr>d_accounts := d_accounts d @ [a]\<rparr>))"

definition CreateAccount :: "string \<Rightarrow> string \<Rightarrow> string \<Rightarrow> string option \<Rightarrow> time \<Rightarrow> adb \<Rightarrow> store_error + (Account \<times> adb)" where
  "CreateAccount i email name gh at d =
     (let a = \<lparr>a_id = i, a_email = email, a_display_name = name, a_github_user_id = gh, a_created_at = at, a_is_anonymous = False\<rparr> in
      case insertAccount a d of Inl e \<Rightarrow> Inl e | Inr d' \<Rightarrow> Inr (a, d'))"

definition CreateAnonymousAccount :: "string \<Rightarrow> string \<Rightarrow> string \<Rightarrow> time \<Rightarrow> adb \<Rightarrow> store_error + adb" where
  "CreateAnonymousAccount i email name at d =
     insertAccount \<lparr>a_id = i, a_email = email, a_display_name = name, a_github_user_id = None, a_created_at = at,
       a_is_anonymous = True\<rparr> d"

definition GetAccountByID :: "adb \<Rightarrow> string \<Rightarrow> store_error + Account" where
  "GetAccountByID d i = one_row (\<lambda>a. a_id a = i) (d_accounts d)"

definition GetAccountByGitHubUserID :: "adb \<Rightarrow> string \<Rightarrow> store_error + Account" where
  "GetAccountByGitHubUserID d gh = one_row (\<lambda>a. a_github_user_id a = Some gh) (d_accounts d)"

text \<open>Deleting accounts cascades to every table whose rows belong to an account.\<close>

definition DeleteAccountsByIDs :: "string list \<Rightarrow> adb \<Rightarrow> store_error + adb" where
  "DeleteAccountsByIDs ids d =
     Inr (if ids = [] then d
          else d\<lparr>d_accounts := filter (\<lambda>a. a_id a \<notin> set ids) (d_accounts d),
                 d_org_members := filter (\<lambda>m. snd m \<notin> set ids) (d_org_members d),
                 d_session_members := filter (\<lambda>m. sm_account m \<notin> set ids) (d_session_members d),
                 d_presence := (\<lambda>k. case d_presence d k of
                                  Some p \<Rightarrow> if pr_account p \<in> set ids then None else Some p
                                | None \<Rightarrow> None),
                 ad_tokens := filter (\<lambda>t. tk_account t \<notin> set ids) (ad_tokens d),
                 ad_resume := filter (\<lambda>t. rt_account t \<notin> set ids) (ad_resume d)\<rparr>)"

definition CreateOrg :: "Org \<Rightarrow> adb \<Rightarrow> store_error + adb" where
  "CreateOrg r d =
     (if o_id r \<in> o_id ` set (ad_orgs d) \<or> o_slug r \<in> o_slug ` set (ad_orgs d) then Inl ErrUniqueViolation
      else Inr (d\<lparr>ad_orgs := ad_orgs d @ [r]\<rparr>))"

definition AddOrgMember :: "string \<Rightarrow> string \<Rightarrow> adb \<Rightarrow> store_error + adb" where
  "AddOrgMember org acc d =
     (if (org, acc) \<in> set (d_org_members d) then Inl ErrUniqueViolation
      else if org \<notin> o_id ` set (ad_orgs d) \<or> acc \<notin> a_id ` set (d_accounts d) then Inl ErrOther
      else Inr (d\<lparr>d_org_members := d_org_members d @ [(org, acc)]\<rparr>))"

definition ListOrgsForAccount :: "adb \<Rightarrow> string \<Rightarrow> store_error + Org list" where
  "ListOrgsForAccount d acc =
     Inr (sort_key o_created_at (filter (\<lambda>r. (o_id r, acc) \<in> set (d_org_members d)) (ad_orgs d)))"

subsection \<open>One-time credentials\<close>

definition CreateMagicLinkToken :: "MagicLinkToken \<Rightarrow> adb \<Rightarrow> store_error + adb" where
  "CreateMagicLinkToken t d =
     (if ml_id t \<in> ml_id ` set (ad_magic d) \<or> ml_hash t \<in> ml_hash ` set (ad_magic d) then Inl ErrUniqueViolation
      else Inr (d\<lparr>ad_magic := ad_magic d @ [t]\<rparr>))"

definition GetMagicLinkTokenByHash :: "adb \<Rightarrow> string \<Rightarrow> store_error + MagicLinkToken" where
  "GetMagicLinkTokenByHash d h = one_row (\<lambda>t. ml_hash t = h) (ad_magic d)"

text \<open>The number of rows changed, and the database.\<close>

definition ConsumeMagicLinkToken :: "string \<Rightarrow> time \<Rightarrow> adb \<Rightarrow> store_error + (nat \<times> adb)" where
  "ConsumeMagicLinkToken i at d =
     (let w = (\<lambda>t. ml_id t = i \<and> ml_used_at t = None) in
      Inr (length (filter w (ad_magic d)),
           d\<lparr>ad_magic := update_rows w (ml_used_at_update (\<lambda>_. Some at)) (ad_magic d)\<rparr>))"

definition CreateResumeToken :: "ResumeToken \<Rightarrow> adb \<Rightarrow> store_error + adb" where
  "CreateResumeToken t d =
     (if rt_id t \<in> rt_id ` set (ad_resume d) \<or> rt_hash t \<in> rt_hash ` set (ad_resume d) then Inl ErrUniqueViolation
      else if rt_account t \<notin> a_id ` set (d_accounts d) \<or> d_sessions d (rt_session t) = None then Inl ErrOther
      else Inr (d\<lparr>ad_resume := ad_resume d @ [t]\<rparr>))"

definition ConsumeResumeToken :: "string \<Rightarrow> time \<Rightarrow> adb \<Rightarrow> store_error + (ResumeToken \<times> adb)" where
  "ConsumeResumeToken h at d =
     (let w = (\<lambda>t. rt_hash t = h \<and> rt_used_at t = None \<and> at < rt_expires_at t) in
      case find w (ad_resume d) of
        None \<Rightarrow> Inl ErrNotFound
      | Some t \<Rightarrow> Inr (t\<lparr>rt_used_at := Some at\<rparr>,
                       d\<lparr>ad_resume := update_rows w (rt_used_at_update (\<lambda>_. Some at)) (ad_resume d)\<rparr>))"

definition InsertOAuthState :: "OAuthState \<Rightarrow> adb \<Rightarrow> store_error + adb" where
  "InsertOAuthState s d =
     (if os_nonce s \<in> os_nonce ` set (ad_states d) then Inl ErrUniqueViolation
      else Inr (d\<lparr>ad_states := ad_states d @ [s]\<rparr>))"

definition ConsumeOAuthState :: "string \<Rightarrow> adb \<Rightarrow> store_error + (OAuthState \<times> adb)" where
  "ConsumeOAuthState n d =
     (case find (\<lambda>s. os_nonce s = n) (ad_states d) of
        None \<Rightarrow> Inl ErrNotFound
      | Some s \<Rightarrow> Inr (s, d\<lparr>ad_states := filter (\<lambda>s. os_nonce s \<noteq> n) (ad_states d)\<rparr>))"

definition CleanupExpiredOAuthState :: "time \<Rightarrow> adb \<Rightarrow> store_error + adb" where
  "CleanupExpiredOAuthState before d = Inr (d\<lparr>ad_states := filter (\<lambda>s. \<not> os_expires_at s < before) (ad_states d)\<rparr>)"

subsection \<open>Runs of statements\<close>

datatype cred = Bearer string | Link string | Resume string | Nonce string

datatype audit = Issued cred | Taken cred | Silent

fun issued :: "audit \<Rightarrow> cred option" where
  "issued (Issued k) = Some k"
| "issued _ = None"

fun taken :: "audit \<Rightarrow> cred option" where
  "taken (Taken k) = Some k"
| "taken _ = None"

text \<open>
  One statement.  The last rule stands for the statements of the other components: they change the
  other tables, and remove rows here only through the cascade of a deleted session or organisation.
\<close>

inductive stmt :: "adb \<Rightarrow> audit \<Rightarrow> adb \<Rightarrow> bool" where
  create_token: "CreateOAuthToken t d = Inr d' \<Longrightarrow> stmt d (Issued (Bearer (tk_hash t))) d'"
| touch: "TouchOAuthTokenLastUsed i at d = Inr d' \<Longrightarrow> stmt d Silent d'"
| revoke: "RevokeOAuthToken i at d = Inr d' \<Longrightarrow> stmt d Silent d'"
| revoke_all: "RevokeAllOAuthTokensForAccount acc at d = Inr d' \<Longrightarrow> stmt d Silent d'"
| revoke_session: "RevokeBearersForSession sid at d = Inr d' \<Longrightarrow> stmt d Silent d'"
| create_account: "insertAccount a d = Inr d' \<Longrightarrow> stmt d Silent d'"
| delete_accounts: "DeleteAccountsByIDs ids d = Inr d' \<Longrightarrow> stmt d Silent d'"
| create_org: "CreateOrg r d = Inr d' \<Longrightarrow> stmt d Silent d'"
| add_member: "AddOrgMember org acc d = Inr d' \<Longrightarrow> stmt d Silent d'"
| create_link: "CreateMagicLinkToken m d = Inr d' \<Longrightarrow> ml_used_at m = None \<Longrightarrow> stmt d (Issued (Link (ml_id m))) d'"
| consume_link: "ConsumeMagicLinkToken i at d = Inr (n, d') \<Longrightarrow> stmt d (if n = 0 then Silent else Taken (Link i)) d'"
| create_resume: "CreateResumeToken r d = Inr d' \<Longrightarrow> stmt d (Issued (Resume (rt_hash r))) d'"
| consume_resume: "ConsumeResumeToken h at d = Inr (r, d') \<Longrightarrow> stmt d (Taken (Resume h)) d'"
| insert_state: "InsertOAuthState s d = Inr d' \<Longrightarrow> stmt d (Issued (Nonce (os_nonce s))) d'"
| consume_state: "ConsumeOAuthState n d = Inr (s, d') \<Longrightarrow> stmt d (Taken (Nonce n)) d'"
| cleanup_states: "CleanupExpiredOAuthState before d = Inr d' \<Longrightarrow> stmt d Silent d'"
| elsewhere: "d_accounts d' = d_accounts d \<Longrightarrow> ad_orgs d' = ad_orgs d \<Longrightarrow> ad_magic d' = ad_magic d \<Longrightarrow> ad_states d' = ad_states d
    \<Longrightarrow> ad_tokens d' = filter P (ad_tokens d) \<Longrightarrow> ad_resume d' = filter Q (ad_resume d)
    \<Longrightarrow> d_org_members d' = filter R (d_org_members d) \<Longrightarrow> stmt d Silent d'"

lemmas stmt_defs =
  CreateOAuthToken_def TouchOAuthTokenLastUsed_def RevokeOAuthToken_def RevokeAllOAuthTokensForAccount_def
  RevokeBearersForSession_def insertAccount_def DeleteAccountsByIDs_def CreateOrg_def AddOrgMember_def
  CreateMagicLinkToken_def ConsumeMagicLinkToken_def CreateResumeToken_def ConsumeResumeToken_def
  InsertOAuthState_def ConsumeOAuthState_def CleanupExpiredOAuthState_def

lemma set_update_rows: "set (update_rows P f rs) = (\<lambda>r. if P r then f r else r) ` set rs"
  by (simp add: update_rows_def)

lemma map_update_rows [simp]: "(\<And>r. k (f r) = k r) \<Longrightarrow> map k (update_rows P f rs) = map k rs"
  by (auto simp: update_rows_def)

subsection \<open>Well-formed tables\<close>

text \<open>Unique keys, and references into a set of keys.\<close>

definition keyed :: "('r \<Rightarrow> 'k) \<Rightarrow> 'r list \<Rightarrow> bool" where
  "keyed k rs \<longleftrightarrow> distinct (map k rs)"

definition refers :: "('r \<Rightarrow> 'k) \<Rightarrow> 'r list \<Rightarrow> 'k set \<Rightarrow> bool" where
  "refers k rs S \<longleftrightarrow> set (map k rs) \<subseteq> S"

lemma keyed_simps [simp]:
  "keyed k []" "keyed k (rs @ [r]) \<longleftrightarrow> keyed k rs \<and> k r \<notin> k ` set rs"
  "(\<And>r. k (f r) = k r) \<Longrightarrow> keyed k (update_rows P f rs) = keyed k rs"
  by (auto simp: keyed_def)

lemma keyed_filter [simp]: "keyed k rs \<Longrightarrow> keyed k (filter P rs)"
  by (simp add: keyed_def distinct_map_filter)

lemma refers_simps [simp]:
  "refers k [] S" "refers k (rs @ [r]) S \<longleftrightarrow> refers k rs S \<and> k r \<in> S"
  "(\<And>r. k (f r) = k r) \<Longrightarrow> refers k (update_rows P f rs) S = refers k rs S"
  by (auto simp: refers_def simp del: set_map)

lemma refers_filter [simp]: "refers k rs S \<Longrightarrow> refers k (filter P rs) S"
  and refers_insert [simp]: "refers k rs S \<Longrightarrow> refers k rs (insert x S)"
  and refers_removed [simp]: "refers k rs S \<Longrightarrow> refers k (filter (\<lambda>r. k r \<notin> X) rs) (S - X)"
  and keys_removed [simp]: "k ` {r \<in> set rs. k r \<notin> X} = k ` set rs - X"
  by (auto simp: refers_def)

abbreviation account_ids :: "adb \<Rightarrow> string set" where
  "account_ids d \<equiv> a_id ` set (d_accounts d)"

definition accounts_wf :: "adb \<Rightarrow> bool" where
  "accounts_wf d \<longleftrightarrow> keyed a_id (d_accounts d) \<and> keyed a_email (d_accounts d)"

definition tokens_wf :: "adb \<Rightarrow> bool" where
  "tokens_wf d \<longleftrightarrow> keyed tk_id (ad_tokens d) \<and> keyed tk_hash (ad_tokens d) \<and> refers tk_account (ad_tokens d) (account_ids d)
     \<and> refers tk_kind (ad_tokens d) {''access'', ''refresh'', ''anonymous_session_bearer''}"

definition creds_wf :: "adb \<Rightarrow> bool" where
  "creds_wf d \<longleftrightarrow> keyed ml_id (ad_magic d) \<and> keyed ml_hash (ad_magic d) \<and> keyed rt_hash (ad_resume d)
     \<and> refers rt_account (ad_resume d) (account_ids d) \<and> keyed os_nonce (ad_states d)"

definition orgs_wf :: "adb \<Rightarrow> bool" where
  "orgs_wf d \<longleftrightarrow> keyed o_id (ad_orgs d) \<and> keyed o_slug (ad_orgs d) \<and> distinct (d_org_members d)
     \<and> refers fst (d_org_members d) (o_id ` set (ad_orgs d)) \<and> refers snd (d_org_members d) (account_ids d)"

definition auth_wf :: "adb \<Rightarrow> bool" where
  "auth_wf d \<longleftrightarrow> accounts_wf d \<and> tokens_wf d \<and> creds_wf d \<and> orgs_wf d"

lemma stmt_accounts_wf: "stmt d l d' \<Longrightarrow> accounts_wf d \<Longrightarrow> accounts_wf d'"
  by (erule stmt.cases) (auto simp: accounts_wf_def stmt_defs Let_def split: if_splits option.splits)

lemma stmt_tokens_wf: "stmt d l d' \<Longrightarrow> tokens_wf d \<Longrightarrow> tokens_wf d'"
  by (erule stmt.cases) (auto simp: tokens_wf_def stmt_defs Let_def split: if_splits option.splits)

lemma stmt_creds_wf: "stmt d l d' \<Longrightarrow> creds_wf d \<Longrightarrow> creds_wf d'"
  by (erule stmt.cases) (auto simp: creds_wf_def stmt_defs Let_def split: if_splits option.splits)

lemma stmt_orgs_wf: "stmt d l d' \<Longrightarrow> orgs_wf d \<Longrightarrow> orgs_wf d'"
  by (erule stmt.cases) (auto simp: orgs_wf_def stmt_defs Let_def split: if_splits option.splits)

lemma stmt_wf: "stmt d l d' \<Longrightarrow> auth_wf d \<Longrightarrow> auth_wf d'"
  unfolding auth_wf_def using stmt_accounts_wf stmt_tokens_wf stmt_creds_wf stmt_orgs_wf by blast

lemma runs_wf: "runs stmt d ls d' \<Longrightarrow> auth_wf d \<Longrightarrow> auth_wf d'"
  using runs_invariant[of stmt d ls d' auth_wf] stmt_wf by blast

lemma empty_adb_wf: "auth_wf empty_adb"
  by (simp add: auth_wf_def accounts_wf_def tokens_wf_def creds_wf_def orgs_wf_def empty_adb_def)

interpretation auth_sys: invariant_system "\<lambda>d. d = empty_adb" "\<lambda>d d'. \<exists>l. stmt d l d'" auth_wf
  by unfold_locales (use stmt_wf empty_adb_wf in blast)+

subsection \<open>Credentials are taken once\<close>

text \<open>Every row with the key is used up.\<close>

definition spent :: "('r \<Rightarrow> string) \<Rightarrow> ('r \<Rightarrow> time option) \<Rightarrow> string \<Rightarrow> 'r list \<Rightarrow> bool" where
  "spent k u x rs \<longleftrightarrow> (\<forall>r \<in> set rs. k r = x \<longrightarrow> u r \<noteq> None)"

lemma spent_simps [simp]:
  "spent k u x (rs @ [r]) \<longleftrightarrow> spent k u x rs \<and> (k r = x \<longrightarrow> u r \<noteq> None)"
  "spent k u x rs \<Longrightarrow> spent k u x (filter P rs)"
  by (auto simp: spent_def)

lemma spent_update [simp]:
  assumes "\<And>r. k (f r) = k r" "\<And>r. u r \<noteq> None \<Longrightarrow> u (f r) \<noteq> None" "spent k u x rs"
  shows "spent k u x (update_rows P f rs)"
  unfolding spent_def set_update_rows
proof (intro ballI impI)
  fix r assume "r \<in> (\<lambda>r. if P r then f r else r) ` set rs" "k r = x"
  then obtain r0 where "r0 \<in> set rs" "r = (if P r0 then f r0 else r0)" "k r0 = x" using assms(1) by (auto split: if_splits)
  then show "u r \<noteq> None" using assms(2)[of r0] assms(3) by (simp add: spent_def)
qed

fun live :: "adb \<Rightarrow> cred \<Rightarrow> bool" where
  "live d (Bearer h) \<longleftrightarrow> \<not> spent tk_hash tk_revoked_at h (ad_tokens d)"
| "live d (Link i) \<longleftrightarrow> \<not> spent ml_id ml_used_at i (ad_magic d)"
| "live d (Resume h) \<longleftrightarrow> \<not> spent rt_hash rt_used_at h (ad_resume d)"
| "live d (Nonce n) \<longleftrightarrow> n \<in> os_nonce ` set (ad_states d)"

lemma stmt_keep_tokens:
  "stmt d l d' \<Longrightarrow> spent tk_hash tk_revoked_at x (ad_tokens d) \<Longrightarrow> issued l \<noteq> Some (Bearer x) \<Longrightarrow> spent tk_hash tk_revoked_at x (ad_tokens d')"
  by (erule stmt.cases) (auto simp: stmt_defs Let_def split: if_splits option.splits)

lemma stmt_keep_links:
  "stmt d l d' \<Longrightarrow> spent ml_id ml_used_at x (ad_magic d) \<Longrightarrow> issued l \<noteq> Some (Link x) \<Longrightarrow> spent ml_id ml_used_at x (ad_magic d')"
  by (erule stmt.cases) (auto simp: stmt_defs Let_def split: if_splits option.splits)

lemma stmt_keep_resumes:
  "stmt d l d' \<Longrightarrow> spent rt_hash rt_used_at x (ad_resume d) \<Longrightarrow> issued l \<noteq> Some (Resume x) \<Longrightarrow> spent rt_hash rt_used_at x (ad_resume d')"
  by (erule stmt.cases) (auto simp: stmt_defs Let_def split: if_splits option.splits)

lemma stmt_keep_states:
  "stmt d l d' \<Longrightarrow> x \<notin> os_nonce ` set (ad_states d) \<Longrightarrow> issued l \<noteq> Some (Nonce x) \<Longrightarrow> x \<notin> os_nonce ` set (ad_states d')"
  by (erule stmt.cases) (auto simp: stmt_defs Let_def split: if_splits option.splits)

lemma stmt_keep_dead: "stmt d l d' \<Longrightarrow> \<not> live d k \<Longrightarrow> issued l \<noteq> Some k \<Longrightarrow> \<not> live d' k"
  by (cases k) (auto dest: stmt_keep_tokens stmt_keep_links stmt_keep_resumes stmt_keep_states)

text \<open>A statement on well-formed tables.\<close>

definition wstmt :: "adb \<Rightarrow> audit \<Rightarrow> adb \<Rightarrow> bool" where
  "wstmt d l d' \<longleftrightarrow> auth_wf d \<and> stmt d l d'"

lemma runs_wstmt: "runs stmt d ls d' \<Longrightarrow> auth_wf d \<Longrightarrow> runs wstmt d ls d'"
proof (induction rule: runs.induct)
  case (runs_step s l t ls u)
  have "wstmt s l t" using runs_step.prems runs_step.hyps(1) by (simp add: wstmt_def)
  then show ?case by (rule runs.runs_step) (rule runs_step.IH[OF stmt_wf[OF runs_step.hyps(1) runs_step.prems]])
qed (simp add: runs_refl)

lemma keyed_inj: "keyed k rs \<Longrightarrow> r \<in> set rs \<Longrightarrow> r' \<in> set rs \<Longrightarrow> k r = k r' \<Longrightarrow> r = r'"
  unfolding keyed_def distinct_map inj_on_def by blast

lemma spent_after_update:
  "spent k u x (update_rows (\<lambda>r. k r = x \<and> u r = None) f rs)" if "\<And>r. k (f r) = k r" "\<And>r. u (f r) \<noteq> None"
  using that by (auto simp: spent_def set_update_rows)

lemma not_spentI: "r \<in> set rs \<Longrightarrow> k r = x \<Longrightarrow> u r = None \<Longrightarrow> \<not> spent k u x rs"
  by (auto simp: spent_def)

lemma ConsumeMagicLinkTokenD:
  assumes "ConsumeMagicLinkToken i at d = Inr (n, d')"
  shows "n = length (filter (\<lambda>t. ml_id t = i \<and> ml_used_at t = None) (ad_magic d))"
    and "d' = d\<lparr>ad_magic := update_rows (\<lambda>t. ml_id t = i \<and> ml_used_at t = None) (ml_used_at_update (\<lambda>_. Some at)) (ad_magic d)\<rparr>"
  using assms by (simp_all add: ConsumeMagicLinkToken_def Let_def)

lemma consume_link_takes:
  assumes "ConsumeMagicLinkToken i at d = Inr (n, d')" "n \<noteq> 0"
  shows "live d (Link i) \<and> \<not> live d' (Link i)"
proof
  note D = ConsumeMagicLinkTokenD[OF assms(1)]
  obtain t where "t \<in> set (ad_magic d)" "ml_id t = i" "ml_used_at t = None"
    using D(1) assms(2) length_0_conv[of "filter (\<lambda>t. ml_id t = i \<and> ml_used_at t = None) (ad_magic d)"]
    unfolding filter_empty_conv by blast
  then show "live d (Link i)" by (simp add: not_spentI)
  show "\<not> live d' (Link i)" unfolding D(2) by (simp add: spent_after_update)
qed

lemma ConsumeResumeTokenD:
  assumes "ConsumeResumeToken h at d = Inr (r, d')"
  shows "\<exists>t \<in> set (ad_resume d). rt_hash t = h \<and> rt_used_at t = None \<and> at < rt_expires_at t \<and> r = t\<lparr>rt_used_at := Some at\<rparr>"
    and "d' = d\<lparr>ad_resume := update_rows (\<lambda>t. rt_hash t = h \<and> rt_used_at t = None \<and> at < rt_expires_at t)
           (rt_used_at_update (\<lambda>_. Some at)) (ad_resume d)\<rparr>"
  using assms by (auto simp: ConsumeResumeToken_def Let_def dest!: find_Some_iff' split: option.splits)

lemma consume_resume_takes:
  assumes "auth_wf d" "ConsumeResumeToken h at d = Inr (r, d')"
  shows "live d (Resume h) \<and> \<not> live d' (Resume h)"
proof
  obtain t where t: "t \<in> set (ad_resume d)" "rt_hash t = h" "rt_used_at t = None" "at < rt_expires_at t"
    using ConsumeResumeTokenD(1)[OF assms(2)] by blast
  then show "live d (Resume h)" by (simp add: not_spentI)
  have "t' = t" if "t' \<in> set (ad_resume d)" "rt_hash t' = h" for t'
    using keyed_inj[of rt_hash "ad_resume d" t' t] assms(1) t that by (simp add: auth_wf_def creds_wf_def)
  then have "update_rows (\<lambda>t. rt_hash t = h \<and> rt_used_at t = None \<and> at < rt_expires_at t) f (ad_resume d) =
      update_rows (\<lambda>t. rt_hash t = h \<and> rt_used_at t = None) f (ad_resume d)" for f
    using t(4) unfolding update_rows_def by (intro map_cong) metis+
  then show "\<not> live d' (Resume h)" unfolding ConsumeResumeTokenD(2)[OF assms(2)] by (simp add: spent_after_update)
qed

lemma consume_state_takes:
  assumes "ConsumeOAuthState n d = Inr (s, d')"
  shows "live d (Nonce n) \<and> \<not> live d' (Nonce n)"
proof -
  have "s \<in> set (ad_states d) \<and> os_nonce s = n" "ad_states d' = filter (\<lambda>s. os_nonce s \<noteq> n) (ad_states d)"
    using assms by (auto simp: ConsumeOAuthState_def dest: find_Some_iff' split: option.splits)
  then show ?thesis by auto
qed

lemma stmt_take_live:
  assumes "wstmt d l d'" "taken l = Some k"
  shows "live d k \<and> \<not> live d' k"
proof -
  have wf: "auth_wf d" and st: "stmt d l d'" using assms(1) by (simp_all add: wstmt_def)
  from st show ?thesis
  proof cases
    case (consume_link i at n)
    then show ?thesis using consume_link_takes[of i at d n d'] assms(2) by (cases "n = 0") (simp_all del: live.simps)
  next
    case (consume_resume h at r)
    then show ?thesis using consume_resume_takes[OF wf, of h at r d'] assms(2) by (simp del: live.simps)
  next
    case (consume_state n s)
    then show ?thesis using consume_state_takes[of n d s d'] assms(2) by (simp del: live.simps)
  qed (use assms(2) in simp_all)
qed

interpretation creds: single_use live wstmt issued taken
proof unfold_locales
  show "live s k \<and> \<not> live t k" if "wstmt s l t" "taken l = Some k" for s l t k by (rule stmt_take_live[OF that])
  show "\<not> live t k" if "wstmt s l t" "\<not> live s k" "issued l \<noteq> Some k" for s l t k
    using stmt_keep_dead[of s l t k] that by (simp add: wstmt_def)
qed

end
