(* ===== verification/Tokens.thy ===== *)
theory Tokens
  imports AuthStore
begin

text \<open>
  The token service (\<^verbatim>\<open>internal/portal/tokens\<close>: \<^verbatim>\<open>token.go\<close>, \<^verbatim>\<open>service_impl.go\<close>, \<^verbatim>\<open>handlers.go\<close>, \<^verbatim>\<open>middleware.go\<close>,
  \<^verbatim>\<open>basic.go\<close>): opaque bearer and refresh tokens, of which the database holds only hashes.  What a request draws
  from its surroundings is a record: the fault schedule, the clock, the random bytes as hex text (none
  when the source of randomness fails) and the identifiers, all by the place that asks, and the hash
  function.  No theorem uses more of SHA-256 than that it is a function; that two tokens do not collide is
  a hypothesis where it matters.
\<close>

record tenv =
  te_flt :: faults
  te_now :: "string \<Rightarrow> time"
  te_rand :: "string \<Rightarrow> string option"
  te_uuid :: "string \<Rightarrow> string"
  te_sha :: "string \<Rightarrow> string"

datatype token_err = ErrInvalidToken | ErrExpiredToken | ErrRevokedToken | ErrForbidden
  | ErrStore store_error | ErrRandom | ErrEmptyArgument

record Pair =
  p_access :: string
  p_refresh :: string
  p_access_expires_at :: time
  p_refresh_expires_at :: time

definition AccessTokenTTL :: time where "AccessTokenTTL = 3600 * 1000000000"

definition RefreshTokenTTL :: time where "RefreshTokenTTL = 30 * 24 * 3600 * 1000000000"

subsection \<open>The service\<close>

definition hashToken :: "tenv \<Rightarrow> string \<Rightarrow> string" where
  "hashToken e raw = te_sha e raw"

definition generateToken :: "tenv \<Rightarrow> string \<Rightarrow> token_err + (string \<times> string)" where
  "generateToken e site =
     (case te_rand e site of None \<Rightarrow> Inl ErrRandom | Some raw \<Rightarrow> Inr (raw, hashToken e raw))"

text \<open>A new row of the token table, and its insertion.\<close>

definition newToken :: "string \<Rightarrow> string \<Rightarrow> string \<Rightarrow> string \<Rightarrow> time \<Rightarrow> time \<Rightarrow> OAuthToken" where
  "newToken i acc h kind iat expires =
     \<lparr>tk_id = i, tk_account = acc, tk_hash = h, tk_kind = kind, tk_session = None, tk_issued_at = iat,
      tk_expires_at = expires, tk_last_used_at = None, tk_revoked_at = None\<rparr>"

definition Issue :: "tenv \<Rightarrow> string \<Rightarrow> adb \<Rightarrow> (token_err + Pair) \<times> adb" where
  "Issue e acc d =
     (let now = te_now e ''Issue'' in
      case generateToken e ''access'' of Inl x \<Rightarrow> (Inl x, d) | Inr (accessRaw, accessHash) \<Rightarrow>
      case generateToken e ''refresh'' of Inl x \<Rightarrow> (Inl x, d) | Inr (refreshRaw, refreshHash) \<Rightarrow>
      let accessExpiry = now + AccessTokenTTL; refreshExpiry = now + RefreshTokenTTL in
      case call (te_flt e) ''Issue access'' 0
             (CreateOAuthToken (newToken (te_uuid e ''access'') acc accessHash ''access'' now accessExpiry) d) of
        Inl x \<Rightarrow> (Inl (ErrStore x), d)
      | Inr d1 \<Rightarrow>
      case call (te_flt e) ''Issue refresh'' 0
             (CreateOAuthToken (newToken (te_uuid e ''refresh'') acc refreshHash ''refresh'' now refreshExpiry) d1) of
        Inl x \<Rightarrow> (Inl (ErrStore x), d1)
      | Inr d2 \<Rightarrow>
          (Inr \<lparr>p_access = accessRaw, p_refresh = refreshRaw, p_access_expires_at = accessExpiry,
                p_refresh_expires_at = refreshExpiry\<rparr>, d2))"

definition IssueShortLived :: "tenv \<Rightarrow> string \<Rightarrow> time \<Rightarrow> adb \<Rightarrow> (token_err + (string \<times> time)) \<times> adb" where
  "IssueShortLived e acc ttl d =
     (let now = te_now e ''IssueShortLived'' in
      case generateToken e ''short'' of Inl x \<Rightarrow> (Inl x, d) | Inr (raw, h) \<Rightarrow>
      case call (te_flt e) ''IssueShortLived'' 0
             (CreateOAuthToken (newToken (te_uuid e ''short'') acc h ''access'' now (now + ttl)) d) of
        Inl x \<Rightarrow> (Inl (ErrStore x), d)
      | Inr d1 \<Rightarrow> (Inr (raw, now + ttl), d1))"

text \<open>The time of last use is recorded on a best-effort basis.\<close>

definition touchToken :: "tenv \<Rightarrow> string \<Rightarrow> time \<Rightarrow> adb \<Rightarrow> adb" where
  "touchToken e i now d =
     (case call (te_flt e) ''Touch'' 0 (TouchOAuthTokenLastUsed i now d) of Inl _ \<Rightarrow> d | Inr d1 \<Rightarrow> d1)"

definition ValidateToken :: "tenv \<Rightarrow> string \<Rightarrow> adb \<Rightarrow> (token_err + Account) \<times> adb" where
  "ValidateToken e raw d =
     (if raw = [] then (Inl ErrInvalidToken, d)
      else case call (te_flt e) ''Validate'' 0 (GetOAuthTokenByHash d (hashToken e raw)) of
        Inl ErrNotFound \<Rightarrow> (Inl ErrInvalidToken, d)
      | Inl x \<Rightarrow> (Inl (ErrStore x), d)
      | Inr row \<Rightarrow>
          let now = te_now e ''Validate'' in
          if tk_revoked_at row \<noteq> None then (Inl ErrRevokedToken, d)
          else if now > tk_expires_at row then (Inl ErrExpiredToken, d)
          else
            let d1 = touchToken e (tk_id row) now d in
            case call (te_flt e) ''Validate account'' 0 (GetAccountByID d1 (tk_account row)) of
              Inl x \<Rightarrow> (Inl (ErrStore x), d1)
            | Inr acct \<Rightarrow> (Inr acct, d1))"

text \<open>\<^verbatim>\<open>Refresh\<close> up to the test of the token's kind, and from the revocation on.\<close>

definition RefreshCheck :: "tenv \<Rightarrow> string \<Rightarrow> adb \<Rightarrow> (token_err + (Account \<times> OAuthToken)) \<times> adb" where
  "RefreshCheck e raw d =
     (case ValidateToken e raw d of
        (Inl x, d1) \<Rightarrow> (Inl x, d1)
      | (Inr acct, d1) \<Rightarrow>
          (case call (te_flt e) ''Refresh lookup'' 0 (GetOAuthTokenByHash d1 (hashToken e raw)) of
             Inl x \<Rightarrow> (Inl (ErrStore x), d1)
           | Inr row \<Rightarrow> if tk_kind row \<noteq> ''refresh'' then (Inl ErrInvalidToken, d1) else (Inr (acct, row), d1)))"

definition RefreshCommit :: "tenv \<Rightarrow> Account \<times> OAuthToken \<Rightarrow> adb \<Rightarrow> (token_err + Pair) \<times> adb" where
  "RefreshCommit e ar d =
     (case call (te_flt e) ''Refresh revoke'' 0 (RevokeOAuthToken (tk_id (snd ar)) (te_now e ''Refresh'') d) of
        Inl x \<Rightarrow> (Inl (ErrStore x), d)
      | Inr d1 \<Rightarrow> Issue e (a_id (fst ar)) d1)"

definition Refresh :: "tenv \<Rightarrow> string \<Rightarrow> adb \<Rightarrow> (token_err + Pair) \<times> adb" where
  "Refresh e raw d =
     (case RefreshCheck e raw d of (Inl x, d1) \<Rightarrow> (Inl x, d1) | (Inr ar, d1) \<Rightarrow> RefreshCommit e ar d1)"

definition IssueAnonymousSessionBearer ::
  "tenv \<Rightarrow> string \<Rightarrow> string \<Rightarrow> time \<Rightarrow> adb \<Rightarrow> (token_err + (string \<times> string \<times> time)) \<times> adb"
where
  "IssueAnonymousSessionBearer e sid nickname ttl d =
     (if nickname = [] \<or> sid = [] then (Inl ErrEmptyArgument, d)
      else case te_rand e ''anon id'' of None \<Rightarrow> (Inl ErrRandom, d) | Some suffix \<Rightarrow>
      let accountID = ''anon_'' @ suffix; email = accountID @ ''@playground.local''; now = te_now e ''anon'' in
      WithTx (te_flt e)
        (\<lambda>q. case call (te_flt e) ''anon account'' 0 (CreateAnonymousAccount accountID email nickname now q) of
                Inl x \<Rightarrow> Inl (ErrStore x)
              | Inr q1 \<Rightarrow>
              case generateToken e ''anon'' of Inl x \<Rightarrow> Inl x | Inr (raw, h) \<Rightarrow>
              case call (te_flt e) ''anon bearer'' 0
                     (CreateAnonymousBearer (''tok_'' @ te_uuid e ''anon'') accountID h sid now (now + ttl) q1) of
                Inl x \<Rightarrow> Inl (ErrStore x)
              | Inr q2 \<Rightarrow> Inr ((raw, accountID, now + ttl), q2))
        ErrStore d)"

definition IssueAnonymousSessionBearerForExistingAccount ::
  "tenv \<Rightarrow> string \<Rightarrow> string \<Rightarrow> time \<Rightarrow> adb \<Rightarrow> (token_err + (string \<times> time)) \<times> adb"
where
  "IssueAnonymousSessionBearerForExistingAccount e acc sid ttl d =
     (if acc = [] \<or> sid = [] then (Inl ErrEmptyArgument, d)
      else case call (te_flt e) ''anon lookup'' 0 (GetAccountByID d acc) of
        Inl ErrNotFound \<Rightarrow> (Inl ErrInvalidToken, d)
      | Inl x \<Rightarrow> (Inl (ErrStore x), d)
      | Inr acct \<Rightarrow>
          if \<not> a_is_anonymous acct then (Inl ErrForbidden, d)
          else case generateToken e ''anon'' of Inl x \<Rightarrow> (Inl x, d) | Inr (raw, h) \<Rightarrow>
          let now = te_now e ''anon'' in
          case call (te_flt e) ''anon bearer'' 0
                 (CreateAnonymousBearer (''tok_'' @ te_uuid e ''anon'') acc h sid now (now + ttl) d) of
            Inl x \<Rightarrow> (Inl (ErrStore x), d)
          | Inr d1 \<Rightarrow> (Inr (raw, now + ttl), d1))"

definition Revoke :: "tenv \<Rightarrow> string \<Rightarrow> string \<Rightarrow> bool \<Rightarrow> adb \<Rightarrow> token_err option \<times> adb" where
  "Revoke e caller raw revokeAll d =
     (case call (te_flt e) ''Revoke lookup'' 0 (GetOAuthTokenByHash d (hashToken e raw)) of
        Inl ErrNotFound \<Rightarrow> (None, d)
      | Inl x \<Rightarrow> (Some (ErrStore x), d)
      | Inr row \<Rightarrow>
          if tk_account row \<noteq> caller then (Some ErrForbidden, d)
          else
            let now = te_now e ''Revoke'' in
            case call (te_flt e) ''Revoke'' 0
                   (if revokeAll then RevokeAllOAuthTokensForAccount (tk_account row) now d
                    else RevokeOAuthToken (tk_id row) now d) of
              Inl x \<Rightarrow> (Some (ErrStore x), d)
            | Inr d1 \<Rightarrow> (None, d1))"

definition RevokeAnonymousBearer :: "tenv \<Rightarrow> string \<Rightarrow> adb \<Rightarrow> token_err option \<times> adb" where
  "RevokeAnonymousBearer e raw d =
     (case call (te_flt e) ''RevokeAnon lookup'' 0 (GetOAuthTokenByHash d (hashToken e raw)) of
        Inl ErrNotFound \<Rightarrow> (None, d)
      | Inl x \<Rightarrow> (Some (ErrStore x), d)
      | Inr row \<Rightarrow>
          case call (te_flt e) ''RevokeAnon revoke'' 0 (RevokeOAuthToken (tk_id row) (te_now e ''RevokeAnon'') d) of
            Inl x \<Rightarrow> (Some (ErrStore x), d)
          | Inr d1 \<Rightarrow>
          case call (te_flt e) ''RevokeAnon delete'' 0 (DeleteAccountsByIDs [tk_account row] d1) of
            Inl x \<Rightarrow> (Some (ErrStore x), d1)
          | Inr d2 \<Rightarrow> (None, d2))"

subsection \<open>Handlers and middleware\<close>

datatype token_resp = Pair200 Pair | NoContent204 | Unauthorized401 string | Forbidden403 string

definition mapToRefreshError :: "token_err \<Rightarrow> token_resp" where
  "mapToRefreshError x = Unauthorized401 (if x = ErrExpiredToken then ''auth.expired_token'' else ''auth.invalid_token'')"

definition RefreshToken :: "tenv \<Rightarrow> string \<Rightarrow> adb \<Rightarrow> token_resp \<times> adb" where
  "RefreshToken e tok d =
     (case Refresh e tok d of (Inl x, d1) \<Rightarrow> (mapToRefreshError x, d1) | (Inr p, d1) \<Rightarrow> (Pair200 p, d1))"

definition RevokeToken :: "tenv \<Rightarrow> Account option \<Rightarrow> string \<Rightarrow> bool \<Rightarrow> adb \<Rightarrow> token_resp \<times> adb" where
  "RevokeToken e ctx tok revokeAll d =
     (case ctx of
        None \<Rightarrow> (Unauthorized401 ''auth.invalid_token'', d)
      | Some acct \<Rightarrow>
          (case Revoke e (a_id acct) tok revokeAll d of
             (None, d1) \<Rightarrow> (NoContent204, d1)
           | (Some x, d1) \<Rightarrow>
               (if x = ErrForbidden then Forbidden403 ''auth.forbidden'' else Unauthorized401 ''auth.invalid_token'', d1)))"

definition Logout :: "tenv \<Rightarrow> Account option \<Rightarrow> string \<Rightarrow> adb \<Rightarrow> token_resp \<times> adb" where
  "Logout e ctx rawToken d =
     (case ctx of
        None \<Rightarrow> (Unauthorized401 ''auth.invalid_token'', d)
      | Some acct \<Rightarrow>
          if rawToken = [] then (Unauthorized401 ''auth.invalid_token'', d)
          else (case Revoke e (a_id acct) rawToken True d of
                  (None, d1) \<Rightarrow> (NoContent204, d1)
                | (Some _, d1) \<Rightarrow> (Unauthorized401 ''auth.invalid_token'', d1)))"

datatype bearer_result = Next Account string | Deny string | ClientClosed499 | DepFailure token_err

definition BearerMiddleware :: "tenv \<Rightarrow> bool \<Rightarrow> string \<Rightarrow> adb \<Rightarrow> bearer_result \<times> adb" where
  "BearerMiddleware e cancelled authz d =
     (if \<not> HasPrefix authz ''Bearer '' then (Deny ''auth.invalid_token'', d)
      else
        let tok = TrimPrefix authz ''Bearer '' in
        case ValidateToken e tok d of
          (Inr acct, d1) \<Rightarrow> (Next acct tok, d1)
        | (Inl ErrExpiredToken, d1) \<Rightarrow> (Deny ''auth.expired_token'', d1)
        | (Inl ErrInvalidToken, d1) \<Rightarrow> (Deny ''auth.invalid_token'', d1)
        | (Inl ErrRevokedToken, d1) \<Rightarrow> (Deny ''auth.invalid_token'', d1)
        | (Inl x, d1) \<Rightarrow> (if cancelled then ClientClosed499 else DepFailure x, d1))"

definition BasicAuthValidator :: "tenv \<Rightarrow> string \<Rightarrow> string \<Rightarrow> adb \<Rightarrow> (token_err + Account) \<times> adb" where
  "BasicAuthValidator e user pass d = ValidateToken e pass d"

subsection \<open>Every operation is a run of statements\<close>

text \<open>A run that issues no bearer but those with the given hashes.\<close>

definition runs_issuing :: "string set \<Rightarrow> adb \<Rightarrow> adb \<Rightarrow> bool" where
  "runs_issuing H d d' \<longleftrightarrow> (\<exists>ls. runs stmt d ls d' \<and> set ls \<subseteq> insert Silent ((\<lambda>h. Issued (Bearer h)) ` H))"

lemma runs_issuing_refl [simp, intro]: "runs_issuing H d d"
  unfolding runs_issuing_def by (rule exI[of _ "[]"]) (simp add: runs_refl)

lemma runs_issuing_trans: "runs_issuing H d d1 \<Longrightarrow> runs_issuing H d1 d2 \<Longrightarrow> runs_issuing H d d2"
  unfolding runs_issuing_def by (metis runs_append set_append Un_least)

lemma runs_issuing_mono: "runs_issuing H d d1 \<Longrightarrow> H \<subseteq> H' \<Longrightarrow> runs_issuing H' d d1"
  unfolding runs_issuing_def by blast

lemma runs_issuing_silent: "stmt d Silent d' \<Longrightarrow> runs_issuing H d d'"
  unfolding runs_issuing_def by (rule exI[of _ "[Silent]"]) (simp add: runs_single)

lemma runs_issuing_token: "CreateOAuthToken t d = Inr d' \<Longrightarrow> tk_hash t \<in> H \<Longrightarrow> runs_issuing H d d'"
  unfolding runs_issuing_def by (rule exI[of _ "[Issued (Bearer (tk_hash t))]"]) (simp add: runs_single create_token)

lemma runs_issuing_tokens:
  "CreateOAuthToken t d = Inr d1 \<Longrightarrow> CreateOAuthToken t' d1 = Inr d2 \<Longrightarrow> tk_hash t \<in> H \<Longrightarrow> tk_hash t' \<in> H \<Longrightarrow> runs_issuing H d d2"
  by (blast intro: runs_issuing_trans runs_issuing_token)

lemma runs_issuing_wf: "runs_issuing H d d' \<Longrightarrow> auth_wf d \<Longrightarrow> auth_wf d'"
  unfolding runs_issuing_def using runs_wf by blast

lemma call_Inr: "call flt site n r = Inr x \<Longrightarrow> r = Inr x"
  by (auto simp: call_def split: if_splits)

text \<open>The hashes of the tokens that a request can draw.\<close>

definition drawn :: "tenv \<Rightarrow> string set" where
  "drawn e = {te_sha e raw |site raw. te_rand e site = Some raw}"

lemma generateToken_drawn: "generateToken e site = Inr (raw, h) \<Longrightarrow> te_rand e site = Some raw \<and> h = te_sha e raw \<and> h \<in> drawn e"
  by (auto simp: generateToken_def hashToken_def drawn_def split: option.splits)

lemma newToken_sel [simp]:
  "tk_hash (newToken i acc h k a x) = h" "tk_account (newToken i acc h k a x) = acc" "tk_kind (newToken i acc h k a x) = k"
  "tk_expires_at (newToken i acc h k a x) = x" "tk_revoked_at (newToken i acc h k a x) = None" "tk_id (newToken i acc h k a x) = i"
  by (simp_all add: newToken_def)

lemma IssueE:
  assumes "Issue e acc d = (Inr p, d2)"
  obtains d1 where
    "te_rand e ''access'' = Some (p_access p)" "te_rand e ''refresh'' = Some (p_refresh p)"
    "p_access_expires_at p = te_now e ''Issue'' + AccessTokenTTL" "p_refresh_expires_at p = te_now e ''Issue'' + RefreshTokenTTL"
    "CreateOAuthToken (newToken (te_uuid e ''access'') acc (te_sha e (p_access p)) ''access'' (te_now e ''Issue'') (p_access_expires_at p)) d = Inr d1"
    "CreateOAuthToken (newToken (te_uuid e ''refresh'') acc (te_sha e (p_refresh p)) ''refresh'' (te_now e ''Issue'') (p_refresh_expires_at p)) d1 = Inr d2"
  using assms unfolding Issue_def
  by (auto simp: Let_def split: sum.splits prod.splits dest!: call_Inr generateToken_drawn)

lemma Issue_runs: "runs_issuing (drawn e) d (snd (Issue e acc d))"
  unfolding Issue_def
  by (auto simp: Let_def split: sum.splits prod.splits dest!: call_Inr generateToken_drawn
      intro: runs_issuing_token runs_issuing_tokens)

lemma IssueShortLived_runs: "runs_issuing (drawn e) d (snd (IssueShortLived e acc ttl d))"
  unfolding IssueShortLived_def
  by (auto simp: Let_def split: sum.splits prod.splits dest!: call_Inr generateToken_drawn intro: runs_issuing_token)

lemma touchToken_runs: "runs_issuing H d (touchToken e i now d)"
  unfolding touchToken_def by (auto split: sum.splits dest!: call_Inr intro: runs_issuing_silent stmt.touch)

lemma Validate_runs: "runs_issuing H d (snd (ValidateToken e raw d))"
  unfolding ValidateToken_def by (auto simp: Let_def touchToken_runs split: sum.splits store_error.splits)

lemma RefreshCheck_runs: "runs_issuing H d (snd (RefreshCheck e raw d))"
  using Validate_runs[of H d e raw] unfolding RefreshCheck_def by (auto split: sum.splits prod.splits)

lemma RefreshCommit_runs: "runs_issuing (drawn e) d (snd (RefreshCommit e ar d))"
proof (cases "call (te_flt e) ''Refresh revoke'' 0 (RevokeOAuthToken (tk_id (snd ar)) (te_now e ''Refresh'') d)")
  case (Inr d1)
  then have "runs_issuing (drawn e) d d1" by (blast dest: call_Inr intro: runs_issuing_silent stmt.revoke)
  then show ?thesis using Inr Issue_runs[of e d1 "a_id (fst ar)"] by (simp add: RefreshCommit_def runs_issuing_trans)
qed (simp add: RefreshCommit_def)

lemma Refresh_runs: "runs_issuing (drawn e) d (snd (Refresh e raw d))"
proof (cases "RefreshCheck e raw d")
  case (Pair r d1)
  then have "runs_issuing (drawn e) d d1" using RefreshCheck_runs[of "drawn e" d e raw] by simp
  then show ?thesis using Pair RefreshCommit_runs[of e d1] runs_issuing_trans[of "drawn e" d d1]
    by (cases r) (simp_all add: Refresh_def)
qed

lemma anon_bearer_runs:
  "CreateAnonymousBearer i acc h sid iat x d = Inr d' \<Longrightarrow> h \<in> H \<Longrightarrow> runs_issuing H d d'"
  unfolding CreateAnonymousBearer_def by (auto split: if_splits intro: runs_issuing_token)

lemma anon_account_runs:
  "CreateAnonymousAccount i em n at d = Inr d1 \<Longrightarrow> CreateAnonymousBearer j acc h sid iat x d1 = Inr d2 \<Longrightarrow> h \<in> H \<Longrightarrow> runs_issuing H d d2"
  unfolding CreateAnonymousAccount_def
  by (rule runs_issuing_trans[OF runs_issuing_silent[OF stmt.create_account]]) (blast intro: anon_bearer_runs)+

lemma IssueAnonymousSessionBearer_runs: "runs_issuing (drawn e) d (snd (IssueAnonymousSessionBearer e sid nick ttl d))"
  unfolding IssueAnonymousSessionBearer_def WithTx_def
  by (auto simp: Let_def split: sum.splits prod.splits option.splits if_splits
      dest!: call_Inr generateToken_drawn intro: anon_account_runs)

lemma IssueForExisting_runs:
  "runs_issuing (drawn e) d (snd (IssueAnonymousSessionBearerForExistingAccount e acc sid ttl d))"
  unfolding IssueAnonymousSessionBearerForExistingAccount_def
  by (auto simp: Let_def split: sum.splits prod.splits store_error.splits dest!: call_Inr generateToken_drawn
      intro: anon_bearer_runs)

lemma Revoke_runs: "runs_issuing H d (snd (Revoke e caller raw al d))"
  unfolding Revoke_def
  by (auto simp: Let_def split: sum.splits store_error.splits if_splits dest!: call_Inr
      intro: runs_issuing_silent stmt.revoke stmt.revoke_all)

lemma revoke_delete_runs:
  "RevokeOAuthToken i at d = Inr d1 \<Longrightarrow> DeleteAccountsByIDs ids d1 = Inr d2 \<Longrightarrow> runs_issuing H d d2"
  by (rule runs_issuing_trans[OF runs_issuing_silent[OF stmt.revoke] runs_issuing_silent[OF stmt.delete_accounts]])

lemma RevokeAnonymousBearer_runs: "runs_issuing H d (snd (RevokeAnonymousBearer e raw d))"
  unfolding RevokeAnonymousBearer_def
  by (auto simp: Let_def split: sum.splits store_error.splits dest!: call_Inr
      intro: runs_issuing_silent stmt.revoke revoke_delete_runs)

lemmas token_runs =
  Issue_runs IssueShortLived_runs Validate_runs Refresh_runs IssueAnonymousSessionBearer_runs IssueForExisting_runs
  Revoke_runs RevokeAnonymousBearer_runs

subsection \<open>Lookups\<close>

lemma one_row_Inr: "one_row P rs = Inr r \<Longrightarrow> r \<in> set rs \<and> P r"
  unfolding one_row_def by (auto split: option.splits dest: find_Some_iff')

lemma one_row_keyed:
  assumes "keyed k rs" "r \<in> set rs"
  shows "one_row (\<lambda>x. k x = k r) rs = Inr r"
proof (cases "find (\<lambda>x. k x = k r) rs")
  case None
  then show ?thesis using assms(2) unfolding find_None_iff by blast
next
  case (Some r')
  then have "r' \<in> set rs" "k r' = k r" using find_Some_iff'[OF Some] by simp_all
  then show ?thesis using Some keyed_inj[OF assms(1), of r' r] assms(2) by (simp add: one_row_def)
qed

lemma token_by_hash: "auth_wf d \<Longrightarrow> t \<in> set (ad_tokens d) \<Longrightarrow> tk_hash t = h \<Longrightarrow> GetOAuthTokenByHash d h = Inr t"
  unfolding GetOAuthTokenByHash_def auth_wf_def tokens_wf_def using one_row_keyed[of tk_hash] by blast

lemma account_by_id: "auth_wf d \<Longrightarrow> a \<in> set (d_accounts d) \<Longrightarrow> a_id a = i \<Longrightarrow> GetAccountByID d i = Inr a"
  unfolding GetAccountByID_def auth_wf_def accounts_wf_def using one_row_keyed[of a_id] by blast

lemma token_hash_unique:
  "auth_wf d \<Longrightarrow> t \<in> set (ad_tokens d) \<Longrightarrow> t' \<in> set (ad_tokens d) \<Longrightarrow> tk_hash t = tk_hash t' \<Longrightarrow> t = t'"
  unfolding auth_wf_def tokens_wf_def using keyed_inj[of tk_hash "ad_tokens d" t t'] by blast

lemma touchToken_accounts [simp]: "d_accounts (touchToken e i now d) = d_accounts d"
  by (auto simp: touchToken_def TouchOAuthTokenLastUsed_def call_def split: sum.splits)

lemma Validate_live: "fst (ValidateToken e raw d) = Inr a \<Longrightarrow> live d (Bearer (hashToken e raw))"
  unfolding ValidateToken_def GetOAuthTokenByHash_def
  by (auto simp: Let_def split: if_splits sum.splits store_error.splits dest!: call_Inr one_row_Inr simp: spent_def)

lemma Validate_ok:
  assumes "auth_wf d" "t \<in> set (ad_tokens d)" "tk_hash t = hashToken e raw" "raw \<noteq> []" "te_flt e = no_faults"
    and "tk_revoked_at t = None" "te_now e ''Validate'' \<le> tk_expires_at t" "a \<in> set (d_accounts d)" "a_id a = tk_account t"
  shows "fst (ValidateToken e raw d) = Inr a"
proof -
  let ?d = "touchToken e (tk_id t) (te_now e ''Validate'') d"
  have "auth_wf ?d" by (rule runs_issuing_wf[OF touchToken_runs[of "{}"] assms(1)])
  then have "GetAccountByID ?d (tk_account t) = Inr a" using assms(8,9) by (intro account_by_id) simp_all
  then show ?thesis using assms token_by_hash[OF assms(1-3)] by (simp add: ValidateToken_def Let_def)
qed

lemma Validate_expired:
  assumes "auth_wf d" "t \<in> set (ad_tokens d)" "tk_hash t = hashToken e raw" "raw \<noteq> []" "te_flt e = no_faults"
    and "tk_revoked_at t = None" "te_now e ''Validate'' > tk_expires_at t"
  shows "fst (ValidateToken e raw d) = Inl ErrExpiredToken"
  using assms token_by_hash[OF assms(1-3)] by (simp add: ValidateToken_def Let_def)

lemma CreateOAuthTokenD:
  assumes "CreateOAuthToken t d = Inr d'"
  shows "t \<in> set (ad_tokens d')" "set (ad_tokens d) \<subseteq> set (ad_tokens d')" "d_accounts d' = d_accounts d" "tk_account t \<in> account_ids d"
  using assms unfolding CreateOAuthToken_def by (auto split: if_splits)

lemma Issue_rows:
  assumes "Issue e acc d = (Inr p, d2)"
  shows "\<exists>t \<in> set (ad_tokens d2). tk_hash t = te_sha e (p_access p) \<and> tk_account t = acc \<and> tk_kind t = ''access''
           \<and> tk_expires_at t = p_access_expires_at p \<and> tk_revoked_at t = None"
    and "\<exists>t \<in> set (ad_tokens d2). tk_hash t = te_sha e (p_refresh p) \<and> tk_account t = acc \<and> tk_kind t = ''refresh''
           \<and> tk_expires_at t = p_refresh_expires_at p \<and> tk_revoked_at t = None"
    and "acc \<in> account_ids d" "d_accounts d2 = d_accounts d"
proof -
  obtain d1 where
    a: "CreateOAuthToken (newToken (te_uuid e ''access'') acc (te_sha e (p_access p)) ''access'' (te_now e ''Issue'') (p_access_expires_at p)) d = Inr d1"
    and r: "CreateOAuthToken (newToken (te_uuid e ''refresh'') acc (te_sha e (p_refresh p)) ''refresh'' (te_now e ''Issue'') (p_refresh_expires_at p)) d1 = Inr d2"
    using IssueE[OF assms] by metis
  note A = CreateOAuthTokenD[OF a] and R = CreateOAuthTokenD[OF r]
  show "\<exists>t \<in> set (ad_tokens d2). tk_hash t = te_sha e (p_access p) \<and> tk_account t = acc \<and> tk_kind t = ''access''
           \<and> tk_expires_at t = p_access_expires_at p \<and> tk_revoked_at t = None"
    using A(1) R(2) by (intro bexI[OF _ subsetD[OF R(2) A(1)]]) simp
  show "\<exists>t \<in> set (ad_tokens d2). tk_hash t = te_sha e (p_refresh p) \<and> tk_account t = acc \<and> tk_kind t = ''refresh''
           \<and> tk_expires_at t = p_refresh_expires_at p \<and> tk_revoked_at t = None"
    by (intro bexI[OF _ R(1)]) simp
  show "acc \<in> account_ids d" "d_accounts d2 = d_accounts d" using A(3,4) R(3) by simp_all
qed

subsection \<open>Properties\<close>


lemma issued_bearer_validates:
  assumes "auth_wf d" "Issue e acc d = (Inr p, d1)" "te_sha e' = te_sha e" "te_flt e' = no_faults"
    and "tk \<in> set (ad_tokens d1)" "tk_hash tk = te_sha e raw" "tk_account tk = acc" "tk_revoked_at tk = None" "raw \<noteq> []"
    and "te_now e' ''Validate'' \<le> tk_expires_at tk"
  shows "\<exists>a \<in> set (d_accounts d). a_id a = acc \<and> fst (ValidateToken e' raw d1) = Inr a"
proof -
  have wf: "auth_wf d1" using runs_issuing_wf[OF Issue_runs assms(1), of e acc] assms(2) by simp
  obtain a where a: "a \<in> set (d_accounts d)" "a_id a = acc" using Issue_rows(3)[OF assms(2)] by auto
  then have "fst (ValidateToken e' raw d1) = Inr a"
    using assms Issue_rows(4)[OF assms(2)] by (intro Validate_ok[OF wf assms(5)]) (simp_all add: hashToken_def)
  with a show ?thesis by blast
qed

text \<open>
  An issued access token is accepted until it expires.  After \<open>Issue\<close> it validates to the account it was issued for
  at every time up to one hour after the issue, and is refused as expired at every later time.
\<close>
theorem issued_token_validates:
  assumes "auth_wf d" "Issue e acc d = (Inr p, d1)" "p_access p \<noteq> []" "te_sha e' = te_sha e" "te_flt e' = no_faults"
  shows "if te_now e' ''Validate'' \<le> te_now e ''Issue'' + 3600 * 1000000000
         then \<exists>a \<in> set (d_accounts d). a_id a = acc \<and> fst (ValidateToken e' (p_access p) d1) = Inr a
         else fst (ValidateToken e' (p_access p) d1) = Inl ErrExpiredToken"
proof -
  obtain tk where tk: "tk \<in> set (ad_tokens d1)" "tk_hash tk = te_sha e (p_access p)" "tk_account tk = acc" "tk_revoked_at tk = None"
    "tk_expires_at tk = p_access_expires_at p" using Issue_rows(1)[OF assms(2)] by blast
  have x: "p_access_expires_at p = te_now e ''Issue'' + 3600 * 1000000000"
    using assms(2) by (rule IssueE) (simp add: AccessTokenTTL_def)
  have wf: "auth_wf d1" using runs_issuing_wf[OF Issue_runs assms(1), of e acc] assms(2) by simp
  show ?thesis
    using issued_bearer_validates[OF assms(1,2,4,5) tk(1-4) assms(3)] Validate_expired[OF wf tk(1), of e' "p_access p"]
      tk(2,4,5) x assms(3-5) by (auto simp: hashToken_def)
qed

text \<open>
  C5: A revoked token is never accepted again.  After a successful \<open>Revoke\<close> the token, and with \<open>revokeAll\<close> every token of
  the account, fails to validate in every later state, whatever requests run in between and whatever the
  faults, as long as the same token is not drawn again.
\<close>
theorem revoked_token_dead:
  assumes wf: "auth_wf d" and rv: "Revoke e caller raw revokeAll d = (None, d1)"
    and row: "row \<in> set (ad_tokens d)" "tk_hash row = hashToken e raw"
    and tk: "tk \<in> set (ad_tokens d)" "tk = row \<or> revokeAll \<and> tk_account tk = caller" "tk_hash tk = hashToken e' raw'"
    and later: "runs stmt d1 ls d2" "Issued (Bearer (tk_hash tk)) \<notin> set ls"
  shows "fst (ValidateToken e' raw' d2) \<noteq> Inr acct"
proof -
  have g: "call (te_flt e) ''Revoke lookup'' 0 (GetOAuthTokenByHash d (hashToken e raw)) = Inr row"
    using rv token_by_hash[OF wf row] by (auto simp: Revoke_def call_def split: if_splits)
  have own: "tk_account row = caller" using rv g by (auto simp: Revoke_def split: if_splits)
  have d1: "d1 = d\<lparr>ad_tokens := update_rows (\<lambda>t. if revokeAll then tk_account t = caller \<and> tk_revoked_at t = None else tk_id t = tk_id row)
              (tk_revoked_at_update (\<lambda>_. Some (te_now e ''Revoke''))) (ad_tokens d)\<rparr>"
    using rv g own by (auto simp: Revoke_def Let_def RevokeAllOAuthTokensForAccount_def RevokeOAuthToken_def
        split: sum.splits if_splits dest!: call_Inr)
  have "t = tk" if "t \<in> set (ad_tokens d)" "tk_hash t = tk_hash tk" for t by (rule token_hash_unique[OF wf that(1) tk(1) that(2)])
  then have dead: "\<not> live d1 (Bearer (tk_hash tk))"
    using tk(2) own unfolding d1 by (auto simp: spent_def set_update_rows split: if_splits)
  have wf1: "auth_wf d1" using runs_issuing_wf[OF Revoke_runs[of "{}"] wf, of e caller raw revokeAll] rv by simp
  have "occurrences issued (Bearer (tk_hash tk)) ls = 0"
    using later(2) unfolding occurrences_def by (auto simp: filter_empty_conv elim!: issued.elims)
  then have "\<not> live d2 (Bearer (tk_hash tk))" using creds.dead_stays_dead[OF runs_wstmt[OF later(1) wf1] dead] by blast
  then show ?thesis using Validate_live[of e' raw' d2 acct] tk(3) by auto
qed

lemma create_keeps_spent:
  assumes "CreateOAuthToken t d = Inr d'" "h \<in> tk_hash ` set (ad_tokens d)" "spent tk_hash tk_revoked_at h (ad_tokens d)"
  shows "h \<in> tk_hash ` set (ad_tokens d') \<and> spent tk_hash tk_revoked_at h (ad_tokens d')"
  using assms unfolding CreateOAuthToken_def by (auto split: if_splits)

lemma RefreshCommit_spends:
  assumes wf: "auth_wf d" and row: "row \<in> set (ad_tokens d)" and c: "RefreshCommit e (acct, row) d = (Inr p, d')"
  shows "\<not> live d' (Bearer (tk_hash row))"
proof -
  let ?d = "d\<lparr>ad_tokens := update_rows (\<lambda>t. tk_id t = tk_id row) (tk_revoked_at_update (\<lambda>_. Some (te_now e ''Refresh''))) (ad_tokens d)\<rparr>"
  have i: "Issue e (a_id acct) ?d = (Inr p, d')"
    using c unfolding RefreshCommit_def RevokeOAuthToken_def by (auto simp: call_def split: if_splits)
  have "t = row" if "t \<in> set (ad_tokens d)" "tk_hash t = tk_hash row" for t by (rule token_hash_unique[OF wf that(1) row that(2)])
  then have s: "spent tk_hash tk_revoked_at (tk_hash row) (ad_tokens ?d)"
    by (auto simp: spent_def set_update_rows split: if_splits)
  have "set (map tk_hash (ad_tokens ?d)) = set (map tk_hash (ad_tokens d))" by (simp del: set_map)
  then have m: "tk_hash row \<in> tk_hash ` set (ad_tokens ?d)" using row unfolding set_map by blast
  obtain d1 t t' where "CreateOAuthToken t ?d = Inr d1" "CreateOAuthToken t' d1 = Inr d'" using IssueE[OF i] by metis
  then show ?thesis using create_keeps_spent[OF _ m s] create_keeps_spent[of t' d1 d' "tk_hash row"] by simp
qed

lemma RefreshCheckD:
  assumes "RefreshCheck e raw d = (Inr ar, d')"
  shows "ValidateToken e raw d = (Inr (fst ar), d') \<and> GetOAuthTokenByHash d' (hashToken e raw) = Inr (snd ar) \<and> tk_kind (snd ar) = ''refresh''"
proof -
  obtain r d1 where v: "ValidateToken e raw d = (r, d1)" by (cases "ValidateToken e raw d")
  with assms obtain acct where a: "r = Inr acct" unfolding RefreshCheck_def by (cases r) simp_all
  with assms v obtain row where g: "call (te_flt e) ''Refresh lookup'' 0 (GetOAuthTokenByHash d1 (hashToken e raw)) = Inr row"
    unfolding RefreshCheck_def by (cases "call (te_flt e) ''Refresh lookup'' 0 (GetOAuthTokenByHash d1 (hashToken e raw))") simp_all
  have "tk_kind row = ''refresh'' \<and> ar = (acct, row) \<and> d' = d1"
    using assms unfolding RefreshCheck_def by (cases "tk_kind row = ''refresh''") (simp_all add: v a g)
  then show ?thesis using v a call_Inr[OF g] by simp
qed

lemma RefreshCheckE:
  assumes "RefreshCheck e raw d = (Inr (acct, row), d')"
  shows "row \<in> set (ad_tokens d')" "tk_hash row = hashToken e raw" "live d (Bearer (hashToken e raw))"
proof -
  have v: "ValidateToken e raw d = (Inr acct, d')" and g: "GetOAuthTokenByHash d' (hashToken e raw) = Inr row"
    using RefreshCheckD[OF assms] by simp_all
  show "row \<in> set (ad_tokens d')" "tk_hash row = hashToken e raw"
    using one_row_Inr[OF g[unfolded GetOAuthTokenByHash_def]] by simp_all
  show "live d (Bearer (hashToken e raw))" using v by (intro Validate_live[of e raw d acct]) simp
qed

text \<open>
  C28: A refresh token that has been exchanged is not exchanged again by any later request, whatever
  requests run in between, as long as the same token is not drawn again.
\<close>
theorem refresh_token_consumed:
  assumes "auth_wf d" "Refresh e raw d = (Inr p, d1)" "runs stmt d1 ls d2" "Issued (Bearer (hashToken e raw)) \<notin> set ls"
    and "te_sha e' = te_sha e"
  shows "fst (Refresh e' raw d2) \<noteq> Inr p'"
proof
  assume "fst (Refresh e' raw d2) = Inr p'"
  then obtain acct' row' d' where c': "RefreshCheck e' raw d2 = (Inr (acct', row'), d')"
    unfolding Refresh_def by (auto split: sum.splits prod.splits)
  obtain acct row d0 where c: "RefreshCheck e raw d = (Inr (acct, row), d0)" "RefreshCommit e (acct, row) d0 = (Inr p, d1)"
    using assms(2) unfolding Refresh_def by (auto split: sum.splits prod.splits)
  have wf0: "auth_wf d0" using runs_issuing_wf[OF RefreshCheck_runs[of "{}"] assms(1), of e raw] c(1) by simp
  have wf1: "auth_wf d1" using runs_issuing_wf[OF Refresh_runs assms(1), of e raw] assms(2) by simp
  have dead: "\<not> live d1 (Bearer (hashToken e raw))"
    using RefreshCommit_spends[OF wf0 RefreshCheckE(1)[OF c(1)] c(2)] RefreshCheckE(2)[OF c(1)] by simp
  have "occurrences issued (Bearer (hashToken e raw)) ls = 0"
    using assms(4) unfolding occurrences_def by (auto simp: filter_empty_conv elim!: issued.elims)
  then have "\<not> live d2 (Bearer (hashToken e raw))" using creds.dead_stays_dead[OF runs_wstmt[OF assms(3) wf1] dead] by blast
  then show False using RefreshCheckE(3)[OF c'] assms(5) by (simp add: hashToken_def)
qed

text \<open>
  C39: A refresh token is accepted as a bearer token.  \<open>ValidateToken\<close> never looks at the kind of a token, so the bearer
  check lets a refresh token pass for thirty days, while access tokens are meant to expire after an hour.
\<close>
theorem refresh_token_is_bearer:
  assumes "auth_wf d" "Issue e acc d = (Inr p, d1)" "p_refresh p \<noteq> []" "te_sha e' = te_sha e" "te_flt e' = no_faults"
    and "te_now e' ''Validate'' \<le> te_now e ''Issue'' + 30 * 24 * 3600 * 1000000000"
  shows "\<exists>a \<in> set (d_accounts d). a_id a = acc \<and> fst (BearerMiddleware e' c (''Bearer '' @ p_refresh p) d1) = Next a (p_refresh p)"
proof -
  obtain tk where tk: "tk \<in> set (ad_tokens d1)" "tk_hash tk = te_sha e (p_refresh p)" "tk_account tk = acc" "tk_revoked_at tk = None"
    "tk_expires_at tk = p_refresh_expires_at p" using Issue_rows(2)[OF assms(2)] by blast
  have x: "p_refresh_expires_at p = te_now e ''Issue'' + 30 * 24 * 3600 * 1000000000"
    using assms(2) by (rule IssueE) (simp add: RefreshTokenTTL_def)
  obtain a where a: "a \<in> set (d_accounts d)" "a_id a = acc" "fst (ValidateToken e' (p_refresh p) d1) = Inr a"
    using issued_bearer_validates[OF assms(1,2,4,5) tk(1-4) assms(3)] tk(5) x assms(6) by auto
  then obtain d2 where "ValidateToken e' (p_refresh p) d1 = (Inr a, d2)" by (cases "ValidateToken e' (p_refresh p) d1") auto
  then show ?thesis using a(1,2) by (intro bexI[of _ a]) (simp_all add: BearerMiddleware_def HasPrefix_def TrimPrefix_def)
qed

definition demo_tenv :: "string \<Rightarrow> tenv" where
  "demo_tenv x = \<lparr>te_flt = no_faults, te_now = (\<lambda>_. 0), te_rand = (\<lambda>site. Some (x @ site)), te_uuid = (\<lambda>site. x @ site),
     te_sha = (\<lambda>s. s)\<rparr>"

definition demo_adb :: adb where
  "demo_adb = empty_adb\<lparr>d_accounts := [\<lparr>a_id = ''acc'', a_email = ''u@x'', a_display_name = ''u'', a_github_user_id = None,
     a_created_at = 0, a_is_anonymous = False\<rparr>]\<rparr>"

definition demo_issued :: adb where
  "demo_issued = snd (Issue (demo_tenv ''1'') ''acc'' demo_adb)"

lemmas demo_token_defs =
  Issue_def generateToken_def hashToken_def CreateOAuthToken_def newToken_def demo_tenv_def demo_adb_def empty_adb_def
  Let_def AccessTokenTTL_def RefreshTokenTTL_def RefreshCheck_def RefreshCommit_def ValidateToken_def touchToken_def
  TouchOAuthTokenLastUsed_def GetOAuthTokenByHash_def one_row_def GetAccountByID_def RevokeOAuthToken_def update_rows_def


subsection \<open>Witnesses\<close>

lemma demo_adb_wf: "auth_wf demo_adb"
  by (simp add: auth_wf_def accounts_wf_def tokens_wf_def creds_wf_def orgs_wf_def keyed_def demo_adb_def empty_adb_def)

lemma demo_issued_wf: "auth_wf demo_issued"
  unfolding demo_issued_def by (rule runs_issuing_wf[OF Issue_runs demo_adb_wf])

definition demo_pair :: Pair where
  "demo_pair = \<lparr>p_access = ''1access'', p_refresh = ''1refresh'', p_access_expires_at = 3600000000000,
     p_refresh_expires_at = 2592000000000000\<rparr>"

lemma demo_issue: "Issue (demo_tenv ''1'') ''acc'' demo_adb = (Inr demo_pair, demo_issued)"
  by (simp add: demo_issued_def demo_pair_def demo_token_defs)


theorem issued_token_validates_witness:
  "\<exists>a \<in> set (d_accounts demo_adb). a_id a = ''acc'' \<and> fst (ValidateToken (demo_tenv ''2'') (p_access demo_pair) demo_issued) = Inr a"
  using issued_token_validates[OF demo_adb_wf demo_issue, of "demo_tenv ''2''"] by (simp add: demo_pair_def demo_tenv_def)

theorem revoked_token_dead_witness:
  "\<forall>a. fst (ValidateToken (demo_tenv ''2'') ''1refresh'' (snd (Revoke (demo_tenv ''2'') ''acc'' ''1access'' True demo_issued))) \<noteq> Inr a"
proof -
  let ?t = "\<lambda>k x. newToken (''1'' @ k) ''acc'' (''1'' @ k) k 0 x"
  have r: "Revoke (demo_tenv ''2'') ''acc'' ''1access'' True demo_issued
      = (None, snd (Revoke (demo_tenv ''2'') ''acc'' ''1access'' True demo_issued))"
    by (simp add: Revoke_def RevokeAllOAuthTokensForAccount_def demo_issued_def demo_token_defs)
  have "ad_tokens demo_issued = [?t ''access'' 3600000000000, ?t ''refresh'' 2592000000000000]"
    by (simp add: demo_issued_def demo_token_defs)
  then show ?thesis
    using revoked_token_dead[OF demo_issued_wf r, of "?t ''access'' 3600000000000" "?t ''refresh'' 2592000000000000"
        "demo_tenv ''2''" "''1refresh''", OF _ _ _ _ _ runs_refl]
    by (simp add: hashToken_def demo_tenv_def)
qed

theorem refresh_token_consumed_witness:
  "\<forall>p'. fst (Refresh (demo_tenv ''3'') ''1refresh'' (snd (Refresh (demo_tenv ''2'') ''1refresh'' demo_issued))) \<noteq> Inr p'"
proof -
  have "\<exists>p. Refresh (demo_tenv ''2'') ''1refresh'' demo_issued = (Inr p, snd (Refresh (demo_tenv ''2'') ''1refresh'' demo_issued))"
    by (simp add: Refresh_def demo_issued_def demo_token_defs)
  then show ?thesis
    using refresh_token_consumed[OF demo_issued_wf _ runs_refl, of "demo_tenv ''2''" "''1refresh''" _ _ "demo_tenv ''3''"]
    by (auto simp: demo_tenv_def)
qed

theorem refresh_token_is_bearer_witness:
  "\<exists>a \<in> set (d_accounts demo_adb). a_id a = ''acc''
     \<and> fst (BearerMiddleware (demo_tenv ''2'') False (''Bearer '' @ ''1refresh'') demo_issued) = Next a ''1refresh''"
  using refresh_token_is_bearer[OF demo_adb_wf demo_issue, of "demo_tenv ''2''"] by (simp add: demo_pair_def demo_tenv_def)

end
