(* ===== verification/SignIn.thy ===== *)
theory SignIn
  imports Tokens
begin

text \<open>
  Sign-in (\<^verbatim>\<open>internal/portal/auth\<close>: \<^verbatim>\<open>provision.go\<close>, \<^verbatim>\<open>slug.go\<close>, \<^verbatim>\<open>magic_link.go\<close>, \<^verbatim>\<open>oauth.go\<close>; \<^verbatim>\<open>internal/portal/oauth/state.go\<close>):
  magic links and OAuth callbacks are one-time credentials that lead to an account, created with a
  personal organisation on the first sign-in, and to a token pair.  The e-mail sender and the OAuth
  providers are services outside the repository and are parameters.
\<close>

subsection \<open>Slugs\<close>

text \<open>
  Lower case as far as letters and digits of ASCII come out of it: besides the ASCII capitals these are the
  Kelvin sign and the dotted capital I, given by their UTF-8 encodings.  Every other rune is replaced
  anyway, like the bytes of an invalid encoding.
\<close>

function lowerASCII :: "string \<Rightarrow> string" where
  "lowerASCII [] = []"
| "lowerASCII (c # s) =
     (if c = CHR 0xE2 \<and> take 2 s = [CHR 0x84, CHR 0xAA] then CHR ''k'' # lowerASCII (drop 2 s)
      else if c = CHR 0xC4 \<and> take 1 s = [CHR 0xB0] then CHR ''i'' # lowerASCII (drop 1 s)
      else to_lower_byte c # lowerASCII s)"
  by pat_completeness auto
termination by (relation "measure length") auto

definition slug_char :: "char \<Rightarrow> bool" where
  "slug_char c \<longleftrightarrow> (let n = of_char c :: nat in 97 \<le> n \<and> n \<le> 122 \<or> 48 \<le> n \<and> n \<le> 57)"

text \<open>Every run of other characters becomes one hyphen.\<close>

fun hyphenate :: "bool \<Rightarrow> string \<Rightarrow> string" where
  "hyphenate _ [] = []"
| "hyphenate inrun (c # s) =
     (if slug_char c then c # hyphenate False s
      else if inrun then hyphenate True s else CHR ''-'' # hyphenate True s)"

definition trimHyphens :: "string \<Rightarrow> string" where
  "trimHyphens s = rev (dropWhile (\<lambda>c. c = CHR ''-'') (rev (dropWhile (\<lambda>c. c = CHR ''-'') s)))"

definition SlugFromName :: "string \<Rightarrow> string" where
  "SlugFromName name = trimHyphens (hyphenate False (lowerASCII name))"

subsection \<open>Provisioning\<close>

record Identity =
  id_provider :: string
  id_provider_id :: string
  id_email :: string
  id_display_name :: string

datatype provision_err = ProvisionStore store_error | NoOrgMembership

definition emailPrefix :: "string \<Rightarrow> string" where
  "emailPrefix email = (case Index email ''@'' of Some i \<Rightarrow> if i > 0 then take i email else email | None \<Rightarrow> email)"

definition newOrg :: "string \<Rightarrow> string \<Rightarrow> string \<Rightarrow> time \<Rightarrow> Org" where
  "newOrg i name slug now = \<lparr>o_id = i, o_name = name, o_slug = slug, o_created_at = now\<rparr>"

text \<open>The six random characters of the second attempt are drawn like an identifier.\<close>

definition CreateOrgWithSlug :: "tenv \<Rightarrow> string \<Rightarrow> time \<Rightarrow> adb \<Rightarrow> (provision_err + Org) \<times> adb" where
  "CreateOrgWithSlug e name now d =
     (let baseSlug = SlugFromName name; org = newOrg (te_uuid e ''org'') name baseSlug now in
      case call (te_flt e) ''CreateOrg'' 0 (CreateOrg org d) of
        Inr d1 \<Rightarrow> (Inr org, d1)
      | Inl x \<Rightarrow>
          if x \<noteq> ErrUniqueViolation then (Inl (ProvisionStore x), d)
          else
            let org2 = newOrg (te_uuid e ''org retry'') name (baseSlug @ ''-'' @ te_uuid e ''slug suffix'') now in
            case call (te_flt e) ''CreateOrg'' 1 (CreateOrg org2 d) of
              Inr d1 \<Rightarrow> (Inr org2, d1)
            | Inl y \<Rightarrow> (Inl (ProvisionStore y), d))"

definition githubKey :: "Identity \<Rightarrow> string option" where
  "githubKey ident = (if id_provider ident = ''github'' \<and> id_provider_id ident \<noteq> [] then Some (id_provider_id ident) else None)"

definition lookupAccount :: "tenv \<Rightarrow> Identity \<Rightarrow> adb \<Rightarrow> store_error + Account" where
  "lookupAccount e ident d =
     call (te_flt e) ''lookupAccount'' 0
       (case githubKey ident of
          Some gh \<Rightarrow> GetAccountByGitHubUserID d gh
        | None \<Rightarrow> GetAccountByEmail (db.truncate d) (id_email ident))"

definition primaryOrg :: "tenv \<Rightarrow> string \<Rightarrow> adb \<Rightarrow> provision_err + Org" where
  "primaryOrg e acc d =
     (case call (te_flt e) ''ListOrgsForAccount'' 0 (ListOrgsForAccount d acc) of
        Inl x \<Rightarrow> Inl (ProvisionStore x)
      | Inr [] \<Rightarrow> Inl NoOrgMembership
      | Inr (o1 # _) \<Rightarrow> Inr o1)"

definition createAccountAndOrg :: "tenv \<Rightarrow> Identity \<Rightarrow> time \<Rightarrow> adb \<Rightarrow> (provision_err + (Account \<times> Org)) \<times> adb" where
  "createAccountAndOrg e ident now d =
     (let accountID = te_uuid e ''account'';
          displayName = (if id_display_name ident = [] then emailPrefix (id_email ident) else id_display_name ident) in
      case call (te_flt e) ''CreateAccount'' 0 (CreateAccount accountID (id_email ident) displayName (githubKey ident) now d) of
        Inl x \<Rightarrow> (Inl (ProvisionStore x), d)
      | Inr (acc, d1) \<Rightarrow>
          (case CreateOrgWithSlug e (emailPrefix (id_email ident)) now d1 of
             (Inl x, d2) \<Rightarrow> (Inl x, d2)
           | (Inr org, d2) \<Rightarrow>
               (case call (te_flt e) ''AddOrgMember'' 0 (AddOrgMember (o_id org) accountID d2) of
                  Inl x \<Rightarrow> (Inl (ProvisionStore x), d2)
                | Inr d3 \<Rightarrow> (Inr (acc, org), d3))))"

definition FindOrProvisionAt :: "tenv \<Rightarrow> Identity \<Rightarrow> time \<Rightarrow> adb \<Rightarrow> (provision_err + (Account \<times> Org)) \<times> adb" where
  "FindOrProvisionAt e ident now d =
     (case lookupAccount e ident d of
        Inl x \<Rightarrow> if x \<noteq> ErrNotFound then (Inl (ProvisionStore x), d) else createAccountAndOrg e ident now d
      | Inr acc \<Rightarrow>
          (case primaryOrg e (a_id acc) d of Inl x \<Rightarrow> (Inl x, d) | Inr org \<Rightarrow> (Inr (acc, org), d)))"

subsection \<open>Magic links\<close>

definition magicLinkTTL :: time where "magicLinkTTL = 15 * 60 * 1000000000"

definition reservedMagicLinkDomains :: "string list" where
  "reservedMagicLinkDomains = [''@playground.local'']"

datatype request_result = Requested | ReservedDomain | MagicLinkNotEnabled | RequestFailed

datatype send_result = Sent | NotEnabled | SendFailed

definition RequestMagicLink :: "tenv \<Rightarrow> (string \<Rightarrow> string \<Rightarrow> send_result) \<Rightarrow> string \<Rightarrow> string \<Rightarrow> adb \<Rightarrow> request_result \<times> adb" where
  "RequestMagicLink e send portalURL email d =
     (case te_rand e ''magic'' of None \<Rightarrow> (RequestFailed, d) | Some raw \<Rightarrow>
      let now = te_now e ''magic'' in
      if \<exists>domain \<in> set reservedMagicLinkDomains. HasSuffix (ToLowerASCII email) domain then (ReservedDomain, d)
      else
        case call (te_flt e) ''CreateMagicLinkToken'' 0
               (CreateMagicLinkToken \<lparr>ml_id = te_uuid e ''magic'', ml_hash = te_sha e raw, ml_email = email,
                  ml_issued_at = now, ml_expires_at = now + magicLinkTTL, ml_used_at = None\<rparr> d) of
          Inl _ \<Rightarrow> (RequestFailed, d)
        | Inr d1 \<Rightarrow>
            (case send email (portalURL @ ''/auth/magic-link#token='' @ raw) of
               Sent \<Rightarrow> (Requested, d1)
             | NotEnabled \<Rightarrow> (MagicLinkNotEnabled, d1)
             | SendFailed \<Rightarrow> (RequestFailed, d1)))"

datatype signin = SignedIn Pair | Refused string | BadRequest string | SignInFailed

text \<open>
  \<^verbatim>\<open>ExchangeMagicLink\<close> in three parts, between which other requests run: the lookup with its checks, the
  conditional update that takes the link, and what follows for the winner.
\<close>

definition exchangeLookup :: "tenv \<Rightarrow> string \<Rightarrow> adb \<Rightarrow> signin + MagicLinkToken" where
  "exchangeLookup e tok d =
     (case call (te_flt e) ''GetMagicLinkTokenByHash'' 0 (GetMagicLinkTokenByHash d (te_sha e tok)) of
        Inl ErrNotFound \<Rightarrow> Inl (Refused ''auth.invalid_token'')
      | Inl _ \<Rightarrow> Inl SignInFailed
      | Inr row \<Rightarrow>
          if te_now e ''exchange'' > ml_expires_at row then Inl (Refused ''auth.expired_token'')
          else if ml_used_at row \<noteq> None then Inl (Refused ''auth.invalid_token'')
          else Inr row)"

definition exchangeConsume :: "tenv \<Rightarrow> MagicLinkToken \<Rightarrow> adb \<Rightarrow> (signin + unit) \<times> adb" where
  "exchangeConsume e row d =
     (case call (te_flt e) ''ConsumeMagicLinkToken'' 0 (ConsumeMagicLinkToken (ml_id row) (te_now e ''exchange'') d) of
        Inl _ \<Rightarrow> (Inl SignInFailed, d)
      | Inr (affected, d1) \<Rightarrow> (if affected = 0 then Inl (Refused ''auth.invalid_token'') else Inr (), d1))"

text \<open>Provision the account and issue its tokens, as both sign-in flows end.\<close>

definition grant :: "tenv \<Rightarrow> Identity \<Rightarrow> time \<Rightarrow> adb \<Rightarrow> signin \<times> adb" where
  "grant e ident now d =
     (case FindOrProvisionAt e ident now d of
        (Inl _, d1) \<Rightarrow> (SignInFailed, d1)
      | (Inr (acc, _), d1) \<Rightarrow>
          (case Issue e (a_id acc) d1 of (Inl _, d2) \<Rightarrow> (SignInFailed, d2) | (Inr p, d2) \<Rightarrow> (SignedIn p, d2)))"

definition linkIdentity :: "MagicLinkToken \<Rightarrow> Identity" where
  "linkIdentity row = \<lparr>id_provider = ''magic-link'', id_provider_id = [], id_email = ml_email row,
     id_display_name = emailPrefix (ml_email row)\<rparr>"

definition exchangeFinish :: "tenv \<Rightarrow> MagicLinkToken \<Rightarrow> adb \<Rightarrow> signin \<times> adb" where
  "exchangeFinish e row d =
     (case exchangeConsume e row d of
        (Inl r, d1) \<Rightarrow> (r, d1)
      | (Inr (), d1) \<Rightarrow> grant e (linkIdentity row) (te_now e ''exchange'') d1)"

definition ExchangeMagicLink :: "tenv \<Rightarrow> string \<Rightarrow> adb \<Rightarrow> signin \<times> adb" where
  "ExchangeMagicLink e tok d =
     (case exchangeLookup e tok d of Inl r \<Rightarrow> (r, d) | Inr row \<Rightarrow> exchangeFinish e row d)"

subsection \<open>OAuth\<close>

definition StateNonceTTL :: time where "StateNonceTTL = 5 * 60 * 1000000000"

text \<open>A provider is known but not configured when its entry is nil.\<close>

datatype exchange_err = ErrBadGrant | ErrUnverifiedEmail | ErrProvider

record provider =
  pv_authorize :: "string \<Rightarrow> string \<Rightarrow> string"
  pv_exchange :: "string \<Rightarrow> string \<Rightarrow> exchange_err + Identity"

datatype start_result = AuthorizeURL string | UnknownProvider | ProviderNotConfigured | StartFailed

definition StoreState :: "tenv \<Rightarrow> string \<Rightarrow> string \<Rightarrow> string \<Rightarrow> adb \<Rightarrow> store_error + adb" where
  "StoreState e nonce prov redirectURI d =
     (let now = te_now e ''StoreState'' in
      call (te_flt e) ''InsertOAuthState'' 0
        (InsertOAuthState \<lparr>os_nonce = nonce, os_provider = prov, os_redirect_uri = redirectURI, os_created_at = now,
           os_expires_at = now + StateNonceTTL\<rparr> d))"

definition StartOAuth :: "tenv \<Rightarrow> (string \<rightharpoonup> provider option) \<Rightarrow> string \<Rightarrow> string \<Rightarrow> adb \<Rightarrow> start_result \<times> adb" where
  "StartOAuth e providers portalURL prov d =
     (case providers prov of
        None \<Rightarrow> (UnknownProvider, d)
      | Some None \<Rightarrow> (ProviderNotConfigured, d)
      | Some (Some p) \<Rightarrow>
          (case te_rand e ''nonce'' of None \<Rightarrow> (StartFailed, d) | Some nonce \<Rightarrow>
           let redirectURI = portalURL @ ''/auth/oauth/callback'' in
           case StoreState e nonce prov redirectURI d of
             Inl _ \<Rightarrow> (StartFailed, d)
           | Inr d1 \<Rightarrow> (AuthorizeURL (pv_authorize p nonce redirectURI), d1)))"

text \<open>The callback takes the nonce first and checks it afterwards.\<close>

definition callbackFinish ::
  "tenv \<Rightarrow> (string \<rightharpoonup> provider option) \<Rightarrow> string \<Rightarrow> string \<Rightarrow> OAuthState \<Rightarrow> adb \<Rightarrow> signin \<times> adb"
where
  "callbackFinish e providers prov code st d =
     (if te_now e ''callback'' > os_expires_at st then (BadRequest ''oauth.expired_state'', d)
      else if os_provider st \<noteq> prov then (BadRequest ''oauth.provider_mismatch'', d)
      else
        case providers prov of
          Some (Some p) \<Rightarrow>
            (case pv_exchange p code (os_redirect_uri st) of
               Inl ErrBadGrant \<Rightarrow> (BadRequest ''oauth.invalid_grant'', d)
             | Inl ErrUnverifiedEmail \<Rightarrow> (BadRequest ''oauth.unverified_email'', d)
             | Inl ErrProvider \<Rightarrow> (SignInFailed, d)
             | Inr ident \<Rightarrow> grant e ident (te_now e ''provision'') d)
        | _ \<Rightarrow> (BadRequest ''oauth.unknown_provider'', d))"

definition OauthCallback ::
  "tenv \<Rightarrow> (string \<rightharpoonup> provider option) \<Rightarrow> string \<Rightarrow> string \<Rightarrow> string \<Rightarrow> adb \<Rightarrow> signin \<times> adb"
where
  "OauthCallback e providers prov code nonce d =
     (case call (te_flt e) ''ConsumeOAuthState'' 0 (ConsumeOAuthState nonce d) of
        Inl ErrNotFound \<Rightarrow> (BadRequest ''oauth.invalid_state'', d)
      | Inl _ \<Rightarrow> (SignInFailed, d)
      | Inr (st, d1) \<Rightarrow> callbackFinish e providers prov code st d1)"

subsection \<open>Links are taken once\<close>

text \<open>A link row stays in its table with its identifier and hash, so that no link is issued under its identifier again.\<close>

definition link_key :: "MagicLinkToken \<Rightarrow> string \<times> string" where
  "link_key m = (ml_id m, ml_hash m)"

lemma link_key_used [simp]: "link_key (ml_used_at_update f m) = link_key m"
  by (simp add: link_key_def)

lemma stmt_links:
  "stmt d l d' \<Longrightarrow> set (map link_key (ad_magic d)) \<subseteq> set (map link_key (ad_magic d'))"
  by (erule stmt.cases) (auto simp: stmt_defs Let_def simp del: set_map split: if_splits option.splits)

lemma runs_links: "runs stmt d ls d' \<Longrightarrow> set (map link_key (ad_magic d)) \<subseteq> set (map link_key (ad_magic d'))"
  by (induction rule: runs.induct) (use stmt_links in blast)+

lemma stmt_link_stays_dead:
  "stmt d l d' \<Longrightarrow> i \<in> ml_id ` set (ad_magic d) \<and> \<not> live d (Link i) \<Longrightarrow> i \<in> ml_id ` set (ad_magic d') \<and> \<not> live d' (Link i)"
proof (intro conjI)
  assume st: "stmt d l d'" and i: "i \<in> ml_id ` set (ad_magic d) \<and> \<not> live d (Link i)"
  have "fst ` set (map link_key (ad_magic d)) \<subseteq> fst ` set (map link_key (ad_magic d'))" by (rule image_mono[OF stmt_links[OF st]])
  then show "i \<in> ml_id ` set (ad_magic d')" using i by (auto simp: link_key_def image_image)
  have "issued l \<noteq> Some (Link i)" using st i by (cases rule: stmt.cases) (auto simp: CreateMagicLinkToken_def split: if_splits)
  then show "\<not> live d' (Link i)" using stmt_keep_dead[OF st] i by blast
qed

lemma runs_link_stays_dead:
  "runs stmt d ls d' \<Longrightarrow> i \<in> ml_id ` set (ad_magic d) \<Longrightarrow> \<not> live d (Link i) \<Longrightarrow> \<not> live d' (Link i)"
  using runs_invariant[of stmt d ls d' "\<lambda>d. i \<in> ml_id ` set (ad_magic d) \<and> \<not> live d (Link i)"] stmt_link_stays_dead by blast

lemma exchangeConsume_takes:
  assumes "exchangeConsume e row d = (Inr (), d1)"
  shows "live d (Link (ml_id row)) \<and> \<not> live d1 (Link (ml_id row)) \<and> ml_id row \<in> ml_id ` set (ad_magic d1)"
proof -
  obtain n where c: "ConsumeMagicLinkToken (ml_id row) (te_now e ''exchange'') d = Inr (n, d1)" "n \<noteq> 0"
    using assms unfolding exchangeConsume_def by (auto split: sum.splits prod.splits if_splits dest!: call_Inr)
  then have t: "live d (Link (ml_id row))" "\<not> live d1 (Link (ml_id row))" using consume_link_takes by blast+
  then have "ml_id row \<in> ml_id ` set (ad_magic d)" unfolding live.simps spent_def by (metis imageI)
  moreover have "set (map ml_id (ad_magic d1)) = set (map ml_id (ad_magic d))"
    unfolding ConsumeMagicLinkTokenD(2)[OF c(1)] by (simp del: set_map)
  ultimately show ?thesis using t by simp
qed

lemma exchangeConsume_refuses: "exchangeConsume e row d = (Inl r, d1) \<Longrightarrow> r \<noteq> SignedIn p"
  unfolding exchangeConsume_def by (auto split: sum.splits prod.splits if_splits)

lemma exchangeFinish_takes:
  assumes "fst (exchangeFinish e row d) = SignedIn p"
  shows "live d (Link (ml_id row))"
proof (cases "exchangeConsume e row d")
  case (Pair r d1)
  show ?thesis
  proof (cases r)
    case (Inl x)
    then show ?thesis using assms Pair exchangeConsume_refuses[of e row d x d1 p] by (simp add: exchangeFinish_def)
  next
    case (Inr u)
    then show ?thesis using exchangeConsume_takes[of e row d d1] Pair by simp
  qed
qed

lemma exchangeLookup_row:
  assumes "exchangeLookup e tok d = Inr row"
  shows "row \<in> set (ad_magic d) \<and> ml_hash row = te_sha e tok"
proof (cases "call (te_flt e) ''GetMagicLinkTokenByHash'' 0 (GetMagicLinkTokenByHash d (te_sha e tok))")
  case (Inl x)
  then show ?thesis using assms by (cases x) (simp_all add: exchangeLookup_def)
next
  case (Inr r)
  then have "r = row" using assms by (simp add: exchangeLookup_def split: if_splits)
  then show ?thesis using one_row_Inr[OF call_Inr[OF Inr, unfolded GetMagicLinkTokenByHash_def]] by simp
qed

lemma same_link_same_id:
  assumes "auth_wf d0'" "runs stmt d0 ls d0'" "row \<in> set (ad_magic d0)" "row' \<in> set (ad_magic d0')" "ml_hash row = ml_hash row'"
  shows "ml_id row = ml_id row'"
proof -
  have "link_key row \<in> set (map link_key (ad_magic d0'))" using runs_links[OF assms(2)] assms(3) by auto
  then obtain m where m: "m \<in> set (ad_magic d0')" "ml_id m = ml_id row" "ml_hash m = ml_hash row" by (auto simp: link_key_def)
  then show ?thesis using keyed_inj[of ml_hash "ad_magic d0'" m row'] assms(1,4,5) by (auto simp: auth_wf_def creds_wf_def)
qed

text \<open>
  C8: A magic link signs in once.  When two requests hold the row of the same link, looked up at any two
  times, and one of them takes the link, the other does not sign in at any later time, whatever the
  other requests do and whatever the faults.
\<close>
theorem magic_link_single_use:
  assumes "auth_wf d0" "exchangeLookup e tok d0 = Inr row" "runs stmt d0 ls d0'" "exchangeLookup e' tok d0' = Inr row'"
    and "te_sha e' = te_sha e" "r1 \<in> {row, row'}" "r2 \<in> {row, row'}"
    and "exchangeConsume e1 r1 d = (Inr (), d1)" "runs stmt d1 ls' d2"
  shows "fst (exchangeFinish e2 r2 d2) \<noteq> SignedIn p"
proof
  assume "fst (exchangeFinish e2 r2 d2) = SignedIn p"
  then have l: "live d2 (Link (ml_id r2))" by (rule exchangeFinish_takes)
  have "ml_id row = ml_id row'"
    using same_link_same_id[OF runs_wf[OF assms(3,1)] assms(3)] exchangeLookup_row[OF assms(2)] exchangeLookup_row[OF assms(4)]
      assms(5) by simp
  then have "ml_id r2 = ml_id r1" using assms(6,7) by auto
  then show False using l exchangeConsume_takes[OF assms(8)] runs_link_stays_dead[OF assms(9)] by metis
qed

text \<open>
  An OAuth state is accepted once: after a callback has taken a nonce, no callback with it signs in
  unless the same nonce is issued again.
\<close>
theorem oauth_state_single_use:
  assumes "auth_wf d" "ConsumeOAuthState nonce d = Inr (st, d1)" "runs stmt d1 ls d2" "Issued (Nonce nonce) \<notin> set ls"
  shows "fst (OauthCallback e providers prov code nonce d2) \<noteq> SignedIn p"
proof
  assume "fst (OauthCallback e providers prov code nonce d2) = SignedIn p"
  then obtain st' d' where "ConsumeOAuthState nonce d2 = Inr (st', d')"
    unfolding OauthCallback_def by (auto split: sum.splits store_error.splits prod.splits dest!: call_Inr)
  then have l: "live d2 (Nonce nonce)" using consume_state_takes by blast
  have wf1: "auth_wf d1" by (rule stmt_wf[OF consume_state[OF assms(2)] assms(1)])
  have "occurrences issued (Nonce nonce) ls = 0"
    using assms(4) unfolding occurrences_def by (auto simp: filter_empty_conv elim!: issued.elims)
  then show False using creds.dead_stays_dead[OF runs_wstmt[OF assms(3) wf1], of "Nonce nonce"] consume_state_takes[OF assms(2)] l
    by blast
qed

subsection \<open>Provisioning\<close>

text \<open>The query behind \<open>lookupAccount\<close>.\<close>

definition account_of :: "Identity \<Rightarrow> Account \<Rightarrow> bool" where
  "account_of ident a \<longleftrightarrow>
     (case githubKey ident of Some gh \<Rightarrow> a_github_user_id a = Some gh | None \<Rightarrow> a_email a = id_email ident)"

lemma lookupAccount_eq: "lookupAccount e ident d = call (te_flt e) ''lookupAccount'' 0 (one_row (account_of ident) (d_accounts d))"
  unfolding lookupAccount_def account_of_def GetAccountByGitHubUserID_def GetAccountByEmail_def one_row_def
  by (auto simp: db.defs split: option.splits)

lemma one_row_append: "one_row P rs = Inl x \<Longrightarrow> P r \<Longrightarrow> one_row P (rs @ [r]) = Inr r"
  by (induction rs) (auto simp: one_row_def split: if_splits option.splits)

lemma call_NotFound: "call flt site n r = Inl ErrNotFound \<Longrightarrow> r = Inl ErrNotFound"
  by (auto simp: call_def split: if_splits)

lemma CreateAccountD:
  assumes "CreateAccount i em nm gh at d = Inr (a, d1)"
  shows "a_id a = i" "a_email a = em" "a_github_user_id a = gh" "d1 = d\<lparr>d_accounts := d_accounts d @ [a]\<rparr>" "i \<notin> account_ids d"
  using assms by (auto simp: CreateAccount_def insertAccount_def Let_def split: if_splits sum.splits)

lemma CreateOrgWithSlugD:
  assumes "CreateOrgWithSlug e name now d = (r, d1)"
  shows "(\<exists>x. r = Inl x \<and> d1 = d) \<or> (\<exists>org. r = Inr org \<and> o_id org \<notin> o_id ` set (ad_orgs d) \<and> d1 = d\<lparr>ad_orgs := ad_orgs d @ [org]\<rparr>)"
  using assms unfolding CreateOrgWithSlug_def CreateOrg_def
  by (auto simp: Let_def call_def newOrg_def split: sum.splits if_splits)

lemma new_account_orgs:
  assumes "auth_wf d" "i \<notin> account_ids d"
  shows "filter (\<lambda>r. (o_id r, i) \<in> set (d_org_members d)) orgs = []"
proof -
  have "(x, i) \<notin> set (d_org_members d)" for x using assms by (force simp: auth_wf_def orgs_wf_def refers_def)
  then show ?thesis by simp
qed

lemma primaryOrgD:
  assumes "primaryOrg e acc d = Inr org"
  shows "\<exists>os. ListOrgsForAccount d acc = Inr (org # os)"
proof (cases "call (te_flt e) ''ListOrgsForAccount'' 0 (ListOrgsForAccount d acc)")
  case (Inr os)
  then show ?thesis using assms call_Inr[OF Inr] by (cases os) (simp_all add: primaryOrg_def)
qed (use assms in \<open>simp add: primaryOrg_def\<close>)

text \<open>What \<open>createAccountAndOrg\<close> leaves behind.\<close>

lemma createAccountAndOrgD:
  assumes wf: "auth_wf d" and c: "createAccountAndOrg e ident now d = (r, d3)"
  shows "d3 = d \<and> (\<exists>x. r = Inl x)
    \<or> (\<exists>a. d_accounts d3 = d_accounts d @ [a] \<and> account_of ident a
         \<and> (case r of Inl x \<Rightarrow> ListOrgsForAccount d3 (a_id a) = Inr []
            | Inr (a', org) \<Rightarrow> a' = a \<and> ListOrgsForAccount d3 (a_id a) = Inr [org]))"
proof (cases "call (te_flt e) ''CreateAccount'' 0 (CreateAccount (te_uuid e ''account'') (id_email ident)
    (if id_display_name ident = [] then emailPrefix (id_email ident) else id_display_name ident) (githubKey ident) now d)")
  case (Inl x)
  then show ?thesis using c by (auto simp: createAccountAndOrg_def)
next
  case (Inr ad)
  obtain a d1 where ad: "ad = (a, d1)" by (cases ad)
  note A = CreateAccountD[OF call_Inr[OF Inr[unfolded ad]]]
  have of: "account_of ident a" using A(2,3) by (simp add: account_of_def split: option.splits)
  obtain ro d2 where co: "CreateOrgWithSlug e (emailPrefix (id_email ident)) now d1 = (ro, d2)"
    by (cases "CreateOrgWithSlug e (emailPrefix (id_email ident)) now d1")
  have none: "filter (\<lambda>r. (o_id r, a_id a) \<in> set (d_org_members d)) orgs = []" for orgs
    using new_account_orgs[OF wf A(5)] A(1) by simp
  have cc: "createAccountAndOrg e ident now d =
      (case ro of Inl x \<Rightarrow> (Inl x, d2)
       | Inr org \<Rightarrow> (case call (te_flt e) ''AddOrgMember'' 0 (AddOrgMember (o_id org) (te_uuid e ''account'') d2) of
                    Inl x \<Rightarrow> (Inl (ProvisionStore x), d2) | Inr d3 \<Rightarrow> (Inr (a, org), d3)))"
    using Inr ad co by (simp add: createAccountAndOrg_def)
  from CreateOrgWithSlugD[OF co] show ?thesis
  proof (elim disjE exE conjE)
    fix x assume x: "ro = Inl x" "d2 = d1"
    have "ListOrgsForAccount d2 (a_id a) = Inr []" by (simp add: ListOrgsForAccount_def x(2) A(4) none)
    moreover have "r = Inl x" "d3 = d2" using c cc x(1) by simp_all
    moreover have "d_accounts d2 = d_accounts d @ [a]" by (simp add: x(2) A(4))
    ultimately show ?thesis using of by (intro disjI2 exI[of _ a]) simp
  next
    fix org assume o1: "ro = Inr org" and fresh: "o_id org \<notin> o_id ` set (ad_orgs d1)" and d2: "d2 = d1\<lparr>ad_orgs := ad_orgs d1 @ [org]\<rparr>"
    show ?thesis
    proof (cases "call (te_flt e) ''AddOrgMember'' 0 (AddOrgMember (o_id org) (te_uuid e ''account'') d2)")
      case (Inl x)
      have "ListOrgsForAccount d2 (a_id a) = Inr []" by (simp add: ListOrgsForAccount_def d2 A(4) none)
      moreover have "r = Inl (ProvisionStore x)" "d3 = d2" using c cc o1 Inl by simp_all
      moreover have "d_accounts d2 = d_accounts d @ [a]" by (simp add: d2 A(4))
      ultimately show ?thesis using of by (intro disjI2 exI[of _ a]) simp
    next
      case (Inr d4)
      have d4: "d4 = d2\<lparr>d_org_members := d_org_members d2 @ [(o_id org, a_id a)]\<rparr>"
        using call_Inr[OF Inr] A(1) by (auto simp: AddOrgMember_def split: if_splits)
      have "filter (\<lambda>r. (o_id r, a_id a) \<in> set (d_org_members d4)) (ad_orgs d4) = [org]"
        using fresh none[of "ad_orgs d"] A(4) unfolding d4 d2 by (auto simp: filter_empty_conv image_iff)
      then have "ListOrgsForAccount d4 (a_id a) = Inr [org]" by (simp add: ListOrgsForAccount_def)
      moreover have "r = Inr (a, org)" "d3 = d4" using c cc o1 Inr by simp_all
      moreover have "d_accounts d4 = d_accounts d @ [a]" by (simp add: d4 d2 A(4))
      ultimately show ?thesis using of by (intro disjI2 exI[of _ a]) simp
    qed
  qed
qed

text \<open>
  Signing in again leads to the same account.  After a successful provisioning the same identity finds the
  same account and organisation, when no statement fails.
\<close>
theorem provision_idempotent:
  assumes "auth_wf d" "FindOrProvisionAt e ident now d = (Inr (a, org), d1)" "te_flt e' = no_faults"
  shows "FindOrProvisionAt e' ident now' d1 = (Inr (a, org), d1)"
proof (cases "lookupAccount e ident d")
  case (Inr a')
  then have f: "one_row (account_of ident) (d_accounts d) = Inr a'" by (simp add: lookupAccount_eq call_Inr)
  have p: "primaryOrg e (a_id a') d = Inr org" "a' = a" "d1 = d"
    using assms(2) Inr by (simp_all add: FindOrProvisionAt_def split: sum.splits)
  obtain os where "ListOrgsForAccount d (a_id a') = Inr (org # os)" using primaryOrgD[OF p(1)] by blast
  with p(2,3) have "ListOrgsForAccount d (a_id a') = Inr (org # os)" "a' = a" "d1 = d" by simp_all
  then show ?thesis using f assms(3) by (simp add: FindOrProvisionAt_def lookupAccount_eq primaryOrg_def)
next
  case (Inl x)
  then have x: "x = ErrNotFound" and c: "createAccountAndOrg e ident now d = (Inr (a, org), d1)"
    using assms(2) by (auto simp: FindOrProvisionAt_def split: if_splits)
  have f: "one_row (account_of ident) (d_accounts d) = Inl ErrNotFound" using Inl x by (simp add: lookupAccount_eq call_NotFound)
  from createAccountAndOrgD[OF assms(1) c] have "d_accounts d1 = d_accounts d @ [a]" "account_of ident a"
    "ListOrgsForAccount d1 (a_id a) = Inr [org]" by auto
  then show ?thesis using one_row_append[OF f] assms(3) by (simp add: FindOrProvisionAt_def lookupAccount_eq primaryOrg_def)
qed


subsection \<open>Witnesses\<close>

definition demo_link :: MagicLinkToken where
  "demo_link = \<lparr>ml_id = ''1magic'', ml_hash = ''1magic'', ml_email = ''ann@x.org'', ml_issued_at = 0,
     ml_expires_at = 900000000000, ml_used_at = None\<rparr>"

definition demo_linked :: adb where
  "demo_linked = snd (RequestMagicLink (demo_tenv ''1'') (\<lambda>_ _. Sent) ''https://p'' ''ann@x.org'' empty_adb)"

lemma demo_linked_eq: "demo_linked = empty_adb\<lparr>ad_magic := [demo_link]\<rparr>"
  by (simp add: demo_linked_def RequestMagicLink_def demo_tenv_def demo_link_def reservedMagicLinkDomains_def HasSuffix_def
      ToLowerASCII_def to_lower_byte_def CreateMagicLinkToken_def magicLinkTTL_def empty_adb_def Let_def)

lemma demo_linked_wf: "auth_wf demo_linked"
  by (simp add: demo_linked_eq auth_wf_def accounts_wf_def tokens_wf_def creds_wf_def orgs_wf_def keyed_def empty_adb_def)

theorem magic_link_single_use_witness:
  "\<forall>p. fst (exchangeFinish (demo_tenv ''3'') demo_link (snd (exchangeConsume (demo_tenv ''2'') demo_link demo_linked))) \<noteq> SignedIn p"
proof -
  have l: "exchangeLookup (demo_tenv ''2'') ''1magic'' demo_linked = Inr demo_link"
    by (simp add: exchangeLookup_def demo_linked_eq GetMagicLinkTokenByHash_def one_row_def demo_tenv_def demo_link_def)
  have c: "exchangeConsume (demo_tenv ''2'') demo_link demo_linked
      = (Inr (), snd (exchangeConsume (demo_tenv ''2'') demo_link demo_linked))"
    by (simp add: exchangeConsume_def demo_linked_eq ConsumeMagicLinkToken_def demo_tenv_def demo_link_def Let_def)
  show ?thesis using magic_link_single_use[OF demo_linked_wf l runs_refl l refl _ _ c runs_refl] by simp
qed

definition demo_state :: OAuthState where
  "demo_state = \<lparr>os_nonce = ''n'', os_provider = ''github'', os_redirect_uri = ''https://p'', os_created_at = 0, os_expires_at = 5\<rparr>"

theorem oauth_state_single_use_witness:
  "\<forall>p. fst (OauthCallback (demo_tenv ''2'') Map.empty ''github'' ''c'' ''n'' empty_adb) \<noteq> SignedIn p"
proof -
  let ?d = "empty_adb\<lparr>ad_states := [demo_state]\<rparr>"
  have wf: "auth_wf ?d"
    by (simp add: auth_wf_def accounts_wf_def tokens_wf_def creds_wf_def orgs_wf_def keyed_def empty_adb_def)
  have "ConsumeOAuthState ''n'' ?d = Inr (demo_state, empty_adb)"
    by (simp add: ConsumeOAuthState_def demo_state_def empty_adb_def)
  then show ?thesis using oauth_state_single_use[OF wf _ runs_refl] by auto
qed

definition demo_ann :: Identity where
  "demo_ann = \<lparr>id_provider = ''magic-link'', id_provider_id = [], id_email = ''ann@x.org'', id_display_name = ''ann''\<rparr>"

lemmas demo_provision_defs =
  FindOrProvisionAt_def lookupAccount_def githubKey_def createAccountAndOrg_def CreateAccount_def insertAccount_def
  CreateOrgWithSlug_def CreateOrg_def newOrg_def AddOrgMember_def GetAccountByEmail_def db.defs emailPrefix_def
  demo_ann_def demo_tenv_def empty_adb_def Let_def call_def no_faults_def

theorem provision_idempotent_witness:
  "\<exists>a org d. FindOrProvisionAt (demo_tenv ''1'') demo_ann 0 empty_adb = (Inr (a, org), d)
     \<and> FindOrProvisionAt (demo_tenv ''2'') demo_ann 7 d = (Inr (a, org), d)"
proof -
  have "\<exists>a org d. FindOrProvisionAt (demo_tenv ''1'') demo_ann 0 empty_adb = (Inr (a, org), d)"
    by (simp add: demo_provision_defs)
  then show ?thesis using provision_idempotent[OF empty_adb_wf] by (metis demo_tenv_def tenv.select_convs(1))
qed


end
