(* ===== verification/SessionResume.thy ===== *)
theory SessionResume
  imports Tokens
begin

text \<open>
  Session resume (\<^verbatim>\<open>internal/portal/sessionresume\<close>): a member of a session mints a link that lives for a minute
  and is exchanged once, without further authentication, for a credential of the same account.  How the
  link is put into a URL is the parameter \<open>compose\<close> (\<^verbatim>\<open>net/url\<close>), which may fail.
\<close>

definition resumeTokenTTL :: time where "resumeTokenTTL = 60 * 1000000000"

definition playgroundOrgID :: string where "playgroundOrgID = ''org_playground''"

datatype resumeVerdict = ResumeOK | ResumeNotOrgMember | ResumeNotSessionMember | ResumeSessionNotFound

definition checkResumeMembership :: "tenv \<Rightarrow> string \<Rightarrow> string \<Rightarrow> string \<Rightarrow> adb \<Rightarrow> store_error + resumeVerdict" where
  "checkResumeMembership e org sid acc d =
     (let member =
        (case call (te_flt e) ''GetSessionMember'' 0 (GetSessionMember (db.truncate d) org sid acc) of
           Inr _ \<Rightarrow> Inr ResumeOK
         | Inl ErrNotFound \<Rightarrow>
             (case call (te_flt e) ''GetSession'' 0 (GetSession (db.truncate d) org sid) of
                Inl ErrNotFound \<Rightarrow> Inr ResumeSessionNotFound
              | Inl x \<Rightarrow> Inl x
              | Inr _ \<Rightarrow> Inr ResumeNotSessionMember)
         | Inl x \<Rightarrow> Inl x) in
      if org = playgroundOrgID then member
      else case call (te_flt e) ''GetOrgMember'' 0 (GetOrgMember (db.truncate d) org acc) of
             Inl ErrNotFound \<Rightarrow> Inr ResumeNotOrgMember
           | Inl x \<Rightarrow> Inl x
           | Inr _ \<Rightarrow> member)"

datatype mint_result = ResumeURL string | MintUnauthorized | MintForbidden | MintNotFound | MintFailed

definition CreateSessionResume ::
  "tenv \<Rightarrow> (string \<Rightarrow> string \<Rightarrow> string \<Rightarrow> string option) \<Rightarrow> Account option \<Rightarrow> string \<Rightarrow> string \<Rightarrow> adb \<Rightarrow> mint_result \<times> adb"
where
  "CreateSessionResume e compose ctx org sid d =
     (case ctx of None \<Rightarrow> (MintUnauthorized, d) | Some acc \<Rightarrow>
      case checkResumeMembership e org sid (a_id acc) d of
        Inl _ \<Rightarrow> (MintFailed, d)
      | Inr ResumeNotOrgMember \<Rightarrow> (MintForbidden, d)
      | Inr ResumeNotSessionMember \<Rightarrow> (MintForbidden, d)
      | Inr ResumeSessionNotFound \<Rightarrow> (MintNotFound, d)
      | Inr ResumeOK \<Rightarrow>
          (case te_rand e ''resume'' of None \<Rightarrow> (MintFailed, d) | Some raw \<Rightarrow>
           let now = te_now e ''mint'' in
           case call (te_flt e) ''CreateResumeToken'' 0
                  (CreateResumeToken \<lparr>rt_id = te_uuid e ''resume'', rt_hash = te_sha e raw, rt_session = sid, rt_org = org,
                     rt_account = a_id acc, rt_issued_at = now, rt_expires_at = now + resumeTokenTTL, rt_used_at = None\<rparr> d) of
             Inl _ \<Rightarrow> (MintFailed, d)
           | Inr d1 \<Rightarrow>
               (case compose org sid raw of Some url \<Rightarrow> (ResumeURL url, d1) | None \<Rightarrow> (MintFailed, d1))))"

datatype resume_kind = Playground | Durable

record resumed =
  rs_bearer :: string
  rs_expires_at :: time
  rs_session :: string
  rs_org :: string
  rs_kind :: resume_kind
  rs_account :: string
  rs_display_name :: string

datatype exchange_result = Resumed resumed | GenericFailure | ExchangeFailed

definition hashResumeToken :: "tenv \<Rightarrow> string \<Rightarrow> string" where
  "hashResumeToken e raw = te_sha e raw"

definition remainingSessionTTL :: "tenv \<Rightarrow> string \<Rightarrow> string \<Rightarrow> time \<Rightarrow> adb \<Rightarrow> store_error + time" where
  "remainingSessionTTL e org sid now d =
     (case call (te_flt e) ''TTL GetSession'' 0 (GetSession (db.truncate d) org sid) of
        Inl ErrNotFound \<Rightarrow> Inr 0
      | Inl x \<Rightarrow> Inl x
      | Inr sess \<Rightarrow>
          if s_status sess = ''ended'' \<or> s_status sess = ''archived'' then Inr 0
          else case s_hard_cap_at sess of
                 Some cap \<Rightarrow> Inr (if cap - now \<le> 0 then 0 else cap - now)
               | None \<Rightarrow> Inr resumeTokenTTL)"

definition issuePlaygroundCredential :: "tenv \<Rightarrow> ResumeToken \<Rightarrow> Account \<Rightarrow> time \<Rightarrow> adb \<Rightarrow> exchange_result \<times> adb" where
  "issuePlaygroundCredential e consumed acct now d =
     (case remainingSessionTTL e (rt_org consumed) (rt_session consumed) now d of
        Inl _ \<Rightarrow> (ExchangeFailed, d)
      | Inr ttl \<Rightarrow>
          if ttl \<le> 0 then (GenericFailure, d)
          else case IssueAnonymousSessionBearerForExistingAccount e (a_id acct) (rt_session consumed) ttl d of
                 (Inl ErrForbidden, d1) \<Rightarrow> (GenericFailure, d1)
               | (Inl _, d1) \<Rightarrow> (ExchangeFailed, d1)
               | (Inr (raw, expiresAt), d1) \<Rightarrow>
                   (Resumed \<lparr>rs_bearer = raw, rs_expires_at = expiresAt, rs_session = rt_session consumed, rs_org = rt_org consumed,
                      rs_kind = Playground, rs_account = a_id acct, rs_display_name = a_display_name acct\<rparr>, d1))"

definition issueDurableCredential :: "tenv \<Rightarrow> ResumeToken \<Rightarrow> Account \<Rightarrow> adb \<Rightarrow> exchange_result \<times> adb" where
  "issueDurableCredential e consumed acct d =
     (case IssueShortLived e (a_id acct) AccessTokenTTL d of
        (Inl _, d1) \<Rightarrow> (ExchangeFailed, d1)
      | (Inr (raw, expiresAt), d1) \<Rightarrow>
          (Resumed \<lparr>rs_bearer = raw, rs_expires_at = expiresAt, rs_session = rt_session consumed, rs_org = rt_org consumed,
             rs_kind = Durable, rs_account = a_id acct, rs_display_name = a_display_name acct\<rparr>, d1))"

text \<open>\<^verbatim>\<open>ExchangeSessionResume\<close> behind the statement that takes the token.\<close>

definition exchangeConsumed :: "tenv \<Rightarrow> ResumeToken \<Rightarrow> time \<Rightarrow> adb \<Rightarrow> exchange_result \<times> adb" where
  "exchangeConsumed e consumed now d =
     (case call (te_flt e) ''GetAccountByID'' 0 (GetAccountByID d (rt_account consumed)) of
        Inl ErrNotFound \<Rightarrow> (GenericFailure, d)
      | Inl _ \<Rightarrow> (ExchangeFailed, d)
      | Inr acct \<Rightarrow>
          if a_is_anonymous acct then issuePlaygroundCredential e consumed acct now d
          else issueDurableCredential e consumed acct d)"

definition ExchangeSessionResume :: "tenv \<Rightarrow> string \<Rightarrow> adb \<Rightarrow> exchange_result \<times> adb" where
  "ExchangeSessionResume e rawToken d =
     (let now = te_now e ''exchange'' in
      case call (te_flt e) ''ConsumeResumeToken'' 0 (ConsumeResumeToken (hashResumeToken e rawToken) now d) of
        Inl ErrNotFound \<Rightarrow> (GenericFailure, d)
      | Inl _ \<Rightarrow> (ExchangeFailed, d)
      | Inr (consumed, d1) \<Rightarrow> exchangeConsumed e consumed now d1)"

subsection \<open>Properties\<close>

lemma ExchangeSessionResume_takes:
  assumes "fst (ExchangeSessionResume e raw d) = Resumed r"
  shows "\<exists>consumed d1. ConsumeResumeToken (hashResumeToken e raw) (te_now e ''exchange'') d = Inr (consumed, d1)
           \<and> fst (exchangeConsumed e consumed (te_now e ''exchange'') d1) = Resumed r"
proof (cases "call (te_flt e) ''ConsumeResumeToken'' 0 (ConsumeResumeToken (hashResumeToken e raw) (te_now e ''exchange'') d)")
  case (Inl x)
  then show ?thesis using assms by (cases x) (simp_all add: ExchangeSessionResume_def)
next
  case (Inr cd)
  then show ?thesis using assms call_Inr[OF Inr] by (cases cd) (simp add: ExchangeSessionResume_def)
qed

text \<open>
  A resume token is exchanged once.  After one request has taken it, no request with the same token is
  answered with a credential, whatever requests run in between, unless the same token is minted again.
\<close>
theorem resume_token_single_use:
  assumes "auth_wf d" "ConsumeResumeToken (hashResumeToken e raw) now d = Inr (consumed, d1)" "runs stmt d1 ls d2"
    and "Issued (Resume (hashResumeToken e raw)) \<notin> set ls" "te_sha e' = te_sha e"
  shows "fst (ExchangeSessionResume e' raw d2) \<noteq> Resumed r"
proof
  assume "fst (ExchangeSessionResume e' raw d2) = Resumed r"
  then obtain c d3 where c: "ConsumeResumeToken (hashResumeToken e' raw) (te_now e' ''exchange'') d2 = Inr (c, d3)"
    using ExchangeSessionResume_takes by blast
  have wf1: "auth_wf d1" by (rule stmt_wf[OF consume_resume[OF assms(2)] assms(1)])
  have l: "live d2 (Resume (hashResumeToken e raw))"
    using consume_resume_takes[OF runs_wf[OF assms(3) wf1] c] assms(5) by (simp add: hashResumeToken_def)
  have "occurrences issued (Resume (hashResumeToken e raw)) ls = 0"
    using assms(4) unfolding occurrences_def by (auto simp: filter_empty_conv elim!: issued.elims)
  then show False
    using creds.dead_stays_dead[OF runs_wstmt[OF assms(3) wf1], of "Resume (hashResumeToken e raw)"]
      consume_resume_takes[OF assms(1,2)] l by blast
qed

lemma exchangeConsumed_account:
  assumes "fst (exchangeConsumed e c now d) = Resumed r"
  shows "rs_account r = rt_account c" "rs_session r = rt_session c" "rs_org r = rt_org c"
proof -
  obtain acct where g: "call (te_flt e) ''GetAccountByID'' 0 (GetAccountByID d (rt_account c)) = Inr acct"
    and f: "fst (if a_is_anonymous acct then issuePlaygroundCredential e c acct now d else issueDurableCredential e c acct d) = Resumed r"
    using assms unfolding exchangeConsumed_def by (auto split: sum.splits store_error.splits)
  have "a_id acct = rt_account c" using one_row_Inr[OF call_Inr[OF g, unfolded GetAccountByID_def]] by simp
  then show "rs_account r = rt_account c" "rs_session r = rt_session c" "rs_org r = rt_org c"
    using f by (auto simp: issuePlaygroundCredential_def issueDurableCredential_def split: if_splits sum.splits prod.splits token_err.splits)
qed

text \<open>The data of a resume token never change.\<close>

definition resume_data :: "ResumeToken \<Rightarrow> string \<times> string \<times> string \<times> time" where
  "resume_data t = (rt_session t, rt_org t, rt_account t, rt_expires_at t)"

definition resume_fixed :: "string \<Rightarrow> string \<times> string \<times> string \<times> time \<Rightarrow> ResumeToken list \<Rightarrow> bool" where
  "resume_fixed h v rs \<longleftrightarrow> (\<forall>t \<in> set rs. rt_hash t = h \<longrightarrow> resume_data t = v)"

lemma resume_data_used [simp]: "resume_data (rt_used_at_update f t) = resume_data t"
  by (simp add: resume_data_def)

lemma resume_fixed_simps [simp]:
  "resume_fixed h v (rs @ [t]) \<longleftrightarrow> resume_fixed h v rs \<and> (rt_hash t = h \<longrightarrow> resume_data t = v)"
  "resume_fixed h v rs \<Longrightarrow> resume_fixed h v (filter P rs)"
  "resume_fixed h v rs \<Longrightarrow> resume_fixed h v (update_rows P (rt_used_at_update f) rs)"
  by (auto simp: resume_fixed_def update_rows_def)

lemma resume_fixed_fresh: "h \<notin> rt_hash ` set rs \<Longrightarrow> resume_fixed h v rs"
  unfolding resume_fixed_def by (metis imageI)

lemma stmt_resume_fixed:
  "stmt d l d' \<Longrightarrow> resume_fixed h v (ad_resume d) \<Longrightarrow> l \<noteq> Issued (Resume h) \<Longrightarrow> resume_fixed h v (ad_resume d')"
  by (erule stmt.cases) (auto simp: stmt_defs Let_def split: if_splits option.splits)

lemma runs_resume_fixed:
  "runs stmt d ls d' \<Longrightarrow> resume_fixed h v (ad_resume d) \<Longrightarrow> Issued (Resume h) \<notin> set ls \<Longrightarrow> resume_fixed h v (ad_resume d')"
  by (induction rule: runs.induct) (simp, metis list.set_intros stmt_resume_fixed)

lemma minted:
  assumes wf: "auth_wf d" and c: "CreateSessionResume e compose ctx org sid d = (ResumeURL url, d1)" and raw: "te_rand e ''resume'' = Some raw"
  obtains acc m where "ctx = Some acc" "m \<in> set (d_session_members d)" "sm_session m = sid" "sm_org m = org" "sm_account m = a_id acc"
    "auth_wf d1" "resume_fixed (te_sha e raw) (sid, org, a_id acc, te_now e ''mint'' + resumeTokenTTL) (ad_resume d1)"
proof -
  obtain acc where acc: "ctx = Some acc" using c by (cases ctx) (simp_all add: CreateSessionResume_def)
  define t where "t = \<lparr>rt_id = te_uuid e ''resume'', rt_hash = te_sha e raw, rt_session = sid, rt_org = org, rt_account = a_id acc,
    rt_issued_at = te_now e ''mint'', rt_expires_at = te_now e ''mint'' + resumeTokenTTL, rt_used_at = None\<rparr>"
  have v: "checkResumeMembership e org sid (a_id acc) d = Inr ResumeOK"
    using c unfolding acc CreateSessionResume_def by (auto split: sum.splits resumeVerdict.splits)
  have "\<exists>m. GetSessionMember (db.truncate d) org sid (a_id acc) = Inr m"
    using v unfolding checkResumeMembership_def
    by (auto simp: Let_def split: if_splits sum.splits store_error.splits dest!: call_Inr)
  then obtain m where m: "m \<in> set (d_session_members d)" "sm_session m = sid" "sm_org m = org" "sm_account m = a_id acc"
    by (auto simp: GetSessionMember_def db.defs split: option.splits dest!: find_Some_iff')
  have ins: "CreateResumeToken t d = Inr d1"
    using c v unfolding acc CreateSessionResume_def t_def
    by (auto simp: raw Let_def split: sum.splits option.splits dest!: call_Inr)
  have wf1: "auth_wf d1" by (rule stmt_wf[OF create_resume[OF ins] wf])
  have d1: "d1 = d\<lparr>ad_resume := ad_resume d @ [t]\<rparr>" and new: "rt_hash t \<notin> rt_hash ` set (ad_resume d)"
    using ins by (auto simp: CreateResumeToken_def split: if_splits)
  have "resume_fixed (te_sha e raw) (sid, org, a_id acc, te_now e ''mint'' + resumeTokenTTL) (ad_resume d1)"
    using resume_fixed_fresh[OF new] unfolding d1 by (simp add: t_def resume_data_def)
  then show ?thesis using that[OF acc m wf1] by blast
qed


subsection \<open>Witnesses\<close>

text \<open>A session of an organisation with one member, who resumes it.\<close>

definition demo_member_db :: adb where
  "demo_member_db = demo_adb\<lparr>ad_orgs := [\<lparr>o_id = ''o'', o_name = ''o'', o_slug = ''o'', o_created_at = 0\<rparr>],
     d_org_members := [(''o'', ''acc'')],
     d_session_members := [\<lparr>sm_org = ''o'', sm_session = ''s'', sm_account = ''acc'', sm_role = ''creator'', sm_joined_at = 0\<rparr>],
     d_sessions := [''s'' \<mapsto> \<lparr>s_id = ''s'', s_org = ''o'', s_name = ''n'', s_goal = ''g'', s_writable_scope = ''[]'',
       s_default_mode = ''sync'', s_base_sha = None, s_status = ''active'', s_created_at = 0, s_ended_at = None,
       s_end_reason = None, s_finalize_locked_by = None, s_last_activity_at = None, s_hard_cap_at = None, s_idle_timeout_at = None\<rparr>]\<rparr>"

definition demo_minted :: adb where
  "demo_minted = snd (CreateSessionResume (demo_tenv ''1'') (\<lambda>_ _ r. Some r) (Some (hd (d_accounts demo_adb))) ''o'' ''s'' demo_member_db)"

lemmas demo_resume_defs =
  CreateSessionResume_def checkResumeMembership_def GetOrgMember_def GetSessionMember_def db.defs playgroundOrgID_def
  CreateResumeToken_def resumeTokenTTL_def demo_member_db_def ExchangeSessionResume_def hashResumeToken_def
  ConsumeResumeToken_def exchangeConsumed_def issueDurableCredential_def IssueShortLived_def

lemma demo_member_wf: "auth_wf demo_member_db"
  by (simp add: auth_wf_def accounts_wf_def tokens_wf_def creds_wf_def orgs_wf_def keyed_def refers_def demo_member_db_def
      demo_adb_def empty_adb_def)

lemma demo_mint:
  "CreateSessionResume (demo_tenv ''1'') (\<lambda>_ _ r. Some r) (Some (hd (d_accounts demo_adb))) ''o'' ''s'' demo_member_db
     = (ResumeURL ''1resume'', demo_minted)"
  by (simp add: demo_minted_def demo_resume_defs demo_token_defs)


theorem resume_token_single_use_witness:
  "\<exists>c d1. ConsumeResumeToken ''1resume'' 0 demo_minted = Inr (c, d1)
     \<and> (\<forall>r. fst (ExchangeSessionResume (demo_tenv ''2'') ''1resume'' d1) \<noteq> Resumed r)"
proof -
  have wf: "auth_wf demo_minted"
    using minted[OF demo_member_wf demo_mint, of "''1resume''"] by (simp add: demo_tenv_def)
  have "\<exists>c d1. ConsumeResumeToken (hashResumeToken (demo_tenv ''1'') ''1resume'') 0 demo_minted = Inr (c, d1)"
    by (simp add: demo_minted_def demo_resume_defs demo_token_defs)
  then obtain c d1 where c: "ConsumeResumeToken (hashResumeToken (demo_tenv ''1'') ''1resume'') 0 demo_minted = Inr (c, d1)" by blast
  then show ?thesis using resume_token_single_use[OF wf c runs_refl, of "demo_tenv ''2''"] by (simp add: hashResumeToken_def demo_tenv_def)
qed

end
