(* ===== verification/WSTickets.thy ===== *)
theory WSTickets
  imports SingleUse StoreTypes
begin

text \<open>
  The tickets that authenticate a WebSocket upgrade (\<^verbatim>\<open>internal/portal/wsgateway/tickets.go\<close>): issued to an account,
  valid for a minute, consumed by one atomic load-and-delete, and swept by a janitor.  Requests and the
  janitor interleave; each operation on the concurrent map is one step, with the time at which it reads
  the clock.  The ticket text is drawn at random, and drawing it may fail.
\<close>

definition TicketTTL :: time where "TicketTTL = 60 * 1000000000"

record ticket =
  ti_account :: Account
  ti_expires_at :: time

record TicketStore =
  ts_entries :: "string \<rightharpoonup> ticket"
  ts_started :: bool
  ts_stopped :: bool

definition NewTicketStore :: TicketStore where
  "NewTicketStore = \<lparr>ts_entries = Map.empty, ts_started = False, ts_stopped = False\<rparr>"

definition Start :: "TicketStore \<Rightarrow> TicketStore" where
  "Start ts = (if ts_started ts then ts else ts\<lparr>ts_started := True\<rparr>)"

definition Stop :: "TicketStore \<Rightarrow> TicketStore" where
  "Stop ts = (if \<not> ts_started ts then ts else ts\<lparr>ts_stopped := True\<rparr>)"

definition IssueTicket :: "string option \<Rightarrow> time \<Rightarrow> Account \<Rightarrow> TicketStore \<Rightarrow> (string \<times> time) option \<times> TicketStore" where
  "IssueTicket rnd now acct ts =
     (case rnd of
        None \<Rightarrow> (None, ts)
      | Some tok \<Rightarrow>
          (Some (tok, TicketTTL),
           ts\<lparr>ts_entries := (ts_entries ts)(tok \<mapsto> \<lparr>ti_account = acct, ti_expires_at = now + TicketTTL\<rparr>)\<rparr>))"

definition Consume :: "string \<Rightarrow> time \<Rightarrow> TicketStore \<Rightarrow> Account option \<times> TicketStore" where
  "Consume tok now ts =
     (case ts_entries ts tok of
        None \<Rightarrow> (None, ts)
      | Some t \<Rightarrow>
          (if now > ti_expires_at t then None else Some (ti_account t), ts\<lparr>ts_entries := (ts_entries ts)(tok := None)\<rparr>))"

text \<open>The janitor's visit of one key.\<close>

definition sweepEntry :: "string \<Rightarrow> time \<Rightarrow> TicketStore \<Rightarrow> TicketStore" where
  "sweepEntry tok now ts =
     (case ts_entries ts tok of
        Some t \<Rightarrow> if ti_expires_at t < now then ts\<lparr>ts_entries := (ts_entries ts)(tok := None)\<rparr> else ts
      | None \<Rightarrow> ts)"

subsection \<open>Interleavings\<close>

datatype ticket_event = Handed string | Redeemed string | Missed string | Swept string time | Switched

fun handed :: "ticket_event \<Rightarrow> string option" where
  "handed (Handed tok) = Some tok"
| "handed _ = None"

fun redeemed :: "ticket_event \<Rightarrow> string option" where
  "redeemed (Redeemed tok) = Some tok"
| "redeemed _ = None"

inductive ticket_step :: "TicketStore \<Rightarrow> ticket_event \<Rightarrow> TicketStore \<Rightarrow> bool" where
  t_issue: "IssueTicket rnd now acct ts = (Some (tok, ttl), ts') \<Longrightarrow> ticket_step ts (Handed tok) ts'"
| t_redeem: "Consume tok now ts = (Some acct, ts') \<Longrightarrow> ticket_step ts (Redeemed tok) ts'"
| t_miss: "Consume tok now ts = (None, ts') \<Longrightarrow> ticket_step ts (Missed tok) ts'"
| t_sweep: "ts_started ts \<Longrightarrow> \<not> ts_stopped ts \<Longrightarrow> ticket_step ts (Swept tok now) (sweepEntry tok now ts)"
| t_start: "ticket_step ts Switched (Start ts)"
| t_stop: "ticket_step ts Switched (Stop ts)"

definition outstanding :: "TicketStore \<Rightarrow> string \<Rightarrow> bool" where
  "outstanding ts tok \<longleftrightarrow> ts_entries ts tok \<noteq> None"

lemmas ticket_defs = IssueTicket_def Consume_def sweepEntry_def Start_def Stop_def

interpretation tickets: single_use outstanding ticket_step handed redeemed
proof unfold_locales
  show "outstanding s k \<and> \<not> outstanding t k" if "ticket_step s l t" "redeemed l = Some k" for s l t k
    using that by (cases rule: ticket_step.cases) (auto simp: outstanding_def ticket_defs split: option.splits if_splits)
  show "\<not> outstanding t k" if "ticket_step s l t" "\<not> outstanding s k" "handed l \<noteq> Some k" for s l t k
    using that by (cases rule: ticket_step.cases) (auto simp: outstanding_def ticket_defs split: option.splits if_splits)
qed

text \<open>
  C36: A ticket opens one socket.  In every interleaving of requests and sweeps from the empty store a ticket is
  redeemed at most as often as its text has been drawn.
\<close>
theorem ticket_redeemed_once:
  assumes "runs ticket_step NewTicketStore es ts"
  shows "occurrences redeemed tok es \<le> occurrences handed tok es"
  using tickets.takes_bounded[OF assms, of tok] by (simp add: outstanding_def NewTicketStore_def)

text \<open>
  A ticket is good for a minute.  Whatever happens to other tickets and however often the janitor
  sweeps before, consuming a ticket at a time up to 60 seconds after its issue yields the account it was
  issued to, and consuming it later yields none.
\<close>
theorem ticket_good_for_a_minute:
  assumes "IssueTicket (Some tok) t0 acct ts = (Some (tok, ttl), ts1)" "runs ticket_step ts1 es ts2"
    and "\<forall>e \<in> set es. e \<noteq> Handed tok \<and> e \<noteq> Redeemed tok \<and> e \<noteq> Missed tok \<and> (\<forall>now. e = Swept tok now \<longrightarrow> now \<le> t)"
  shows "fst (Consume tok t ts2) = (if t \<le> t0 + 60 * 1000000000 then Some acct else None)"
proof -
  have keep: "ts_entries b tok = ts_entries a tok \<or> (ts_entries b tok = None \<and> (\<exists>x. ts_entries a tok = Some x \<and> ti_expires_at x < t))"
    if "ticket_step a e b" "e \<noteq> Handed tok" "e \<noteq> Redeemed tok" "e \<noteq> Missed tok" "\<forall>now. e = Swept tok now \<longrightarrow> now \<le> t" for a e b
    using that by (cases rule: ticket_step.cases) (auto simp: ticket_defs split: option.splits if_splits)
  have "ts_entries ts2 tok = ts_entries ts1 tok \<or> (ts_entries ts2 tok = None \<and> (\<exists>x. ts_entries ts1 tok = Some x \<and> ti_expires_at x < t))"
    using assms(2,3)
  proof (induction rule: runs.induct)
    case (runs_step a e b es c)
    then show ?case using keep[OF runs_step(1)] by (auto simp del: not_None_eq)
  qed simp
  moreover have "ts_entries ts1 tok = Some \<lparr>ti_account = acct, ti_expires_at = t0 + TicketTTL\<rparr>"
    using assms(1) by (auto simp: IssueTicket_def)
  ultimately show ?thesis by (auto simp: Consume_def TicketTTL_def)
qed

definition ticket_account :: Account where
  "ticket_account = \<lparr>a_id = ''a'', a_email = ''a@x'', a_display_name = ''a'', a_github_user_id = None, a_created_at = 0, a_is_anonymous = False\<rparr>"

definition demo_ticket_store :: TicketStore where
  "demo_ticket_store = snd (IssueTicket (Some ''t'') 0 ticket_account NewTicketStore)"

lemma demo_ticket: "IssueTicket (Some ''t'') 0 ticket_account NewTicketStore = (Some (''t'', TicketTTL), demo_ticket_store)"
  by (simp add: demo_ticket_store_def IssueTicket_def)

theorem ticket_redeemed_once_witness:
  "\<exists>ts. runs ticket_step NewTicketStore [Handed ''t'', Redeemed ''t''] ts
     \<and> occurrences redeemed ''t'' [Handed ''t'', Redeemed ''t''] \<le> occurrences handed ''t'' [Handed ''t'', Redeemed ''t'']"
proof -
  have "Consume ''t'' 5 demo_ticket_store = (Some ticket_account, snd (Consume ''t'' 5 demo_ticket_store))"
    by (simp add: Consume_def demo_ticket_store_def IssueTicket_def TicketTTL_def)
  then have r: "runs ticket_step NewTicketStore [Handed ''t'', Redeemed ''t''] (snd (Consume ''t'' 5 demo_ticket_store))"
    by (blast intro: runs.intros t_issue[OF demo_ticket] t_redeem)
  then show ?thesis using ticket_redeemed_once[OF r] by blast
qed

theorem ticket_good_for_a_minute_witness:
  "fst (Consume ''t'' 59000000000 demo_ticket_store) = Some ticket_account \<and> fst (Consume ''t'' 61000000000 demo_ticket_store) = None"
  using ticket_good_for_a_minute[OF demo_ticket runs_refl] by simp

end
