(* ===== verification/RouterRing.thy ===== *)
theory RouterRing
  imports Prelude GoStrings "HOL-Library.Word"
begin

unbundle bit_operations_syntax

text \<open>
  The consistent-hash ring of the router (\<^verbatim>\<open>internal/router/ring/ring.go\<close>): virtual nodes hashed with
  FNV-1a, a sorted snapshot, and the lookups by binary search.  A snapshot is immutable and swapped by one
  atomic store, so each operation is a function of one snapshot.  \<^verbatim>\<open>sort.Slice\<close> is not stable; the
  sorting routine is the parameter \<open>srt\<close>, of which only its documented contract \<open>sorts\<close> is used.  The order in
  which Go ranges over a map is not specified either, and is the parameter \<open>listing\<close> of \<open>Pods\<close>.  The
  number of virtual nodes is at least one (\<^verbatim>\<open>router/config/config.go\<close> refuses other values).
\<close>

record Pod =
  pod_ID :: string
  pod_Address :: string

definition zeroPod :: Pod where
  "zeroPod = \<lparr>pod_ID = [], pod_Address = []\<rparr>"

record vnode =
  vn_hash :: "64 word"
  vn_podID :: string

record ringSnapshot =
  rs_vnodes :: "vnode list"
  rs_pods :: "string \<rightharpoonup> Pod"

type_synonym sorter = "vnode list \<Rightarrow> vnode list"

definition sorts :: "sorter \<Rightarrow> bool" where
  "sorts srt \<longleftrightarrow> (\<forall>vs. mset (srt vs) = mset vs \<and> sorted (map vn_hash (srt vs)))"

subsection \<open>Hashing\<close>

text \<open>\<^verbatim>\<open>hash/fnv\<close>: the 64-bit FNV-1a hash, multiplication wrapping.\<close>

definition fnv1a :: "string \<Rightarrow> 64 word" where
  "fnv1a s = foldl (\<lambda>h c. (h XOR of_nat (of_char c)) * 1099511628211) 14695981039346656037 s"

definition hashVnode :: "string \<Rightarrow> nat \<Rightarrow> 64 word" where
  "hashVnode podID i = fnv1a (podID @ '':'' @ dec_digits i)"

definition hashKey :: "string \<Rightarrow> 64 word" where
  "hashKey key = fnv1a key"

subsection \<open>Operations\<close>

definition newRing :: ringSnapshot where
  "newRing = \<lparr>rs_vnodes = [], rs_pods = Map.empty\<rparr>"

definition podVnodes :: "nat \<Rightarrow> Pod \<Rightarrow> vnode list" where
  "podVnodes k p = map (\<lambda>i. \<lparr>vn_hash = hashVnode (pod_ID p) i, vn_podID = pod_ID p\<rparr>) [0..<k]"

definition SetPods :: "sorter \<Rightarrow> nat \<Rightarrow> Pod list \<Rightarrow> ringSnapshot" where
  "SetPods srt vnodeCount pods =
     (if pods = [] then newRing
      else \<lparr>rs_vnodes = srt (concat (map (podVnodes vnodeCount) pods)),
            rs_pods = fold (\<lambda>p m. m(pod_ID p \<mapsto> p)) pods Map.empty\<rparr>)"

text \<open>\<^verbatim>\<open>sort.Search\<close>.\<close>

function searchLoop :: "(nat \<Rightarrow> bool) \<Rightarrow> nat \<Rightarrow> nat \<Rightarrow> nat" where
  "searchLoop f i j =
     (if i < j then
        let h = (i + j) div 2 in
        if \<not> f h then searchLoop f (h + 1) j else searchLoop f i h
      else i)"
  by pat_completeness auto
termination by (relation "measure (\<lambda>(f, i, j). j - i)") auto

declare searchLoop.simps [simp del]

definition sortSearch :: "nat \<Rightarrow> (nat \<Rightarrow> bool) \<Rightarrow> nat" where
  "sortSearch n f = searchLoop f 0 n"

definition startIndex :: "vnode list \<Rightarrow> string \<Rightarrow> nat" where
  "startIndex vs key =
     (let idx = sortSearch (length vs) (\<lambda>i. vn_hash (vs ! i) \<ge> hashKey key) in
      if idx = length vs then 0 else idx)"

definition podOf :: "ringSnapshot \<Rightarrow> string \<Rightarrow> Pod" where
  "podOf snap i = (case rs_pods snap i of Some p \<Rightarrow> p | None \<Rightarrow> zeroPod)"

definition ringGet :: "ringSnapshot \<Rightarrow> string \<Rightarrow> Pod" where
  "ringGet snap key =
     (if rs_vnodes snap = [] then zeroPod
      else podOf snap (vn_podID (rs_vnodes snap ! startIndex (rs_vnodes snap) key)))"

definition Pods :: "((string \<rightharpoonup> Pod) \<Rightarrow> Pod list) \<Rightarrow> ringSnapshot \<Rightarrow> Pod list" where
  "Pods listing snap = listing (rs_pods snap)"

fun nextFrom :: "ringSnapshot \<Rightarrow> string \<Rightarrow> nat \<Rightarrow> nat list \<Rightarrow> Pod" where
  "nextFrom snap skipID start [] = zeroPod"
| "nextFrom snap skipID start (i # is) =
     (let podID = vn_podID (rs_vnodes snap ! ((start + i) mod length (rs_vnodes snap))) in
      if podID \<noteq> skipID then podOf snap podID else nextFrom snap skipID start is)"

definition GetNext :: "ringSnapshot \<Rightarrow> string \<Rightarrow> string \<Rightarrow> Pod" where
  "GetNext snap key skipID =
     (if rs_vnodes snap = [] then zeroPod
      else nextFrom snap skipID (startIndex (rs_vnodes snap) key) [1..<length (rs_vnodes snap)])"

subsection \<open>Binary search\<close>

lemma searchLoop_step:
  "\<not> i < j \<Longrightarrow> searchLoop f i j = i"
  "i < j \<Longrightarrow> f ((i + j) div 2) \<Longrightarrow> searchLoop f i j = searchLoop f i ((i + j) div 2)"
  "i < j \<Longrightarrow> \<not> f ((i + j) div 2) \<Longrightarrow> searchLoop f i j = searchLoop f ((i + j) div 2 + 1) j"
  by (subst searchLoop.simps, simp add: Let_def)+

lemma searchLoop_spec:
  assumes "i \<le> j" "j \<le> n" "\<And>k. k < i \<Longrightarrow> \<not> f k" "\<And>k. j \<le> k \<Longrightarrow> k < n \<Longrightarrow> f k"
    and mono: "\<And>k l. k \<le> l \<Longrightarrow> l < n \<Longrightarrow> f k \<Longrightarrow> f l"
  shows "searchLoop f i j \<le> n \<and> (\<forall>k < searchLoop f i j. \<not> f k)
     \<and> (\<forall>k. searchLoop f i j \<le> k \<longrightarrow> k < n \<longrightarrow> f k)"
  using assms(1-4)
proof (induction "j - i" arbitrary: i j rule: less_induct)
  case less
  let ?h = "(i + j) div 2"
  consider "\<not> i < j" | "i < j" "f ?h" | "i < j" "\<not> f ?h" by blast
  then show ?case
  proof cases
    case 1
    then show ?thesis unfolding searchLoop_step(1)[of i j f, OF 1] using less.prems by force
  next
    case 2
    have h: "?h - i < j - i" "i \<le> ?h" "?h \<le> n" using 2 less.prems(2) by linarith+
    have "f k" if "?h \<le> k" "k < n" for k using that mono[of ?h k] 2 by blast
    from less.hyps[OF h less.prems(3) this] show ?thesis
      unfolding searchLoop_step(2)[of i j f, OF 2] by blast
  next
    case 3
    have h: "j - (?h + 1) < j - i" "?h + 1 \<le> j" "?h < n" using 3 less.prems(2) by linarith+
    have "\<not> f k" if "k < ?h + 1" for k 
    proof -
      have "k \<le> ?h" using that by linarith
      then show ?thesis using 3 mono[of k ?h] h(3) by blast
    qed
    from less.hyps[OF h(1,2) less.prems(2) this less.prems(4)] show ?thesis
      unfolding searchLoop_step(3)[of i j f, OF 3] by blast
  qed
qed

lemma sortSearch_spec:
  assumes "\<And>k l. k \<le> l \<Longrightarrow> l < n \<Longrightarrow> f k \<Longrightarrow> f l"
  shows "sortSearch n f \<le> n" "k < sortSearch n f \<Longrightarrow> \<not> f k" "sortSearch n f \<le> k \<Longrightarrow> k < n \<Longrightarrow> f k"
  using searchLoop_spec[of 0 n n f] assms unfolding sortSearch_def by auto

subsection \<open>Clockwise distance\<close>

text \<open>
  The distance from a key to a virtual node, going clockwise, is the wrapping difference of their
  hashes.  Nodes at or after the key come first, in ascending order, then those before it.
\<close>

lemma wrapped_le:
  fixes a b h N :: nat
  assumes "h \<le> a \<and> h \<le> b \<and> a \<le> b \<or> h \<le> a \<and> b < h \<or> a < h \<and> b < h \<and> a \<le> b" "a < N" "b < N" "h < N"
  shows "(if h \<le> a then a - h else a + N - h) \<le> (if h \<le> b then b - h else b + N - h)"
  using assms by auto

lemma distance_le:
  fixes a b h :: "64 word"
  assumes "h \<le> a \<and> h \<le> b \<and> a \<le> b \<or> h \<le> a \<and> b < h \<or> a < h \<and> b < h \<and> a \<le> b"
  shows "a - h \<le> b - h"
proof -
  have d: "unat (x - h) = (if unat h \<le> unat x then unat x - unat h else unat x + 2 ^ 64 - unat h)" for x
    using unat_sub_if'[of x h] by simp
  have "unat a < 2 ^ 64" "unat b < 2 ^ 64" "unat h < 2 ^ 64"
    using unsigned_less[of a, where 'a = nat] unsigned_less[of b, where 'a = nat] unsigned_less[of h, where 'a = nat]
    by simp_all
  with assms show ?thesis
    unfolding word_le_nat_alt word_less_nat_alt d by (rule wrapped_le)
qed

lemma startIndex_nearest:
  assumes sorted: "sorted (map vn_hash vs)" and ne: "vs \<noteq> []"
  shows "startIndex vs key < length vs"
    and "w \<in> set vs \<Longrightarrow> vn_hash (vs ! startIndex vs key) - hashKey key \<le> vn_hash w - hashKey key"
proof -
  let ?h = "hashKey key"
  let ?f = "\<lambda>i. vn_hash (vs ! i) \<ge> ?h"
  let ?s = "sortSearch (length vs) ?f"
  have le: "vn_hash (vs ! i) \<le> vn_hash (vs ! j)" if "i \<le> j" "j < length vs" for i j
    using sorted_nth_mono[OF sorted] that by simp
  then have mono: "\<And>k l. k \<le> l \<Longrightarrow> l < length vs \<Longrightarrow> ?f k \<Longrightarrow> ?f l" by (meson order_trans)
  have sp: "?s \<le> length vs" "\<And>k. k < ?s \<Longrightarrow> \<not> ?f k" "\<And>k. ?s \<le> k \<Longrightarrow> k < length vs \<Longrightarrow> ?f k"
    by (rule sortSearch_spec; (rule mono)?; assumption)+
  show "startIndex vs key < length vs"
    using sp(1) ne by (simp add: startIndex_def Let_def)
  assume "w \<in> set vs"
  then obtain j where j: "j < length vs" "w = vs ! j" by (auto simp: in_set_conv_nth)
  show "vn_hash (vs ! startIndex vs key) - ?h \<le> vn_hash w - ?h"
  proof (cases "?s = length vs")
    case True
    then have st: "startIndex vs key = 0" by (simp add: startIndex_def)
    have "vn_hash (vs ! 0) < ?h" "vn_hash w < ?h" using sp(2)[of 0] sp(2)[of j] True j ne by (simp_all add: not_le)
    with le[of 0 j] j show ?thesis unfolding st by (intro distance_le) (simp only: simp_thms)
  next
    case False
    then have st: "startIndex vs key = ?s" by (simp add: startIndex_def)
    have "?f ?s" using sp(1,3) False by simp
    moreover have "vn_hash w < ?h \<or> ?h \<le> vn_hash w \<and> vn_hash (vs ! ?s) \<le> vn_hash w"
      using sp(2,3)[of j] le[of ?s j] j by (cases "j < ?s") (simp_all add: not_le)
    ultimately have "?h \<le> vn_hash (vs ! ?s) \<and> ?h \<le> vn_hash w \<and> vn_hash (vs ! ?s) \<le> vn_hash w
        \<or> ?h \<le> vn_hash (vs ! ?s) \<and> vn_hash w < ?h" by meson
    then show ?thesis unfolding st by (elim disjE; intro distance_le; simp only: simp_thms)
  qed
qed

subsection \<open>Snapshots of a pod set\<close>

text \<open>The virtual nodes of a pod set, as a set.\<close>

definition vnodeSet :: "nat \<Rightarrow> Pod list \<Rightarrow> vnode set" where
  "vnodeSet k pods = (\<Union>p \<in> set pods. set (podVnodes k p))"

lemma set_srt: "sorts srt \<Longrightarrow> set (srt vs) = set vs"
  unfolding sorts_def by (metis set_mset_mset)

lemma set_SetPods: "sorts srt \<Longrightarrow> set (rs_vnodes (SetPods srt k pods)) = vnodeSet k pods"
  by (auto simp: SetPods_def newRing_def vnodeSet_def set_srt)

lemma sorted_SetPods: "sorts srt \<Longrightarrow> sorted (map vn_hash (rs_vnodes (SetPods srt k pods)))"
  by (simp add: SetPods_def newRing_def sorts_def)

lemma vnodeSet_iff:
  "v \<in> vnodeSet k pods \<longleftrightarrow>
     vn_podID v \<in> pod_ID ` set pods \<and> (\<exists>i < k. v = \<lparr>vn_hash = hashVnode (vn_podID v) i, vn_podID = vn_podID v\<rparr>)"
  by (force simp: vnodeSet_def podVnodes_def)

lemma vnodeSet_ne: "0 < k \<Longrightarrow> vnodeSet k pods = {} \<longleftrightarrow> pods = []"
  by (auto simp: vnodeSet_def podVnodes_def)

lemma vnodeSet_pod: "v \<in> vnodeSet k pods \<Longrightarrow> vn_podID v \<in> pod_ID ` set pods"
  by (auto simp: vnodeSet_def podVnodes_def)

lemma fold_pods:
  "fold (\<lambda>p m. m(pod_ID p \<mapsto> p)) pods m i =
     (if i \<in> pod_ID ` set pods then Some (last (filter (\<lambda>p. pod_ID p = i) pods)) else m i)"
  by (induction pods arbitrary: m) (auto simp: filter_empty_conv)

lemma podOf_SetPods:
  assumes "i \<in> pod_ID ` set pods"
  shows "podOf (SetPods srt k pods) i \<in> set pods \<and> pod_ID (podOf (SetPods srt k pods) i) = i"
proof -
  let ?l = "filter (\<lambda>p. pod_ID p = i) pods"
  have "?l \<noteq> []" using assms by (auto simp: filter_empty_conv)
  then have "last ?l \<in> set ?l" by (rule last_in_set)
  then show ?thesis using assms by (auto simp: podOf_def SetPods_def fold_pods)
qed

text \<open>The virtual node that answers for a key.\<close>

definition ownerNode :: "ringSnapshot \<Rightarrow> string \<Rightarrow> vnode" where
  "ownerNode snap key = rs_vnodes snap ! startIndex (rs_vnodes snap) key"

lemma ownerNode_nearest:
  assumes "sorts srt" "0 < k" "pods \<noteq> []"
  shows "ownerNode (SetPods srt k pods) key \<in> vnodeSet k pods"
    and "w \<in> vnodeSet k pods \<Longrightarrow>
      vn_hash (ownerNode (SetPods srt k pods) key) - hashKey key \<le> vn_hash w - hashKey key"
    and "ringGet (SetPods srt k pods) key = podOf (SetPods srt k pods) (vn_podID (ownerNode (SetPods srt k pods) key))"
proof -
  let ?vs = "rs_vnodes (SetPods srt k pods)"
  have ne: "?vs \<noteq> []" using assms set_SetPods[OF assms(1), of k pods] vnodeSet_ne[OF assms(2), of pods] by auto
  note st = startIndex_nearest[OF sorted_SetPods[OF assms(1)] ne]
  show "ownerNode (SetPods srt k pods) key \<in> vnodeSet k pods"
    using nth_mem[OF st(1)] by (simp add: ownerNode_def set_SetPods[OF assms(1)])
  show "w \<in> vnodeSet k pods \<Longrightarrow>
      vn_hash (ownerNode (SetPods srt k pods) key) - hashKey key \<le> vn_hash w - hashKey key"
    using st(2) by (simp add: ownerNode_def set_SetPods[OF assms(1)])
  show "ringGet (SetPods srt k pods) key = podOf (SetPods srt k pods) (vn_podID (ownerNode (SetPods srt k pods) key))"
    using ne by (simp add: ringGet_def ownerNode_def)
qed

lemma ringGet_owner:
  assumes "sorts srt" "0 < k" "pods \<noteq> []"
  shows "ringGet (SetPods srt k pods) key \<in> set pods"
    and "pod_ID (ringGet (SetPods srt k pods) key) = vn_podID (ownerNode (SetPods srt k pods) key)"
  using ownerNode_nearest(3)[OF assms, of key] podOf_SetPods[OF vnodeSet_pod[OF ownerNode_nearest(1)[OF assms, of key]], of srt k]
  by simp_all

text \<open>
  C29: The ring assigns a key to its clockwise successor.  For a pod set and at least one virtual node
  per pod, the lookup answers with a pod of the set, and that pod has a virtual node whose wrapping
  64-bit distance from the key's hash is the least of all virtual nodes of the set, whatever order the
  unstable sort leaves equal hashes in.
\<close>
theorem Get_clockwise_successor:
  assumes "sorts srt" "0 < k" "pods \<noteq> []"
  shows "\<exists>v \<in> vnodeSet k pods. ringGet (SetPods srt k pods) key \<in> set pods
     \<and> pod_ID (ringGet (SetPods srt k pods) key) = vn_podID v
     \<and> (\<forall>w \<in> vnodeSet k pods. vn_hash v - hashKey key \<le> vn_hash w - hashKey key)"
  using ownerNode_nearest(1,2)[OF assms] ringGet_owner[OF assms] by (intro bexI[of _ "ownerNode (SetPods srt k pods) key"]) simp_all

text \<open>No two virtual nodes of different pods share a hash.\<close>

definition noCollision :: "nat \<Rightarrow> Pod list \<Rightarrow> bool" where
  "noCollision k pods \<longleftrightarrow>
     (\<forall>v \<in> vnodeSet k pods. \<forall>w \<in> vnodeSet k pods. vn_hash v = vn_hash w \<longrightarrow> vn_podID v = vn_podID w)"

lemma nearest_unique:
  fixes h :: "64 word"
  assumes "noCollision k pods" "v \<in> vnodeSet k pods" "w \<in> vnodeSet k pods"
    and "vn_hash v - h \<le> vn_hash w - h" "vn_hash w - h \<le> vn_hash v - h"
  shows "vn_podID v = vn_podID w"
proof -
  have "vn_hash v - h = vn_hash w - h" using assms(4,5) by (rule order.antisym)
  then have "vn_hash v = vn_hash w" by (metis diff_add_cancel)
  with assms(1-3) show ?thesis unfolding noCollision_def by blast
qed

lemma vnodeSet_mono: "set pods' \<subseteq> set pods \<Longrightarrow> vnodeSet k pods' \<subseteq> vnodeSet k pods"
  by (auto simp: vnodeSet_def)

text \<open>
  C15: Scaling moves as few sessions as possible.  When the ring shrinks from one pod set to a
  part of it, in any order and with any sort, every key whose pod stays keeps its pod; read from
  right to left, growing the ring moves keys only to the new pods.  This holds unless two pods have a
  virtual node with the same hash.
\<close>
theorem SetPods_minimal_disruption:
  assumes "sorts srt" "sorts srt'" "0 < k" "set pods' \<subseteq> set pods" "noCollision k pods"
    and stays: "pod_ID (ringGet (SetPods srt k pods) key) \<in> pod_ID ` set pods'"
    and ids: "inj_on pod_ID (set pods)"
  shows "ringGet (SetPods srt' k pods') key = ringGet (SetPods srt k pods) key"
proof -
  let ?s = "SetPods srt k pods" and ?s' = "SetPods srt' k pods'"
  have ne: "pods' \<noteq> []" "pods \<noteq> []" using stays assms(4) by auto
  note o = ownerNode_nearest[OF assms(1,3) ne(2), where key = key]
  note o' = ownerNode_nearest[OF assms(2,3) ne(1), where key = key]
  note g = ringGet_owner[OF assms(1,3) ne(2), of key]
  note g' = ringGet_owner[OF assms(2,3) ne(1), of key]
  have mem: "ownerNode ?s' key \<in> vnodeSet k pods" using o'(1) vnodeSet_mono[OF assms(4)] by blast
  have "ownerNode ?s key \<in> vnodeSet k pods'"
    using o(1) stays g by (simp add: vnodeSet_iff)
  then have "vn_podID (ownerNode ?s' key) = vn_podID (ownerNode ?s key)"
    by (rule nearest_unique[OF assms(5) mem o(1) o'(2) o(2)[OF mem]])
  with g g' assms(4) show ?thesis by (intro inj_onD[OF ids]) auto
qed

subsection \<open>Failover\<close>

lemma nextFrom_cases:
  "nextFrom snap skipID start is = zeroPod \<and>
     (\<forall>i \<in> set is. vn_podID (rs_vnodes snap ! ((start + i) mod length (rs_vnodes snap))) = skipID)
   \<or> (\<exists>i \<in> set is. vn_podID (rs_vnodes snap ! ((start + i) mod length (rs_vnodes snap))) \<noteq> skipID
        \<and> nextFrom snap skipID start is = podOf snap (vn_podID (rs_vnodes snap ! ((start + i) mod length (rs_vnodes snap)))))"
  by (induction "is") (auto simp: Let_def)

text \<open>The walk visits every position but the starting one.\<close>

lemma ring_positions:
  fixes n :: nat
  assumes "start < n"
  shows "(\<lambda>i. (start + i) mod n) ` {1..<n} = {0..<n} - {start}"
proof (intro equalityI subsetI)
  have m: "(start + i) mod n = (if start + i < n then start + i else start + i - n)" if "i < n" for i
    using assms that by (simp add: le_mod_geq)
  fix j assume "j \<in> (\<lambda>i. (start + i) mod n) ` {1..<n}"
  then obtain i where "1 \<le> i" "i < n" "j = (start + i) mod n" by auto
  with assms m[of i] show "j \<in> {0..<n} - {start}" by auto
next
  fix j assume j: "j \<in> {0..<n} - {start}"
  define i where "i = (if start < j then j - start else n - start + j)"
  have i: "i \<in> {1..<n}" using assms j by (auto simp: i_def)
  have "(start + i) mod n = j" using assms j by (cases "start < j") (auto simp: i_def)
  then show "j \<in> (\<lambda>i. (start + i) mod n) ` {1..<n}" by (rule image_eqI[OF sym i])
qed

lemma GetNext_cases:
  assumes "startIndex (rs_vnodes snap) key < length (rs_vnodes snap)"
  shows "GetNext snap key skipID = zeroPod \<and>
      (\<forall>j < length (rs_vnodes snap). j \<noteq> startIndex (rs_vnodes snap) key \<longrightarrow> vn_podID (rs_vnodes snap ! j) = skipID)
    \<or> (\<exists>j < length (rs_vnodes snap). j \<noteq> startIndex (rs_vnodes snap) key
         \<and> vn_podID (rs_vnodes snap ! j) \<noteq> skipID \<and> GetNext snap key skipID = podOf snap (vn_podID (rs_vnodes snap ! j)))"
proof -
  let ?n = "length (rs_vnodes snap)" and ?st = "startIndex (rs_vnodes snap) key"
  have pos: "\<exists>i \<in> set [1..<?n]. j = (?st + i) mod ?n" if "j < ?n" "j \<noteq> ?st" for j
  proof -
    have "j \<in> (\<lambda>i. (?st + i) mod ?n) ` {1..<?n}" unfolding ring_positions[OF assms] using that by simp
    then obtain i where "j = (?st + i) mod ?n" "i \<in> {1..<?n}" by (rule imageE)
    then show ?thesis by (intro bexI[of _ i]) simp_all
  qed
  have g: "GetNext snap key skipID = nextFrom snap skipID ?st [1..<?n]" using assms by (auto simp: GetNext_def)
  from nextFrom_cases[of snap skipID ?st "[1..<?n]"] show ?thesis
  proof (elim disjE bexE conjE)
    fix i assume i: "i \<in> set [1..<?n]" "vn_podID (rs_vnodes snap ! ((?st + i) mod ?n)) \<noteq> skipID"
      "nextFrom snap skipID ?st [1..<?n] = podOf snap (vn_podID (rs_vnodes snap ! ((?st + i) mod ?n)))"
    have "(?st + i) mod ?n \<in> {0..<?n} - {?st}"
      unfolding ring_positions[OF assms, symmetric] using i(1) by (intro imageI) simp
    then have "(?st + i) mod ?n < ?n \<and> (?st + i) mod ?n \<noteq> ?st" by (simp only: Diff_iff atLeastLessThan_iff singleton_iff simp_thms)
    with i(2,3) show ?thesis unfolding g by blast
  next
    assume z: "nextFrom snap skipID ?st [1..<?n] = zeroPod"
      "\<forall>i \<in> set [1..<?n]. vn_podID (rs_vnodes snap ! ((?st + i) mod ?n)) = skipID"
    have "vn_podID (rs_vnodes snap ! j) = skipID" if "j < ?n" "j \<noteq> ?st" for j
      using pos[OF that] z(2) by blast
    with z(1) show ?thesis unfolding g by simp
  qed
qed

lemma startIndex_SetPods:
  assumes "sorts srt" "0 < k" "pods \<noteq> []"
  shows "startIndex (rs_vnodes (SetPods srt k pods)) key < length (rs_vnodes (SetPods srt k pods))"
proof -
  have "rs_vnodes (SetPods srt k pods) \<noteq> []"
    using set_SetPods[OF assms(1), of k pods] vnodeSet_ne[OF assms(2), of pods] assms(3) by auto
  then show ?thesis by (rule startIndex_nearest(1)[OF sorted_SetPods[OF assms(1)]])
qed

text \<open>
  Failover leaves the failed pod.  When the pod the ring chose for a key fails and another pod is
  in the ring, the next choice is a pod of the ring other than the failed one.
\<close>
theorem GetNext_failover:
  assumes "sorts srt" "0 < k" "q \<in> set pods"
    and "pod_ID q \<noteq> pod_ID (ringGet (SetPods srt k pods) key)"
  shows "GetNext (SetPods srt k pods) key (pod_ID (ringGet (SetPods srt k pods) key)) \<in> set pods
     \<and> pod_ID (GetNext (SetPods srt k pods) key (pod_ID (ringGet (SetPods srt k pods) key)))
         \<noteq> pod_ID (ringGet (SetPods srt k pods) key)"
proof -
  let ?s = "SetPods srt k pods"
  let ?skip = "pod_ID (ringGet ?s key)" and ?st = "startIndex (rs_vnodes ?s) key"
  have ne: "pods \<noteq> []" using assms(3) by auto
  have skip: "?skip = vn_podID (rs_vnodes ?s ! ?st)"
    using ringGet_owner(2)[OF assms(1,2) ne, of key] by (simp add: ownerNode_def)
  have "\<lparr>vn_hash = hashVnode (pod_ID q) 0, vn_podID = pod_ID q\<rparr> \<in> set (rs_vnodes ?s)"
    using assms(2,3) by (auto simp: set_SetPods[OF assms(1)] vnodeSet_iff)
  then obtain j where j: "j < length (rs_vnodes ?s)" "vn_podID (rs_vnodes ?s ! j) = pod_ID q"
    by (metis in_set_conv_nth vnode.select_convs(2))
  then have "j \<noteq> ?st" using assms(4) skip by auto
  with GetNext_cases[OF startIndex_SetPods[OF assms(1,2) ne], of key ?skip] j assms(4)
  obtain i where i: "i < length (rs_vnodes ?s)" "vn_podID (rs_vnodes ?s ! i) \<noteq> ?skip"
      "GetNext ?s key ?skip = podOf ?s (vn_podID (rs_vnodes ?s ! i))"
    by auto
  have "rs_vnodes ?s ! i \<in> vnodeSet k pods" using nth_mem[OF i(1)] by (simp add: set_SetPods[OF assms(1)])
  from podOf_SetPods[OF vnodeSet_pod[OF this], of srt k] i(2,3) show ?thesis by simp
qed

lemma two_elements:
  assumes "mset (map f vs) = {#a, b#}" "length vs = 2" "a \<noteq> b" "i < 2" "f (vs ! i) = b" "j < 2" "j \<noteq> i"
  shows "f (vs ! j) = a"
proof -
  obtain x y where vs: "vs = [x, y]" using assms(2) by (auto simp: numeral_2_eq_2 length_Suc_conv)
  have d: "f x = a \<and> f y = b \<or> f x = b \<and> f y = a"
    using arg_cong[OF assms(1), of set_mset] unfolding vs by (simp add: doubleton_eq_iff)
  consider "i = 0" "j = 1" | "i = 1" "j = 0" using assms(4,6,7) by linarith
  then show ?thesis
  proof cases
    case 1
    then have "f x = b" "vs ! j = y" using assms(5) by (simp_all add: vs)
    with d assms(3) show ?thesis by metis
  next
    case 2
    then have "f y = b" "vs ! j = x" using assms(5) by (simp_all add: vs)
    with d assms(3) show ?thesis by metis
  qed
qed

text \<open>
  The walk starts behind the owner of the key also when the failed pod is not the owner, as after a hit in the
  hint cache.  With one virtual node per pod and two pods, the failure of the hinted pod then
  finds no other pod, although the owner is in the ring.
\<close>
theorem hinted_failover_misses_owner:
  assumes "sorts srt" "pod_ID a \<noteq> pod_ID b" "ringGet (SetPods srt 1 [a, b]) key = b"
  shows "GetNext (SetPods srt 1 [a, b]) key (pod_ID a) = zeroPod"
proof -
  let ?s = "SetPods srt 1 [a, b]"
  let ?st = "startIndex (rs_vnodes ?s) key"
  have ne: "[a, b] \<noteq> []" "(0::nat) < 1" by simp_all
  have own: "vn_podID (rs_vnodes ?s ! ?st) = pod_ID b"
    using ringGet_owner(2)[OF assms(1) ne(2,1), of key] unfolding assms(3) ownerNode_def by (rule sym)
  have m: "mset (rs_vnodes ?s) = mset (podVnodes 1 a @ podVnodes 1 b)"
    using assms(1) by (simp add: SetPods_def sorts_def)
  have len: "length (rs_vnodes ?s) = 2"
    using arg_cong[OF m, of size] by (simp add: podVnodes_def del: One_nat_def)
  have ids: "mset (map vn_podID (rs_vnodes ?s)) = {#pod_ID a, pod_ID b#}"
    using arg_cong[OF m, of "image_mset vn_podID"] by (simp add: podVnodes_def)
  note lt = startIndex_SetPods[OF assms(1) ne(2,1), where key = key]
  have other: "vn_podID (rs_vnodes ?s ! j) = pod_ID a" if "j < 2" "j \<noteq> ?st" for j
    using two_elements[OF ids len assms(2) _ own] lt len that by simp
  from GetNext_cases[OF lt, of "pod_ID a"] show ?thesis
  proof (elim disjE exE conjE)
    fix j assume "j < length (rs_vnodes ?s)" "j \<noteq> ?st" "vn_podID (rs_vnodes ?s ! j) \<noteq> pod_ID a"
    then show ?thesis using other[of j] unfolding len by blast
  qed
qed

subsection \<open>A ring of three pods\<close>

definition podA :: Pod where "podA = \<lparr>pod_ID = ''a'', pod_Address = ''10.0.0.1:80''\<rparr>"
definition podB :: Pod where "podB = \<lparr>pod_ID = ''b'', pod_Address = ''10.0.0.2:80''\<rparr>"
definition podC :: Pod where "podC = \<lparr>pod_ID = ''c'', pod_Address = ''10.0.0.3:80''\<rparr>"

lemma sorts_sort_key: "sorts (sort_key vn_hash)"
  by (simp add: sorts_def)

lemma demo_hashes:
  "hashVnode ''a'' 0 = 16600799398055681206" "hashVnode ''b'' 0 = 18427309213866628167"
  "hashVnode ''c'' 0 = 17768742430669920824" "hashKey ''s1'' = 637539755847373129"
  by (simp_all add: hashVnode_def hashKey_def fnv1a_def dec_digits.simps)

lemma demo_vnodes:
  "rs_vnodes (SetPods (sort_key vn_hash) 1 [podA, podB, podC]) =
     [\<lparr>vn_hash = 16600799398055681206, vn_podID = ''a''\<rparr>, \<lparr>vn_hash = 17768742430669920824, vn_podID = ''c''\<rparr>,
      \<lparr>vn_hash = 18427309213866628167, vn_podID = ''b''\<rparr>]"
  by (simp add: SetPods_def podVnodes_def podA_def podB_def podC_def demo_hashes)

lemma demo_get: "ringGet (SetPods (sort_key vn_hash) 1 [podA, podB, podC]) ''s1'' = podA"
proof -
  let ?s = "SetPods (sort_key vn_hash) 1 [podA, podB, podC]"
  have "startIndex (rs_vnodes ?s) ''s1'' = 0"
    unfolding demo_vnodes
    by (simp add: startIndex_def sortSearch_def searchLoop_step demo_hashes)
  then have "ringGet ?s ''s1'' = podOf ?s ''a''" by (simp only: ringGet_def demo_vnodes) simp
  then show ?thesis by (simp add: podOf_def SetPods_def podA_def podB_def podC_def)
qed

lemma demo_owner: "pod_ID (ringGet (SetPods (sort_key vn_hash) 1 [podA, podB, podC]) ''s1'') = ''a''"
  unfolding demo_get by (simp add: podA_def)

lemma demo_next: "GetNext (SetPods (sort_key vn_hash) 1 [podA, podB, podC]) ''s1'' ''a'' = podC"
proof -
  let ?s = "SetPods (sort_key vn_hash) 1 [podA, podB, podC]"
  have "startIndex (rs_vnodes ?s) ''s1'' = 0"
    unfolding demo_vnodes by (simp add: startIndex_def sortSearch_def searchLoop_step demo_hashes)
  then have "GetNext ?s ''s1'' ''a'' = podOf ?s ''c''"
    by (simp add: GetNext_def demo_vnodes[unfolded One_nat_def] upt_rec)
  then show ?thesis by (simp add: podOf_def SetPods_def podA_def podB_def podC_def)
qed

lemma demo_noCollision: "noCollision 1 [podA, podB, podC]"
  by (simp add: noCollision_def vnodeSet_def podVnodes_def podA_def podB_def podC_def demo_hashes)

theorem Get_clockwise_successor_witness:
  "\<exists>v \<in> vnodeSet 1 [podA, podB, podC]. vn_podID v = ''a''
     \<and> \<not> vn_hash v - hashKey ''s1'' > hashVnode ''b'' 0 - hashKey ''s1''"
proof -
  have b: "\<lparr>vn_hash = hashVnode ''b'' 0, vn_podID = ''b''\<rparr> \<in> vnodeSet 1 [podA, podB, podC]"
    by (simp add: vnodeSet_def podVnodes_def podB_def)
  from Get_clockwise_successor[OF sorts_sort_key, of 1 "[podA, podB, podC]" "''s1''"]
  obtain v where v: "v \<in> vnodeSet 1 [podA, podB, podC]" "''a'' = vn_podID v"
    "\<forall>w \<in> vnodeSet 1 [podA, podB, podC]. vn_hash v - hashKey ''s1'' \<le> vn_hash w - hashKey ''s1''"
    unfolding demo_owner by auto
  with bspec[OF v(3) b] show ?thesis by (intro bexI[of _ v]) (simp_all add: not_less)
qed

theorem SetPods_minimal_disruption_witness:
  "ringGet (SetPods (sort_key vn_hash) 1 [podB, podA]) ''s1'' = ringGet (SetPods (sort_key vn_hash) 1 [podA, podB, podC]) ''s1''"
proof (rule SetPods_minimal_disruption[OF sorts_sort_key sorts_sort_key _ _ demo_noCollision])
  show "pod_ID (ringGet (SetPods (sort_key vn_hash) 1 [podA, podB, podC]) ''s1'') \<in> pod_ID ` set [podB, podA]"
    unfolding demo_owner by (simp add: podA_def)
  show "inj_on pod_ID (set [podA, podB, podC])" by (simp add: podA_def podB_def podC_def)
qed auto

theorem GetNext_failover_witness:
  "pod_ID (GetNext (SetPods (sort_key vn_hash) 1 [podA, podB, podC]) ''s1'' ''a'') \<noteq> ''a''"
  using GetNext_failover[OF sorts_sort_key, of 1 podB "[podA, podB, podC]" "''s1''"]
  unfolding demo_owner by (simp add: podB_def)

end
