(* ===== verification/RouterCache.thy ===== *)
theory RouterCache
  imports StoreTypes
begin

text \<open>
  The soft-coordinator hint cache of the router (\<^verbatim>\<open>internal/router/cache/hint.go\<close>): a doubly linked list of
  entries in order of use, and a map from session to list element.  Elements are pointers that the
  list and the map share, so the model keeps a store of entries, a list of addresses and a map to
  addresses.  Each operation runs under the cache's mutex and reads the clock once.
\<close>

record hint_entry =
  he_sessionID :: string
  he_podID :: string
  he_expiry :: time

type_synonym addr = nat

record Hint =
  h_maxEntries :: int
  h_ttl :: int
  h_entries :: "addr \<Rightarrow> hint_entry"
  h_ll :: "addr list"
  h_items :: "string \<rightharpoonup> addr"
  h_alloc :: addr

definition newHint :: "int \<Rightarrow> int \<Rightarrow> (unit, Hint) run" where
  "newHint maxEntries ttl =
     (if maxEntries \<le> 0 then Panic
      else if ttl \<le> 0 then Panic
      else Ok \<lparr>h_maxEntries = maxEntries, h_ttl = ttl,
               h_entries = (\<lambda>_. \<lparr>he_sessionID = [], he_podID = [], he_expiry = 0\<rparr>),
               h_ll = [], h_items = Map.empty, h_alloc = 0\<rparr>)"

definition removeElement :: "addr \<Rightarrow> Hint \<Rightarrow> Hint" where
  "removeElement el h =
     h\<lparr>h_ll := remove1 el (h_ll h), h_items := (h_items h)(he_sessionID (h_entries h el) := None)\<rparr>"

definition MoveToFront :: "addr \<Rightarrow> Hint \<Rightarrow> Hint" where
  "MoveToFront el h = h\<lparr>h_ll := el # remove1 el (h_ll h)\<rparr>"

definition hintGet :: "time \<Rightarrow> string \<Rightarrow> Hint \<Rightarrow> string option \<times> Hint" where
  "hintGet now sessionID h =
     (case h_items h sessionID of
        None \<Rightarrow> (None, h)
      | Some el \<Rightarrow>
          let e = h_entries h el in
          if now > he_expiry e then (None, removeElement el h)
          else (Some (he_podID e), MoveToFront el h))"

text \<open>Removing the back of an empty list dereferences a nil element.\<close>

definition evict :: "Hint \<Rightarrow> (unit, Hint) run" where
  "evict h =
     (if int (length (h_ll h)) \<ge> h_maxEntries h then
        (if h_ll h = [] then Panic else Ok (removeElement (last (h_ll h)) h))
      else Ok h)"

definition hintSet :: "time \<Rightarrow> string \<Rightarrow> string \<Rightarrow> Hint \<Rightarrow> (unit, Hint) run" where
  "hintSet now sessionID podID h =
     (let expiry = now + h_ttl h in
      case h_items h sessionID of
        Some el \<Rightarrow>
          Ok (MoveToFront el (h\<lparr>h_entries := (h_entries h)(el := (h_entries h el)\<lparr>he_podID := podID, he_expiry := expiry\<rparr>)\<rparr>))
      | None \<Rightarrow>
          run_bind (evict h) (\<lambda>h1.
            let el = h_alloc h1 in
            Ok (h1\<lparr>h_entries := (h_entries h1)(el := \<lparr>he_sessionID = sessionID, he_podID = podID, he_expiry = expiry\<rparr>),
                   h_ll := el # h_ll h1, h_items := (h_items h1)(sessionID \<mapsto> el), h_alloc := Suc el\<rparr>)))"

definition hintInvalidate :: "string \<Rightarrow> Hint \<Rightarrow> Hint" where
  "hintInvalidate sessionID h =
     (case h_items h sessionID of None \<Rightarrow> h | Some el \<Rightarrow> removeElement el h)"

subsection \<open>The specification: a bounded list in order of use\<close>

type_synonym lru = "(string \<times> string \<times> time) list"

definition lru_del :: "string \<Rightarrow> lru \<Rightarrow> lru" where
  "lru_del s c = filter (\<lambda>x. fst x \<noteq> s) c"

definition lru_get :: "time \<Rightarrow> string \<Rightarrow> lru \<Rightarrow> string option \<times> lru" where
  "lru_get now s c =
     (case map_of c s of
        None \<Rightarrow> (None, c)
      | Some (p, e) \<Rightarrow> if now > e then (None, lru_del s c) else (Some p, (s, p, e) # lru_del s c))"

definition lru_set :: "nat \<Rightarrow> time \<Rightarrow> string \<Rightarrow> string \<Rightarrow> lru \<Rightarrow> lru" where
  "lru_set n e s p c =
     (if s \<in> fst ` set c then (s, p, e) # lru_del s c else (s, p, e) # take (n - 1) c)"

subsection \<open>Refinement\<close>

definition hint_inv :: "Hint \<Rightarrow> bool" where
  "hint_inv h \<longleftrightarrow>
     0 < h_maxEntries h \<and> int (length (h_ll h)) \<le> h_maxEntries h
     \<and> distinct (h_ll h) \<and> (\<forall>a \<in> set (h_ll h). a < h_alloc h)
     \<and> (\<forall>s a. h_items h s = Some a \<longleftrightarrow> a \<in> set (h_ll h) \<and> he_sessionID (h_entries h a) = s)"

definition entry_of :: "Hint \<Rightarrow> addr \<Rightarrow> string \<times> string \<times> time" where
  "entry_of h a = (he_sessionID (h_entries h a), he_podID (h_entries h a), he_expiry (h_entries h a))"

definition hint_abs :: "Hint \<Rightarrow> lru" where
  "hint_abs h = map (entry_of h) (h_ll h)"

definition hint_bound :: "Hint \<Rightarrow> nat" where
  "hint_bound h = nat (h_maxEntries h)"

lemma hint_inv_session_inj:
  assumes "hint_inv h" "a \<in> set (h_ll h)" "b \<in> set (h_ll h)" "he_sessionID (h_entries h a) = he_sessionID (h_entries h b)"
  shows "a = b"
  using assms unfolding hint_inv_def by (metis option.inject)

lemma hint_items_None: "hint_inv h \<Longrightarrow> h_items h s = None \<longleftrightarrow> s \<notin> fst ` set (hint_abs h)"
  unfolding hint_inv_def hint_abs_def entry_of_def by (auto simp: image_iff) (metis not_None_eq)+

lemma distinct_hint_abs: "hint_inv h \<Longrightarrow> distinct (map fst (hint_abs h))"
  using hint_inv_session_inj[of h]
  by (auto simp: hint_abs_def entry_of_def distinct_map comp_def hint_inv_def inj_on_def)

lemma map_of_hint_abs:
  assumes "hint_inv h" "h_items h s = Some a"
  shows "map_of (hint_abs h) s = Some (he_podID (h_entries h a), he_expiry (h_entries h a))"
proof -
  have a: "a \<in> set (h_ll h)" "he_sessionID (h_entries h a) = s" using assms by (auto simp: hint_inv_def)
  then show ?thesis using distinct_hint_abs[OF assms(1)] by (auto simp: hint_abs_def entry_of_def intro!: map_of_is_SomeI)
qed

lemma remove1_abs:
  assumes "hint_inv h" "a \<in> set (h_ll h)"
  shows "map (entry_of h) (remove1 a (h_ll h)) = lru_del (he_sessionID (h_entries h a)) (hint_abs h)"
proof -
  have "remove1 a (h_ll h) = filter (\<lambda>x. a \<noteq> x) (h_ll h)"
    using assms by (simp add: distinct_remove1_removeAll removeAll_filter_not_eq hint_inv_def)
  also have "\<dots> = filter (\<lambda>x. he_sessionID (h_entries h x) \<noteq> he_sessionID (h_entries h a)) (h_ll h)"
    using hint_inv_session_inj[OF assms(1)] assms(2) by (intro filter_cong) auto
  finally show ?thesis
    by (simp add: lru_del_def hint_abs_def filter_map comp_def entry_of_def)
qed

lemma hint_items_SomeD:
  "hint_inv h \<Longrightarrow> h_items h s = Some a \<Longrightarrow> a \<in> set (h_ll h) \<and> he_sessionID (h_entries h a) = s"
  by (auto simp: hint_inv_def)

lemma removeElement_refines:
  assumes "hint_inv h" "a \<in> set (h_ll h)"
  shows "hint_inv (removeElement a h)"
    and "hint_abs (removeElement a h) = lru_del (he_sessionID (h_entries h a)) (hint_abs h)"
proof -
  have d: "distinct (h_ll h)" using assms(1) by (simp add: hint_inv_def)
  have items: "h_items (removeElement a h) s = Some b \<longleftrightarrow>
      b \<in> set (h_ll (removeElement a h)) \<and> he_sessionID (h_entries h b) = s" for s b
    using assms hint_inv_session_inj[OF assms(1)] d by (auto simp: removeElement_def hint_inv_def)
  then show "hint_inv (removeElement a h)"
    using assms d by (auto simp: hint_inv_def removeElement_def length_remove1)
  show "hint_abs (removeElement a h) = lru_del (he_sessionID (h_entries h a)) (hint_abs h)"
    using remove1_abs[OF assms] by (simp add: hint_abs_def removeElement_def entry_of_def cong: map_cong)
qed

lemma MoveToFront_refines:
  assumes "hint_inv h" "a \<in> set (h_ll h)"
  shows "hint_inv (MoveToFront a h)"
    and "hint_abs (MoveToFront a h) = entry_of h a # lru_del (he_sessionID (h_entries h a)) (hint_abs h)"
proof -
  have d: "distinct (h_ll h)" "length (h_ll h) \<noteq> 0" using assms by (auto simp: hint_inv_def)
  then show "hint_inv (MoveToFront a h)"
    using assms by (auto simp: hint_inv_def MoveToFront_def length_remove1)
  show "hint_abs (MoveToFront a h) = entry_of h a # lru_del (he_sessionID (h_entries h a)) (hint_abs h)"
    using remove1_abs[OF assms] by (simp add: hint_abs_def MoveToFront_def entry_of_def cong: map_cong)
qed

lemma hintGet_refines:
  assumes "hint_inv h"
  shows "hint_inv (snd (hintGet now s h))"
    and "lru_get now s (hint_abs h) = (fst (hintGet now s h), hint_abs (snd (hintGet now s h)))"
proof -
  have "hint_inv (snd (hintGet now s h)) \<and>
     lru_get now s (hint_abs h) = (fst (hintGet now s h), hint_abs (snd (hintGet now s h)))"
  proof (cases "h_items h s")
    case None
    then have "map_of (hint_abs h) s = None" using hint_items_None[OF assms] by (simp add: map_of_eq_None_iff)
    with None assms show ?thesis by (simp add: hintGet_def lru_get_def)
  next
    case (Some a)
    note a = hint_items_SomeD[OF assms Some]
    show ?thesis
      using Some a removeElement_refines[OF assms, of a] MoveToFront_refines[OF assms, of a]
      by (auto simp: hintGet_def lru_get_def map_of_hint_abs[OF assms Some] Let_def entry_of_def)
  qed
  then show "hint_inv (snd (hintGet now s h))"
    "lru_get now s (hint_abs h) = (fst (hintGet now s h), hint_abs (snd (hintGet now s h)))" by simp_all
qed

lemma hintInvalidate_refines:
  assumes "hint_inv h"
  shows "hint_inv (hintInvalidate s h)" and "hint_abs (hintInvalidate s h) = lru_del s (hint_abs h)"
proof -
  have "hint_inv (hintInvalidate s h) \<and> hint_abs (hintInvalidate s h) = lru_del s (hint_abs h)"
  proof (cases "h_items h s")
    case None
    then have "lru_del s (hint_abs h) = hint_abs h"
      using hint_items_None[OF assms] by (auto simp: lru_del_def filter_id_conv)
    with None assms show ?thesis by (simp add: hintInvalidate_def)
  next
    case (Some a)
    with hint_items_SomeD[OF assms Some] removeElement_refines[OF assms, of a] show ?thesis
      by (simp add: hintInvalidate_def)
  qed
  then show "hint_inv (hintInvalidate s h)" "hint_abs (hintInvalidate s h) = lru_del s (hint_abs h)" by simp_all
qed

lemma evict_refines:
  assumes "hint_inv h"
  obtains h1 where "evict h = Ok h1" "hint_inv h1" "hint_abs h1 = take (hint_bound h - 1) (hint_abs h)"
    "int (length (h_ll h1)) < h_maxEntries h1" "h_maxEntries h1 = h_maxEntries h" "h_ttl h1 = h_ttl h"
    "set (h_ll h1) \<subseteq> set (h_ll h)"
proof (cases "int (length (h_ll h)) \<ge> h_maxEntries h")
  case True
  then have len: "int (length (h_ll h)) = h_maxEntries h" "h_ll h \<noteq> []" "distinct (h_ll h)"
    using assms by (auto simp: hint_inv_def)
  let ?a = "last (h_ll h)" and ?h1 = "removeElement (last (h_ll h)) h"
  have a: "?a \<in> set (h_ll h)" using len by simp
  have rm: "remove1 ?a (h_ll h) = butlast (h_ll h)"
    using len(2,3) by (metis append_butlast_last_id distinct_butlast not_distinct_conv_prefix remove1_append remove1.simps(2) append_Nil2)
  then have ll: "h_ll ?h1 = butlast (h_ll h)" by (simp add: removeElement_def)
  have "hint_abs ?h1 = take (hint_bound h - 1) (hint_abs h)"
    using len by (simp add: hint_abs_def removeElement_def rm hint_bound_def butlast_conv_take take_map entry_of_def flip: len(1) cong: map_cong)
  moreover have "int (length (h_ll ?h1)) < h_maxEntries ?h1"
    using len(2) by (simp add: ll len(1)[symmetric] removeElement_def rm)
  moreover have "evict h = Ok ?h1" using True len by (simp add: evict_def)
  moreover have "set (h_ll ?h1) \<subseteq> set (h_ll h)" unfolding ll by (auto dest: in_set_butlastD)
  moreover have "h_maxEntries ?h1 = h_maxEntries h" "h_ttl ?h1 = h_ttl h" by (simp_all add: removeElement_def)
  ultimately show ?thesis using that removeElement_refines(1)[OF assms a] by blast
next
  case False
  then have "hint_abs h = take (hint_bound h - 1) (hint_abs h)"
    by (auto simp: hint_abs_def hint_bound_def)
  with that[of h] False assms show ?thesis by (simp add: evict_def)
qed

lemma hintSet_refines:
  assumes "hint_inv h"
  obtains h' where "hintSet now s p h = Ok h'" "hint_inv h'"
    "hint_abs h' = lru_set (hint_bound h) (now + h_ttl h) s p (hint_abs h)"
    "h_maxEntries h' = h_maxEntries h" "h_ttl h' = h_ttl h"
proof (cases "h_items h s")
  case (Some a)
  note a = hint_items_SomeD[OF assms Some]
  let ?h1 = "h\<lparr>h_entries := (h_entries h)(a := (h_entries h a)\<lparr>he_podID := p, he_expiry := now + h_ttl h\<rparr>)\<rparr>"
  have inv1: "hint_inv ?h1" using assms by (auto simp: hint_inv_def)
  have m: "s \<in> fst ` set (hint_abs h)" using hint_items_None[OF assms, of s] Some by auto
  have "lru_del s (hint_abs ?h1) = lru_del s (hint_abs h)"
    using a hint_inv_session_inj[OF assms]
    by (auto simp: lru_del_def hint_abs_def filter_map comp_def entry_of_def intro!: map_cong filter_cong)
  then have "hint_abs (MoveToFront a ?h1) = lru_set (hint_bound h) (now + h_ttl h) s p (hint_abs h)"
    using MoveToFront_refines(2)[OF inv1, of a] a m by (simp add: lru_set_def entry_of_def)
  with that[of "MoveToFront a ?h1"] show ?thesis
    using Some MoveToFront_refines(1)[OF inv1, of a] a by (simp add: hintSet_def MoveToFront_def)
next
  case None
  obtain h1 where e: "evict h = Ok h1" "hint_inv h1" "hint_abs h1 = take (hint_bound h - 1) (hint_abs h)"
    "int (length (h_ll h1)) < h_maxEntries h1" "h_maxEntries h1 = h_maxEntries h" "h_ttl h1 = h_ttl h"
    "set (h_ll h1) \<subseteq> set (h_ll h)"
    using evict_refines[OF assms] by metis
  let ?el = "h_alloc h1"
  let ?h' = "h1\<lparr>h_entries := (h_entries h1)(?el := \<lparr>he_sessionID = s, he_podID = p, he_expiry = now + h_ttl h\<rparr>),
      h_ll := ?el # h_ll h1, h_items := (h_items h1)(s \<mapsto> ?el), h_alloc := Suc ?el\<rparr>"
  have fresh: "?el \<notin> set (h_ll h1)" using e(2) by (auto simp: hint_inv_def)
  have ns: "s \<notin> fst ` set (hint_abs h)" using None hint_items_None[OF assms] by simp
  then have ns1: "s \<notin> fst ` set (hint_abs h1)" unfolding e(3) using set_take_subset[of _ "hint_abs h"] by fastforce
  have other: "a \<in> set (h_ll h1) \<Longrightarrow> he_sessionID (h_entries h1 a) \<noteq> s \<and> a \<noteq> ?el" for a
    using ns1 fresh by (auto simp: hint_abs_def entry_of_def image_image)
  have "h_items ?h' t = Some a \<longleftrightarrow> a \<in> set (h_ll ?h') \<and> he_sessionID (h_entries ?h' a) = t" for t a
    using e(2) other[of a] fresh by (cases "t = s") (auto simp: hint_inv_def)
  moreover have "\<forall>a \<in> set (h_ll ?h'). a < h_alloc ?h'" "distinct (h_ll ?h')" "0 < h_maxEntries ?h'"
    "int (length (h_ll ?h')) \<le> h_maxEntries ?h'"
    using e(2,4) fresh by (auto simp: hint_inv_def)
  ultimately have "hint_inv ?h'" unfolding hint_inv_def by blast
  moreover have "hint_abs ?h' = lru_set (hint_bound h) (now + h_ttl h) s p (hint_abs h)"
  proof -
    have "map (entry_of ?h') (h_ll h1) = hint_abs h1"
      unfolding hint_abs_def using fresh by (auto simp: entry_of_def)
    then show ?thesis using ns e(3) by (simp add: hint_abs_def[of ?h'] entry_of_def lru_set_def)
  qed
  ultimately show ?thesis using that[of ?h'] None e by (simp add: hintSet_def Let_def)
qed

subsection \<open>Sequences of operations\<close>

datatype cache_op = CGet time string | CSet time string string | CInvalidate string

fun runOps ::
  "(time \<Rightarrow> string \<Rightarrow> 'h \<Rightarrow> string option \<times> 'h) \<Rightarrow> (time \<Rightarrow> string \<Rightarrow> string \<Rightarrow> 'h \<Rightarrow> (unit, 'h) run) \<Rightarrow> (string \<Rightarrow> 'h \<Rightarrow> 'h)
   \<Rightarrow> cache_op list \<Rightarrow> 'h \<Rightarrow> (unit, string option list \<times> 'h) run"
where
  "runOps get put del [] h = Ok ([], h)"
| "runOps get put del (CGet now s # ops) h =
     (let (r, h') = get now s h in
      run_bind (runOps get put del ops h') (\<lambda>(rs, h''). Ok (r # rs, h'')))"
| "runOps get put del (CSet now s p # ops) h = run_bind (put now s p h) (runOps get put del ops)"
| "runOps get put del (CInvalidate s # ops) h = runOps get put del ops (del s h)"

text \<open>
  The contract of a bounded cache in order of use: every operation keeps the invariant and acts on
  the abstraction as the list operations do, and storing never panics.
\<close>

locale lru_cache =
  fixes inv :: "'h \<Rightarrow> bool" and abs :: "'h \<Rightarrow> lru" and bound :: "'h \<Rightarrow> nat" and ttl :: "'h \<Rightarrow> int"
    and get :: "time \<Rightarrow> string \<Rightarrow> 'h \<Rightarrow> string option \<times> 'h"
    and put :: "time \<Rightarrow> string \<Rightarrow> string \<Rightarrow> 'h \<Rightarrow> (unit, 'h) run"
    and del :: "string \<Rightarrow> 'h \<Rightarrow> 'h"
  assumes get_refines: "inv h \<Longrightarrow> get now s h = (r, h') \<Longrightarrow>
      inv h' \<and> bound h' = bound h \<and> ttl h' = ttl h \<and> lru_get now s (abs h) = (r, abs h')"
    and put_refines: "inv h \<Longrightarrow> \<exists>h'. put now s p h = Ok h' \<and> inv h' \<and> bound h' = bound h \<and> ttl h' = ttl h
      \<and> abs h' = lru_set (bound h) (now + ttl h) s p (abs h)"
    and del_refines: "inv h \<Longrightarrow> inv (del s h) \<and> bound (del s h) = bound h \<and> ttl (del s h) = ttl h
      \<and> abs (del s h) = lru_del s (abs h)"
begin

lemma runOps_refines:
  "inv h \<Longrightarrow> \<exists>rs h'. runOps get put del ops h = Ok (rs, h') \<and> inv h' \<and> bound h' = bound h \<and> ttl h' = ttl h
     \<and> runOps lru_get (\<lambda>now s p c. Ok (lru_set (bound h) (now + ttl h) s p c)) lru_del ops (abs h) = Ok (rs, abs h')"
proof (induction ops arbitrary: h)
  case Nil
  then show ?case by simp
next
  case (Cons op ops)
  show ?case
  proof (cases op)
    case (CGet now s)
    obtain r h1 where g: "get now s h = (r, h1)" by (cases "get now s h")
    note gr = get_refines[OF Cons.prems g]
    obtain rs h' where "runOps get put del ops h1 = Ok (rs, h')" "inv h'" "bound h' = bound h" "ttl h' = ttl h"
      "runOps lru_get (\<lambda>now s p c. Ok (lru_set (bound h) (now + ttl h) s p c)) lru_del ops (abs h1) = Ok (rs, abs h')"
      using Cons.IH[of h1] gr by auto
    with gr show ?thesis by (intro exI[of _ "r # rs"] exI[of _ h']) (simp add: CGet g)
  next
    case (CSet now s p)
    obtain h1 where p: "put now s p h = Ok h1" "inv h1" "bound h1 = bound h" "ttl h1 = ttl h"
      "abs h1 = lru_set (bound h) (now + ttl h) s p (abs h)" using put_refines[OF Cons.prems] by blast
    from Cons.IH[OF p(2)] show ?thesis by (simp add: CSet p)
  next
    case (CInvalidate s)
    from del_refines[OF Cons.prems, of s] Cons.IH[of "del s h"] show ?thesis by (simp add: CInvalidate)
  qed
qed

end

lemma hint_frame:
  "h_maxEntries (snd (hintGet now s h)) = h_maxEntries h" "h_ttl (snd (hintGet now s h)) = h_ttl h"
  "h_maxEntries (hintInvalidate s h) = h_maxEntries h" "h_ttl (hintInvalidate s h) = h_ttl h"
  by (simp_all add: hintGet_def hintInvalidate_def removeElement_def MoveToFront_def Let_def split: option.splits)

interpretation hint_lru: lru_cache hint_inv hint_abs hint_bound h_ttl hintGet hintSet hintInvalidate
proof
  fix h now s r h' assume "hint_inv h" "hintGet now s h = (r, h')"
  then show "hint_inv h' \<and> hint_bound h' = hint_bound h \<and> h_ttl h' = h_ttl h \<and> lru_get now s (hint_abs h) = (r, hint_abs h')"
    using hintGet_refines[of h now s] hint_frame(1,2)[of now s h] by (simp add: hint_bound_def)
next
  fix h now s p assume h: "hint_inv h"
  show "\<exists>h'. hintSet now s p h = Ok h' \<and> hint_inv h' \<and> hint_bound h' = hint_bound h \<and> h_ttl h' = h_ttl h
      \<and> hint_abs h' = lru_set (hint_bound h) (now + h_ttl h) s p (hint_abs h)"
    by (rule hintSet_refines[OF h, of now s p]) (simp add: hint_bound_def)
next
  fix h s assume "hint_inv h"
  then show "hint_inv (hintInvalidate s h) \<and> hint_bound (hintInvalidate s h) = hint_bound h
      \<and> h_ttl (hintInvalidate s h) = h_ttl h \<and> hint_abs (hintInvalidate s h) = lru_del s (hint_abs h)"
    using hintInvalidate_refines[of h s] by (simp add: hint_bound_def hint_frame)
qed

lemma newHint_inv: "newHint n ttl = Ok h \<Longrightarrow> hint_inv h \<and> hint_abs h = [] \<and> hint_bound h = nat n \<and> h_ttl h = ttl"
  by (auto simp: newHint_def hint_inv_def hint_abs_def hint_bound_def split: if_splits)

text \<open>
  C13: The pointer structure implements a bounded list in order of use.  On a new cache, every
  sequence of lookups, stores and invalidations runs without a panic and answers every lookup as
  the list does; the list never exceeds the configured number of entries.
\<close>
theorem hint_refines_lru:
  assumes "newHint n ttl = Ok h"
  shows "\<exists>rs h'. runOps hintGet hintSet hintInvalidate ops h = Ok (rs, h')
     \<and> runOps lru_get (\<lambda>now s p c. Ok (lru_set (nat n) (now + ttl) s p c)) lru_del ops [] = Ok (rs, hint_abs h')
     \<and> length (hint_abs h') \<le> nat n"
proof -
  note new = newHint_inv[OF assms]
  from hint_lru.runOps_refines[of h ops] new obtain rs h' where
    r: "runOps hintGet hintSet hintInvalidate ops h = Ok (rs, h')" "hint_inv h'" "hint_bound h' = nat n"
      "runOps lru_get (\<lambda>now s p c. Ok (lru_set (nat n) (now + ttl) s p c)) lru_del ops [] = Ok (rs, hint_abs h')"
    by auto
  have "length (hint_abs h') \<le> nat n" using r(2,3) by (auto simp: hint_inv_def hint_abs_def hint_bound_def)
  with r show ?thesis by blast
qed

theorem hint_refines_lru_witness:
  "\<exists>rs h'. runOps hintGet hintSet hintInvalidate [CSet 0 ''s'' ''a'', CGet 1 ''s'']
       (case newHint 2 60 of Ok h \<Rightarrow> h) = Ok (rs, h') \<and> length (hint_abs h') \<le> 2"
proof -
  obtain h where "newHint 2 60 = Ok h" by (simp add: newHint_def)
  from hint_refines_lru[OF this, of "[CSet 0 ''s'' ''a'', CGet 1 ''s'']"] this show ?thesis by auto
qed

subsection \<open>What the cache answers\<close>

text \<open>The sessions other than \<open>s\<close> that a sequence of operations looks up or stores.\<close>

fun touched :: "string \<Rightarrow> cache_op list \<Rightarrow> string set" where
  "touched s [] = {}"
| "touched s (CGet _ t # ops) = (if t = s then {} else {t}) \<union> touched s ops"
| "touched s (CSet _ t _ # ops) = (if t = s then {} else {t}) \<union> touched s ops"
| "touched s (CInvalidate _ # ops) = touched s ops"

text \<open>No operation stores or invalidates \<open>s\<close>, and lookups of \<open>s\<close> come before its expiry.\<close>

fun leaves :: "string \<Rightarrow> time \<Rightarrow> cache_op \<Rightarrow> bool" where
  "leaves s e (CGet now t) = (t = s \<longrightarrow> now \<le> e)"
| "leaves s e (CSet _ t _) = (t \<noteq> s)"
| "leaves s e (CInvalidate t) = (t \<noteq> s)"

definition kept :: "string \<Rightarrow> string \<Rightarrow> time \<Rightarrow> string set \<Rightarrow> lru \<Rightarrow> bool" where
  "kept s p e T c \<longleftrightarrow> distinct (map fst c) \<and> (\<exists>pre post. c = pre @ (s, p, e) # post \<and> fst ` set pre \<subseteq> T)"

lemma finite_touched [simp]: "finite (touched s ops)"
  by (induction s ops rule: touched.induct) auto

lemma distinct_lru_del: "distinct (map fst c) \<Longrightarrow> distinct (map fst (lru_del t c)) \<and> t \<notin> fst ` set (lru_del t c)"
  by (induction c) (auto simp: lru_del_def)

lemma kept_del:
  assumes "kept s p e T c" "t \<noteq> s"
  shows "kept s p e T (lru_del t c)" "kept s p e (insert t T) ((t, q) # lru_del t c)"
proof -
  obtain pre post where c: "c = pre @ (s, p, e) # post" "fst ` set pre \<subseteq> T" using assms by (auto simp: kept_def)
  have d: "lru_del t c = lru_del t pre @ (s, p, e) # lru_del t post" using c assms(2) by (simp add: lru_del_def)
  have f: "fst ` set (lru_del t pre) \<subseteq> T" using c(2) by (auto simp: lru_del_def)
  have dd: "distinct (map fst (lru_del t c))" "t \<notin> fst ` set (lru_del t c)"
    using assms(1) distinct_lru_del by (auto simp: kept_def)
  then show "kept s p e T (lru_del t c)" using d f by (auto simp: kept_def)
  have "(t, q) # lru_del t c = ((t, q) # lru_del t pre) @ (s, p, e) # lru_del t post" using d by simp
  moreover have "fst ` set ((t, q) # lru_del t pre) \<subseteq> insert t T" using f by auto
  moreover have "distinct (map fst ((t, q) # lru_del t c))" using dd by simp
  ultimately show "kept s p e (insert t T) ((t, q) # lru_del t c)" unfolding kept_def by blast
qed

lemma kept_mono: "kept s p e T c \<Longrightarrow> T \<subseteq> T' \<Longrightarrow> kept s p e T' c"
  by (auto simp: kept_def)

lemma kept_map_of: "kept s p e T c \<Longrightarrow> map_of c s = Some (p, e)"
  by (auto simp: kept_def intro!: map_of_is_SomeI)

lemma kept_get:
  assumes "kept s p e T c" "leaves s e (CGet now t)"
  shows "kept s p e (if t = s then T else insert t T) (snd (lru_get now t c))"
proof (cases "t = s")
  case True
  have "kept s p e T ((s, p, e) # lru_del s c)"
    using distinct_lru_del[of c s] assms(1) unfolding kept_def
    by (intro conjI exI[of _ "[]"] exI[of _ "lru_del s c"]) simp_all
  then show ?thesis using True assms kept_map_of[OF assms(1)] by (simp add: lru_get_def)
next
  case False
  then show ?thesis
    using kept_del(1)[OF assms(1), of t] kept_del(2)[OF assms(1), of t] kept_mono[of s p e T _ "insert t T"] assms(1)
    by (auto simp: lru_get_def split: option.splits)
qed

lemma kept_set:
  assumes "kept s p e T c" "t \<noteq> s" "finite T" "card (insert t T) < n"
  shows "kept s p e (insert t T) (lru_set n e' t q c)"
proof (cases "t \<in> fst ` set c")
  case True
  then show ?thesis using kept_del(2)[OF assms(1,2)] by (simp add: lru_set_def)
next
  case False
  obtain pre post where c: "c = pre @ (s, p, e) # post" "fst ` set pre \<subseteq> T" "distinct (map fst c)"
    using assms(1) by (auto simp: kept_def)
  have "length pre = card (fst ` set pre)" using c(1,3) distinct_card[of "map fst pre"] by simp
  also have "\<dots> \<le> card (T - {t})" using c(1,2) False assms(3) by (intro card_mono) auto
  also have "\<dots> < n - 1"
    using assms(3,4) card_Suc_Diff1[OF assms(3), of t] by (cases "t \<in> T") (auto simp: insert_absorb)
  finally have l: "length pre < n - 1" .
  then have "(t, q, e') # take (n - 1) c = ((t, q, e') # pre) @ (s, p, e) # take (n - 1 - length pre - 1) post"
    using c(1) by (simp add: take_Cons')
  moreover have "distinct (map fst ((t, q, e') # take (n - 1) c))"
    using c(3) False set_take_subset[of "n - 1" "map fst c"] by (auto simp: take_map[symmetric])
  moreover have "fst ` set ((t, q, e') # pre) \<subseteq> insert t T" using c(2) by auto
  ultimately have "kept s p e (insert t T) ((t, q, e') # take (n - 1) c)" unfolding kept_def by blast
  then show ?thesis using False by (simp add: lru_set_def)
qed

lemma kept_run:
  assumes "kept s p e T c" "finite T" "card (T \<union> touched s ops) < n" "list_all (leaves s e) ops"
    and "runOps lru_get (\<lambda>now s p c. Ok (lru_set n (now + ttl) s p c)) lru_del ops c = Ok (rs, c')"
  shows "\<exists>T'. kept s p e T' c'"
  using assms
proof (induction ops arbitrary: c T rs)
  case Nil
  then show ?case by auto
next
  case (Cons op ops)
  let ?run = "runOps lru_get (\<lambda>now s p c. Ok (lru_set n (now + ttl) s p c)) lru_del"
  show ?case
  proof (cases op)
    case (CGet now t)
    let ?T = "if t = s then T else insert t T"
    have k: "kept s p e ?T (snd (lru_get now t c))" using kept_get[OF Cons.prems(1), of now t] Cons.prems(4) CGet by simp
    obtain rs1 where "?run ops (snd (lru_get now t c)) = Ok (rs1, c')"
      using Cons.prems(5) by (auto simp: CGet run_bind_Ok_iff split: prod.splits)
    with k Cons.prems(2-4) show ?thesis by (intro Cons.IH[of ?T]) (auto simp: CGet Un_commute)
  next
    case (CSet now t q)
    then have t: "t \<noteq> s" using Cons.prems(4) by simp
    have "card (insert t T) \<le> card (T \<union> touched s (op # ops))"
      using Cons.prems(2) t by (intro card_mono) (auto simp: CSet)
    then have "kept s p e (insert t T) (lru_set n (now + ttl) t q c)"
      using Cons.prems(2,3) by (intro kept_set[OF Cons.prems(1) t]) simp_all
    with Cons.prems(2-5) t show ?thesis by (intro Cons.IH[of "insert t T"]) (auto simp: CSet)
  next
    case (CInvalidate t)
    then have "kept s p e T (lru_del t c)" using kept_del(1)[OF Cons.prems(1)] Cons.prems(4) by simp
    with Cons.prems(2-5) show ?thesis by (intro Cons.IH[of T]) (auto simp: CInvalidate)
  qed
qed

lemma run_bind_assoc: "run_bind (run_bind m f) g = run_bind m (\<lambda>x. run_bind (f x) g)"
  by (cases m) auto

lemma runOps_append:
  "runOps g u d (xs @ ys) h = run_bind (runOps g u d xs h) (\<lambda>(rs, h1). run_bind (runOps g u d ys h1) (\<lambda>(rs', h2). Ok (rs @ rs', h2)))"
proof (induction g u d xs h rule: runOps.induct)
  case (1 g u d h)
  then show ?case by (cases "runOps g u d ys h") auto
next
  case (2 g u d now s ops h)
  obtain r h' where "g now s h = (r, h')" by (cases "g now s h")
  moreover from this have IH: "runOps g u d (ops @ ys) h' =
      run_bind (runOps g u d ops h') (\<lambda>(rs, h1). run_bind (runOps g u d ys h1) (\<lambda>(rs', h2). Ok (rs @ rs', h2)))"
    using 2 by simp
  ultimately show ?case by (auto simp: run_bind_assoc split_beta intro!: run_bind_cong)
next
  case (3 g u d now s p ops h)
  then show ?case by (cases "u now s p h") auto
qed simp

text \<open>
  A hint survives its working set.  After a session's pod is stored, a lookup within the time-to-live
  answers with that pod if in between the session was neither stored again nor invalidated and
  fewer other sessions than the capacity were looked up or stored, whatever happened before.
\<close>
theorem hint_working_set:
  assumes "newHint n ttl = Ok h" "list_all (leaves s (t0 + ttl)) ops" "card (touched s ops) < nat n" "now \<le> t0 + ttl"
  shows "\<exists>rs h'. runOps hintGet hintSet hintInvalidate (before @ CSet t0 s p # ops @ [CGet now s]) h = Ok (rs @ [Some p], h')"
proof -
  note new = newHint_inv[OF assms(1)]
  let ?run = "runOps hintGet hintSet hintInvalidate"
  obtain rs1 h1 where r1: "?run before h = Ok (rs1, h1)" "hint_inv h1" "hint_bound h1 = nat n" "h_ttl h1 = ttl"
    using hint_lru.runOps_refines[of h before] new by auto
  obtain h2 where h2: "hintSet t0 s p h1 = Ok h2" "hint_inv h2" "hint_bound h2 = nat n" "h_ttl h2 = ttl"
    "hint_abs h2 = lru_set (nat n) (t0 + ttl) s p (hint_abs h1)"
    using hint_lru.put_refines[OF r1(2), of t0 s p] r1(3,4) by auto
  have "fst (hd (hint_abs h2)) = s \<and> hint_abs h2 = (s, p, t0 + ttl) # tl (hint_abs h2)"
    by (simp add: h2(5) lru_set_def)
  then have k2: "kept s p (t0 + ttl) {} (hint_abs h2)"
    using distinct_hint_abs[OF h2(2)] unfolding kept_def by (intro conjI exI[of _ "[]"] exI[of _ "tl (hint_abs h2)"]) simp_all
  obtain rs3 h3 where r3: "?run ops h2 = Ok (rs3, h3)" "hint_inv h3"
    "runOps lru_get (\<lambda>now s p c. Ok (lru_set (nat n) (now + ttl) s p c)) lru_del ops (hint_abs h2) = Ok (rs3, hint_abs h3)"
    using hint_lru.runOps_refines[OF h2(2), of ops] h2(3,4) by auto
  obtain T where "kept s p (t0 + ttl) T (hint_abs h3)"
    using kept_run[OF k2 _ _ assms(2) r3(3)] assms(3) by auto
  then have "fst (lru_get now s (hint_abs h3)) = Some p"
    using kept_map_of assms(4) by (simp add: lru_get_def)
  then obtain h4 where "hintGet now s h3 = (Some p, h4)"
    using hintGet_refines(2)[OF r3(2), of now s] by (cases "hintGet now s h3") auto
  then show ?thesis using r1(1) h2(1) r3(1) by (simp add: runOps_append)
qed

text \<open>What an unbounded map with expiry times would hold.\<close>

fun history :: "int \<Rightarrow> cache_op list \<Rightarrow> (string \<rightharpoonup> string \<times> time) \<Rightarrow> string \<rightharpoonup> string \<times> time" where
  "history ttl [] m = m"
| "history ttl (CGet _ _ # ops) m = history ttl ops m"
| "history ttl (CSet now s p # ops) m = history ttl ops (m(s \<mapsto> (p, now + ttl)))"
| "history ttl (CInvalidate s # ops) m = history ttl ops (m(s := None))"

lemma map_of_lru_del: "map_of (lru_del t c) = (map_of c)(t := None)"
  by (induction c) (auto simp: lru_del_def)

lemma map_le_upd_both: "m \<subseteq>\<^sub>m m' \<Longrightarrow> m(k := v) \<subseteq>\<^sub>m m'(k := v)"
  by (auto simp: map_le_def)

lemma map_of_take_le: "map_of (take n c) \<subseteq>\<^sub>m map_of c"
  by (metis append_take_drop_id map_le_map_add map_of_append map_add_comm map_le_def map_add_dom_app_simps(1))

lemma map_of_lru_get: "map_of (snd (lru_get now t c)) \<subseteq>\<^sub>m map_of c"
  by (auto simp: lru_get_def map_of_lru_del map_le_def split: option.splits if_splits)

lemma map_of_lru_set: "map_of (lru_set n e t q c) \<subseteq>\<^sub>m (map_of c)(t \<mapsto> (q, e))"
  using map_of_take_le[of "n - 1" c] by (auto simp: lru_set_def map_of_lru_del map_le_def)

lemma history_run:
  assumes "runOps lru_get (\<lambda>now s p c. Ok (lru_set n (now + ttl) s p c)) lru_del ops c = Ok (rs, c')" "map_of c \<subseteq>\<^sub>m m"
  shows "map_of c' \<subseteq>\<^sub>m history ttl ops m"
  using assms
proof (induction ops arbitrary: c m rs)
  case (Cons op ops)
  show ?case
  proof (cases op)
    case (CGet now t)
    then show ?thesis
      using Cons.prems Cons.IH[of "snd (lru_get now t c)" _ m] map_le_trans[OF map_of_lru_get[of now t c]]
      by (auto simp: run_bind_Ok_iff split: prod.splits)
  next
    case (CSet now t q)
    have "map_of (lru_set n (now + ttl) t q c) \<subseteq>\<^sub>m m(t \<mapsto> (q, now + ttl))"
      using map_le_trans[OF map_of_lru_set map_le_upd_both[OF Cons.prems(2)]] .
    with Cons.prems(1) Cons.IH show ?thesis by (simp add: CSet)
  next
    case (CInvalidate t)
    have "map_of (lru_del t c) \<subseteq>\<^sub>m m(t := None)"
      unfolding map_of_lru_del by (rule map_le_upd_both[OF Cons.prems(2)])
    with Cons.prems(1) Cons.IH show ?thesis by (simp add: CInvalidate)
  qed
qed simp

text \<open>
  A hint is never invented, stale or out of date.  If a lookup answers with a pod, that pod is the one last
  stored for this session, the session has not been invalidated since, and the
  time-to-live of that store has not passed.
\<close>
theorem hint_sound:
  assumes "newHint n ttl = Ok h"
    and "runOps hintGet hintSet hintInvalidate ops h = Ok (rs, h')" "fst (hintGet now s h') = Some p"
  shows "\<exists>e. history ttl ops Map.empty s = Some (p, e) \<and> now \<le> e"
proof -
  obtain rs' h'' where r: "runOps hintGet hintSet hintInvalidate ops h = Ok (rs', h'')" "hint_inv h''"
    "runOps lru_get (\<lambda>now s p c. Ok (lru_set (nat n) (now + ttl) s p c)) lru_del ops [] = Ok (rs', hint_abs h'')"
    using hint_lru.runOps_refines[of h ops] newHint_inv[OF assms(1)] by auto
  then have h: "h'' = h'" using assms(2) by simp
  have le: "map_of (hint_abs h') \<subseteq>\<^sub>m history ttl ops Map.empty"
    using history_run[OF r(3), of Map.empty] h by simp
  have "fst (lru_get now s (hint_abs h')) = Some p" using hintGet_refines(2)[of h' now s] r(2) h assms(3) by simp
  then obtain e where "map_of (hint_abs h') s = Some (p, e)" "now \<le> e"
    by (auto simp: lru_get_def split: option.splits if_splits)
  with le show ?thesis by (auto simp: map_le_def dom_def)
qed

theorem hint_working_set_witness:
  "\<exists>rs h'. runOps hintGet hintSet hintInvalidate
     ([] @ CSet 0 ''s'' ''a'' # [CSet 1 ''t'' ''b'', CGet 2 ''t''] @ [CGet 60 ''s''])
     (case newHint 2 60 of Ok h \<Rightarrow> h) = Ok (rs @ [Some ''a''], h')"
proof -
  obtain h where h: "newHint 2 60 = Ok h" by (simp add: newHint_def)
  from hint_working_set[OF h, of "''s''" 0 "[CSet 1 ''t'' ''b'', CGet 2 ''t'']" 60 "[]" "''a''"] show ?thesis
    by (simp add: h)
qed

theorem hint_sound_witness:
  "\<exists>e. history 60 [CSet 0 ''s'' ''a''] Map.empty ''s'' = Some (''a'', e) \<and> 60 \<le> e"
proof -
  obtain h where h: "newHint 2 60 = Ok h" by (simp add: newHint_def)
  then obtain h' where "runOps hintGet hintSet hintInvalidate [CSet 0 ''s'' ''a''] h = Ok ([], h')"
    "fst (hintGet 60 ''s'' h') = Some ''a''"
    by (auto simp: newHint_def hintSet_def evict_def hintGet_def)
  from hint_sound[OF h this] show ?thesis .
qed

end
