(* ===== verification/RouterExtract.thy ===== *)
theory RouterExtract
  imports GoStrings
begin

text \<open>
  Session affinity of the router (\<^verbatim>\<open>internal/router/extract/extract.go\<close>): the session a request belongs to,
  from its path or, for MCP, from a header.  A request is its URL path and the value of the
  \<^verbatim>\<open>Jam-Session-Id\<close> header, empty when it is absent.
\<close>

definition slash :: char where "slash = CHR ''/''"

definition stripSlash :: "string \<Rightarrow> string" where
  "stripSlash path = (if length path > 1 \<and> last path = slash then butlast path else path)"

definition untilSlash :: "string \<Rightarrow> string" where
  "untilSlash s = (case IndexByte s slash of Some i \<Rightarrow> take i s | None \<Rightarrow> s)"

definition extractRESTSessionID :: "string \<Rightarrow> string" where
  "extractRESTSessionID path =
     (if \<not> HasPrefix path ''/api/orgs/'' then []
      else
        let rest = drop (length ''/api/orgs/'') path in
        case IndexByte rest slash of
          None \<Rightarrow> []
        | Some slashAfterOrg \<Rightarrow>
            let rest1 = drop (slashAfterOrg + 1) rest in
            if \<not> HasPrefix rest1 ''sessions/'' then []
            else
              let rest2 = drop (length ''sessions/'') rest1 in
              if rest2 = [] then [] else untilSlash rest2)"

definition extractWSSessionID :: "string \<Rightarrow> string" where
  "extractWSSessionID path =
     (let id = drop (length ''/ws/sessions/'') path in
      if id = [] then [] else untilSlash id)"

definition extractGitSessionID :: "string \<Rightarrow> string" where
  "extractGitSessionID path =
     (let rest = drop (length ''/git/'') path in
      case IndexByte rest slash of
        None \<Rightarrow> []
      | Some slashAfterOrg \<Rightarrow>
          let rawSeg = untilSlash (drop (slashAfterOrg + 1) rest) in
          if \<not> HasSuffix rawSeg ''.git'' then []
          else take (length rawSeg - length ''.git'') rawSeg)"

definition SessionID :: "string \<Rightarrow> string \<Rightarrow> string" where
  "SessionID urlPath header =
     (let path = stripSlash urlPath in
      if path \<in> {''/healthz'', ''/readyz'', ''/metrics''} \<or> HasPrefix path ''/metrics/''
         \<or> path = ''/auth'' \<or> HasPrefix path ''/auth/'' then []
      else if HasPrefix path ''/api/'' then extractRESTSessionID path
      else if HasPrefix path ''/ws/sessions/'' then extractWSSessionID path
      else if HasPrefix path ''/git/'' then extractGitSessionID path
      else header)"

subsection \<open>Round trips\<close>

text \<open>What may follow a path segment: nothing, or a slash and anything.\<close>

definition segmentEnd :: "string \<Rightarrow> bool" where
  "segmentEnd rest \<longleftrightarrow> rest = [] \<or> hd rest = slash"

lemma untilSlash_segment: "slash \<notin> set sid \<Longrightarrow> segmentEnd rest \<Longrightarrow> untilSlash (sid @ rest) = sid"
  by (cases rest) (auto simp: untilSlash_def segmentEnd_def IndexByte_append IndexByte_None_iff[THEN iffD2])

lemma untilSlash_no_slash: "slash \<notin> set (untilSlash s)"
  using IndexByte_SomeD[of s slash] IndexByte_None_iff[of s slash]
  by (auto simp: untilSlash_def split: option.splits dest: set_takeWhileD)

lemma stripSlash_segment:
  assumes "sid \<noteq> []" "slash \<notin> set sid" "segmentEnd rest"
  shows "\<exists>rest'. stripSlash (pre @ sid @ rest) = pre @ sid @ rest' \<and> segmentEnd rest'"
proof (cases rest rule: rev_cases)
  case Nil
  have "last sid \<noteq> slash" using assms(1,2) last_in_set by metis
  then show ?thesis using Nil assms(1) by (auto simp: stripSlash_def segmentEnd_def last_append)
next
  case (snoc r c)
  have "segmentEnd r" using assms(3) snoc by (cases r) (auto simp: segmentEnd_def)
  then show ?thesis using snoc assms by (cases "c = slash") (auto simp: stripSlash_def butlast_append)
qed

text \<open>
  Every transport of a session is routed under the same key.  For a session id without a slash, the REST,
  WebSocket and Git URLs of the session, with anything behind their session segment and with or without a trailing
  slash, and an MCP request that carries the id in its header, all yield the id.
\<close>
theorem SessionID_roundtrip:
  assumes "sid \<noteq> []" "slash \<notin> set sid" "slash \<notin> set org" "segmentEnd rest"
  shows "SessionID (''/api/orgs/'' @ org @ ''/sessions/'' @ sid @ rest) header = sid
     \<and> SessionID (''/ws/sessions/'' @ sid @ rest) header = sid
     \<and> SessionID (''/git/'' @ org @ ''/'' @ sid @ ''.git'' @ rest) header = sid
     \<and> SessionID ''/mcp'' sid = sid"
proof -
  obtain r1 where r1: "stripSlash ((''/api/orgs/'' @ org @ ''/sessions/'') @ sid @ rest) = (''/api/orgs/'' @ org @ ''/sessions/'') @ sid @ r1"
    "segmentEnd r1" using stripSlash_segment[OF assms(1,2,4)] by blast
  obtain r2 where r2: "stripSlash (''/ws/sessions/'' @ sid @ rest) = ''/ws/sessions/'' @ sid @ r2" "segmentEnd r2"
    using stripSlash_segment[OF assms(1,2,4)] by blast
  have g: "sid @ ''.git'' \<noteq> []" "slash \<notin> set (sid @ ''.git'')" using assms(2) by (auto simp: slash_def)
  obtain r3 where r3: "stripSlash ((''/git/'' @ org @ ''/'') @ (sid @ ''.git'') @ rest) = (''/git/'' @ org @ ''/'') @ (sid @ ''.git'') @ r3"
    "segmentEnd r3" using stripSlash_segment[OF g assms(4)] by blast
  have rest: "extractRESTSessionID (''/api/orgs/'' @ org @ ''/sessions/'' @ sid @ r1) = sid"
    using IndexByte_append[OF assms(3), of "''sessions/'' @ sid @ r1"] untilSlash_segment[OF assms(2) r1(2)] assms(1)
    by (simp add: extractRESTSessionID_def slash_def)
  have ws: "extractWSSessionID (''/ws/sessions/'' @ sid @ r2) = sid"
    using untilSlash_segment[OF assms(2) r2(2)] assms(1) by (simp add: extractWSSessionID_def)
  have git: "extractGitSessionID (''/git/'' @ org @ ''/'' @ sid @ ''.git'' @ r3) = sid"
    using IndexByte_append[OF assms(3), of "sid @ ''.git'' @ r3"] untilSlash_segment[OF g(2) r3(2)] HasSuffix_append[of sid "''.git''"]
    by (simp add: extractGitSessionID_def slash_def)
  show ?thesis
    using r1(1) r2(1) r3(1) rest ws git by (simp add: SessionID_def stripSlash_def slash_def)
qed

theorem SessionID_roundtrip_witness:
  "SessionID (''/api/orgs/'' @ ''o1'' @ ''/sessions/'' @ ''s1'' @ ''/events/'') [] = ''s1''
   \<and> SessionID (''/git/'' @ ''o1'' @ ''/'' @ ''s1'' @ ''.git'' @ ''/events/'') [] = ''s1''"
  using SessionID_roundtrip[of "''s1''" "''o1''" "''/events/''" "[]"] by (simp add: slash_def segmentEnd_def)

end
