(* ===== verification/RouterProxy.thy ===== *)
theory RouterProxy
  imports RouterRing RouterCache RouterExtract
begin

text \<open>
  The reverse proxy of the router (\<^verbatim>\<open>internal/router/proxy/proxy.go\<close>): the choice of a pod, the buffered first
  attempt, the single retry on another pod and the answer to the client.

  What \<^verbatim>\<open>httputil.ReverseProxy\<close> does with a request is the parameter \<open>up\<close>: for the attempt, the pod and the
  request body as the pod reads it, the sequence of calls it makes on the response writer it is given,
  among them the call of the error handler when the connection fails.  The client's own
  \<^verbatim>\<open>http.ResponseWriter\<close> follows \<^verbatim>\<open>net/http\<close>: the first status wins, headers are sent with it, and a
  write without a status sends 200.
\<close>

type_synonym header = "string \<rightharpoonup> string list"

record client =
  cw_header :: header
  cw_status :: "nat option"
  cw_sent :: header
  cw_body :: string
  cw_hijacked :: bool

definition newClient :: client where
  "newClient = \<lparr>cw_header = Map.empty, cw_status = None, cw_sent = Map.empty, cw_body = [], cw_hijacked = False\<rparr>"

definition clientWriteHeader :: "nat \<Rightarrow> client \<Rightarrow> client" where
  "clientWriteHeader code cl =
     (if cw_status cl \<noteq> None then cl else cl\<lparr>cw_status := Some code, cw_sent := cw_header cl\<rparr>)"

definition clientWrite :: "string \<Rightarrow> client \<Rightarrow> client" where
  "clientWrite p cl = (let cl1 = clientWriteHeader 200 cl in cl1\<lparr>cw_body := cw_body cl1 @ p\<rparr>)"

subsection \<open>The buffered response\<close>

record bufferedResponse =
  br_header :: header
  br_body :: string
  br_status :: nat
  br_wrote :: bool
  br_committed :: bool
  br_hijacked :: bool
  br_transportErr :: bool

definition newBufferedResponse :: bufferedResponse where
  "newBufferedResponse = \<lparr>br_header = Map.empty, br_body = [], br_status = 0, br_wrote = False,
     br_committed = False, br_hijacked = False, br_transportErr = False\<rparr>"

text \<open>\<^verbatim>\<open>flush\<close>, which replays the buffer to the client's writer.\<close>

definition replay :: "bufferedResponse \<Rightarrow> client \<Rightarrow> client" where
  "replay b cl =
     (if br_committed b then cl
      else
        let cl1 = cl\<lparr>cw_header := cw_header cl ++ br_header b\<rparr>;
            status = (if br_status b = 0 then 200 else br_status b) in
        clientWrite (br_body b) (clientWriteHeader status cl1))"

definition WriteHeader :: "nat \<Rightarrow> bufferedResponse \<Rightarrow> bufferedResponse" where
  "WriteHeader code b =
     (if code \<ge> 100 \<and> code < 200 then b
      else if br_wrote b then b
      else b\<lparr>br_wrote := True, br_status := code\<rparr>)"

definition setHeader :: "string \<Rightarrow> string list \<Rightarrow> bufferedResponse \<times> client \<Rightarrow> bufferedResponse \<times> client" where
  "setHeader k vs = (\<lambda>(b, cl).
     if br_committed b \<and> \<not> br_hijacked b then (b, cl\<lparr>cw_header := (cw_header cl)(k \<mapsto> vs)\<rparr>)
     else (b\<lparr>br_header := (br_header b)(k \<mapsto> vs)\<rparr>, cl))"

definition Write :: "string \<Rightarrow> bufferedResponse \<times> client \<Rightarrow> bufferedResponse \<times> client" where
  "Write p = (\<lambda>(b, cl).
     let b1 = (if br_wrote b then b else WriteHeader 200 b) in
     if br_committed b1 then (b1, clientWrite p cl) else (b1\<lparr>br_body := br_body b1 @ p\<rparr>, cl))"

definition Flush :: "bufferedResponse \<times> client \<Rightarrow> bufferedResponse \<times> client" where
  "Flush = (\<lambda>(b, cl). if br_committed b then (b, cl) else (b\<lparr>br_committed := True\<rparr>, replay b cl))"

text \<open>The flag says whether the client's connection can be taken over.\<close>

definition Hijack :: "bool \<Rightarrow> bufferedResponse \<times> client \<Rightarrow> bufferedResponse \<times> client" where
  "Hijack ok = (\<lambda>(b, cl).
     if ok then (b\<lparr>br_committed := True, br_hijacked := True\<rparr>, cl\<lparr>cw_hijacked := True\<rparr>) else (b, cl))"

definition setTransportErr :: "bufferedResponse \<Rightarrow> bufferedResponse" where
  "setTransportErr b = b\<lparr>br_transportErr := True\<rparr>"

datatype rw_call =
    RWHeader string "string list"
  | RWWriteHeader nat
  | RWWrite string
  | RWFlush
  | RWHijack bool
  | RWError

fun rwCall :: "rw_call \<Rightarrow> bufferedResponse \<times> client \<Rightarrow> bufferedResponse \<times> client" where
  "rwCall (RWHeader k vs) s = setHeader k vs s"
| "rwCall (RWWriteHeader code) s = (WriteHeader code (fst s), snd s)"
| "rwCall (RWWrite p) s = Write p s"
| "rwCall RWFlush s = Flush s"
| "rwCall (RWHijack ok) s = Hijack ok s"
| "rwCall RWError s = (setTransportErr (fst s), snd s)"

definition proxyTo :: "rw_call list \<Rightarrow> client \<Rightarrow> bufferedResponse \<times> client" where
  "proxyTo calls cl = fold rwCall calls (newBufferedResponse, cl)"

text \<open>\<^verbatim>\<open>http.Error\<close>.\<close>

definition httpError :: "string \<Rightarrow> nat \<Rightarrow> client \<Rightarrow> client" where
  "httpError msg code cl =
     clientWrite (msg @ [newline]) (clientWriteHeader code (cl\<lparr>cw_header := (cw_header cl)(
       ''Content-Length'' := None, ''Content-Type'' \<mapsto> [''text/plain; charset=utf-8''], ''X-Content-Type-Options'' \<mapsto> [''nosniff''])\<rparr>))"

definition writeFirstFailure :: "bufferedResponse \<Rightarrow> client \<Rightarrow> client" where
  "writeFirstFailure b cl =
     (if br_transportErr b \<and> \<not> br_wrote b then httpError ''bad gateway'' 502 cl
      else replay b cl)"

subsection \<open>Request bodies\<close>

text \<open>A body is the bytes it delivers and whether reading then fails.\<close>

datatype reqBody = NoBody | Stream string bool

definition maxRetryBodyBytes :: nat where
  "maxRetryBodyBytes = 1048576"

text \<open>The body the first attempt reads, the body after a rewind, and whether a retry may be made.\<close>

definition prepareRetryBody :: "reqBody \<Rightarrow> reqBody \<times> reqBody \<times> bool" where
  "prepareRetryBody body =
     (case body of
        NoBody \<Rightarrow> (NoBody, NoBody, True)
      | Stream content err \<Rightarrow>
          if length content > maxRetryBodyBytes then (Stream content err, Stream [] err, False)
          else if err then (Stream content err, Stream [] err, False)
          else (Stream content False, Stream content False, True))"

subsection \<open>Routing\<close>

definition resolvePod ::
  "((string \<rightharpoonup> Pod) \<Rightarrow> Pod list) \<Rightarrow> ringSnapshot \<Rightarrow> time \<Rightarrow> string \<Rightarrow> Hint \<Rightarrow> Pod \<times> string \<times> Hint"
where
  "resolvePod listing ring now sessionID h =
     (case hintGet now sessionID h of
        (Some podID, h1) \<Rightarrow>
          (case find (\<lambda>p. pod_ID p = podID) (Pods listing ring) of
             Some p \<Rightarrow> (p, ''cache'', h1)
           | None \<Rightarrow> (ringGet ring sessionID, ''ring'', hintInvalidate sessionID h1))
      | (None, h1) \<Rightarrow> (ringGet ring sessionID, ''ring'', h1))"

definition writeNoBackend :: "client \<Rightarrow> client" where
  "writeNoBackend cl =
     clientWrite (''no backends available'' @ [newline])
       (clientWriteHeader 503 (cl\<lparr>cw_header := (cw_header cl)(''Retry-After'' \<mapsto> [''5''],
          ''Content-Type'' \<mapsto> [''text/plain; charset=utf-8''])\<rparr>))"

record request =
  rq_path :: string
  rq_header :: string
  rq_body :: reqBody

text \<open>
  The result is the client's writer, the cache and the upstream requests that were made.  \<open>fallback\<close> is the handler for
  requests without a session; \<open>now\<close> and \<open>now'\<close> are the clock readings of the cache operations.
\<close>

type_synonym upstream = "nat \<Rightarrow> Pod \<Rightarrow> reqBody \<Rightarrow> rw_call list"

definition failed :: "bufferedResponse \<Rightarrow> bool" where
  "failed b \<longleftrightarrow> br_transportErr b \<or> br_status b = 503"

definition serveSession ::
  "((string \<rightharpoonup> Pod) \<Rightarrow> Pod list) \<Rightarrow> ringSnapshot \<Rightarrow> upstream \<Rightarrow> time \<Rightarrow> time \<Rightarrow> string \<Rightarrow> reqBody \<Rightarrow> Hint
   \<Rightarrow> (unit, client \<times> Hint \<times> (Pod \<times> reqBody) list) run"
where
  "serveSession listing ring up now now' sessionID body h =
     (let (pod, source, h1) = resolvePod listing ring now sessionID h in
      if pod_Address pod = [] then Ok (writeNoBackend newClient, h1, [])
      else
        let (body1, body2, retrySafe) = prepareRetryBody body;
            (first, cl) = proxyTo (up 0 pod body1) newClient in
        if br_committed first then Ok (cl, h1, [(pod, body1)])
        else if \<not> failed first then
          run_bind (if br_status first = 0 \<or> (br_status first \<ge> 200 \<and> br_status first < 300)
                    then hintSet now' sessionID (pod_ID pod) h1 else Ok h1)
            (\<lambda>h2. Ok (replay first cl, h2, [(pod, body1)]))
        else
          let h2 = hintInvalidate sessionID h1;
              retryPod = GetNext ring sessionID (pod_ID pod) in
          if pod_Address retryPod = [] \<or> pod_ID retryPod = pod_ID pod \<or> \<not> retrySafe then
            Ok (writeFirstFailure first cl, h2, [(pod, body1)])
          else
            let (retry, cl') = proxyTo (up 1 retryPod body2) cl in
            Ok (if br_committed retry then cl' else writeFirstFailure retry cl', h2, [(pod, body1), (retryPod, body2)]))"

definition ServeHTTP ::
  "((string \<rightharpoonup> Pod) \<Rightarrow> Pod list) \<Rightarrow> ringSnapshot \<Rightarrow> upstream \<Rightarrow> (request \<Rightarrow> client) \<Rightarrow> time \<Rightarrow> time \<Rightarrow> request \<Rightarrow> Hint
   \<Rightarrow> (unit, client \<times> Hint \<times> (Pod \<times> reqBody) list) run"
where
  "ServeHTTP listing ring up fallback now now' r h =
     (let sessionID = SessionID (rq_path r) (rq_header r) in
      if sessionID = [] then Ok (fallback r, h, [])
      else serveSession listing ring up now now' sessionID (rq_body r) h)"

text \<open>The round-robin handler: its counter is a wrapping 64-bit word.\<close>

definition roundRobinPod :: "((string \<rightharpoonup> Pod) \<Rightarrow> Pod list) \<Rightarrow> ringSnapshot \<Rightarrow> 64 word \<Rightarrow> Pod option \<times> 64 word" where
  "roundRobinPod listing ring counter =
     (let pods = Pods listing ring in
      if pods = [] then (None, counter)
      else
        let counter' = counter + 1;
            idx = counter' - 1 in
        (Some (pods ! (unat idx mod length pods)), counter'))"

subsection \<open>The buffer and the client\<close>

lemma WriteHeader_committed [simp]: "br_committed (WriteHeader code b) = br_committed b"
  by (simp add: WriteHeader_def)

lemma rwCall_uncommitted:
  "\<not> br_committed (fst (rwCall c (b, cl))) \<Longrightarrow> \<not> br_committed b \<and> snd (rwCall c (b, cl)) = cl"
  by (cases c) (auto simp: setHeader_def Write_def Flush_def Hijack_def setTransportErr_def Let_def split: if_splits)

lemma fold_uncommitted:
  "\<not> br_committed (fst (fold rwCall calls (b, cl))) \<Longrightarrow> snd (fold rwCall calls (b, cl)) = cl"
proof (induction calls rule: rev_induct)
  case (snoc c calls)
  then show ?case using rwCall_uncommitted[of c "fst (fold rwCall calls (b, cl))" "snd (fold rwCall calls (b, cl))"] by simp
qed simp

text \<open>An attempt that is not committed leaves the client untouched.\<close>

lemma proxyTo_uncommitted: "proxyTo calls cl = (b, cl') \<Longrightarrow> \<not> br_committed b \<Longrightarrow> cl' = cl"
  using fold_uncommitted[of calls newBufferedResponse cl] by (simp add: proxyTo_def)

lemma prepareRetryBody_same:
  "prepareRetryBody body = (body1, body2, retrySafe) \<Longrightarrow> body1 = body \<and> (retrySafe \<longrightarrow> body2 = body)"
  by (auto simp: prepareRetryBody_def split: reqBody.splits if_splits)

text \<open>The answer of a pod that is asked directly.\<close>

definition answer :: "rw_call list \<Rightarrow> client" where
  "answer calls = (let (b, cl) = proxyTo calls newClient in if br_committed b then cl else writeFirstFailure b cl)"


subsection \<open>What every request gets\<close>

lemma client_status [simp]: "cw_status (clientWrite p cl) \<noteq> None"
  by (simp add: clientWrite_def clientWriteHeader_def Let_def)

lemma clientWriteHeader_keeps: "cw_status cl \<noteq> None \<Longrightarrow> cw_status (clientWriteHeader c cl) \<noteq> None"
  by (simp add: clientWriteHeader_def)

lemma replay_status: "\<not> br_committed b \<Longrightarrow> cw_status (replay b cl) \<noteq> None"
  by (simp add: replay_def Let_def del: not_None_eq)

lemma writeFirstFailure_status: "\<not> br_committed b \<Longrightarrow> cw_status (writeFirstFailure b cl) \<noteq> None"
  by (simp add: writeFirstFailure_def httpError_def replay_status del: not_None_eq)

definition answered :: "client \<Rightarrow> bool" where
  "answered cl \<longleftrightarrow> cw_status cl \<noteq> None \<or> cw_hijacked cl"

lemma answered_keeps:
  "answered cl \<Longrightarrow> answered (snd (rwCall c (b, cl)))"
  by (cases c) (auto simp: answered_def setHeader_def Write_def Flush_def Hijack_def replay_def clientWrite_def clientWriteHeader_def Let_def)

lemma rwCall_answers:
  "br_committed (fst (rwCall c (b, cl))) \<Longrightarrow> \<not> br_committed b \<Longrightarrow> answered (snd (rwCall c (b, cl)))"
  using replay_status[of b cl]
  by (cases c) (auto simp: answered_def setHeader_def Write_def Flush_def Hijack_def setTransportErr_def Let_def split: if_splits)

lemma proxyTo_answers: "proxyTo calls cl = (b, cl') \<Longrightarrow> br_committed b \<Longrightarrow> answered cl'"
proof -
  have "br_committed (fst (fold rwCall calls (newBufferedResponse, cl))) \<Longrightarrow> answered (snd (fold rwCall calls (newBufferedResponse, cl)))"
  proof (induction calls rule: rev_induct)
    case (snoc c calls)
    let ?s = "fold rwCall calls (newBufferedResponse, cl)"
    show ?case
      using snoc answered_keeps[of "snd ?s" c "fst ?s"] rwCall_answers[of c "fst ?s" "snd ?s"]
      by (cases "br_committed (fst ?s)") simp_all
  qed (simp add: newBufferedResponse_def)
  then show "proxyTo calls cl = (b, cl') \<Longrightarrow> br_committed b \<Longrightarrow> answered cl'" by (simp add: proxyTo_def)
qed

lemma resolvePod_inv:
  assumes "hint_inv h" "resolvePod listing ring now sessionID h = (pod, source, h1)"
  shows "hint_inv h1"
proof -
  obtain r h' where g: "hintGet now sessionID h = (r, h')" by (cases "hintGet now sessionID h")
  with hintGet_refines(1)[OF assms(1), of now sessionID] have "hint_inv h'" by simp
  with assms(2) g hintInvalidate_refines(1)[of h' sessionID] show ?thesis
    by (auto simp: resolvePod_def split: option.splits)
qed


subsection \<open>Streams\<close>

text \<open>What a sequence of calls writes, and the status it stands for.\<close>

fun writes :: "rw_call list \<Rightarrow> string" where
  "writes [] = []"
| "writes (RWWrite p # cs) = p @ writes cs"
| "writes (_ # cs) = writes cs"

fun finalStatus :: "rw_call list \<Rightarrow> nat" where
  "finalStatus [] = 200"
| "finalStatus (RWWriteHeader c # cs) = (if c \<ge> 100 \<and> c < 200 then finalStatus cs else if c = 0 then 200 else c)"
| "finalStatus (RWWrite _ # cs) = 200"
| "finalStatus (RWFlush # cs) = 200"
| "finalStatus (_ # cs) = finalStatus cs"

text \<open>The body and the status a state stands for, whether they are buffered or already with the client.\<close>

definition shown :: "bufferedResponse \<times> client \<Rightarrow> string \<times> nat option" where
  "shown s =
     (if br_committed (fst s) then (cw_body (snd s), cw_status (snd s))
      else (br_body (fst s), if br_wrote (fst s) then Some (if br_status (fst s) = 0 then 200 else br_status (fst s)) else None))"

definition streaming :: "bufferedResponse \<times> client \<Rightarrow> bool" where
  "streaming s \<longleftrightarrow> (if br_committed (fst s) then cw_status (snd s) \<noteq> None else cw_status (snd s) = None \<and> cw_body (snd s) = []
       \<and> (\<not> br_wrote (fst s) \<longrightarrow> br_status (fst s) = 0))"

lemma rwCall_shown:
  assumes "streaming s" "c \<noteq> RWHijack True"
  shows "streaming (rwCall c s)"
    and "fst (shown (rwCall c s)) = fst (shown s) @ writes [c]"
    and "snd (shown (rwCall c s)) = (case snd (shown s) of Some st \<Rightarrow> Some st
       | None \<Rightarrow> (case c of RWWriteHeader code \<Rightarrow> if code \<ge> 100 \<and> code < 200 then None else Some (if code = 0 then 200 else code)
                 | RWWrite _ \<Rightarrow> Some 200 | RWFlush \<Rightarrow> Some 200 | _ \<Rightarrow> None))"
  using assms
  by (cases s; cases c; auto simp: streaming_def shown_def setHeader_def Write_def WriteHeader_def Flush_def Hijack_def
      setTransportErr_def replay_def clientWrite_def clientWriteHeader_def Let_def)+

lemma fold_shown:
  assumes "streaming s" "RWHijack True \<notin> set calls"
  shows "streaming (fold rwCall calls s) \<and> fst (shown (fold rwCall calls s)) = fst (shown s) @ writes calls
     \<and> (case snd (shown (fold rwCall calls s)) of Some st \<Rightarrow> st | None \<Rightarrow> 200) =
       (case snd (shown s) of Some st \<Rightarrow> st | None \<Rightarrow> finalStatus calls)"
  using assms
proof (induction calls arbitrary: s)
  case (Cons c calls)
  then have "c \<noteq> RWHijack True" by auto
  note r = rwCall_shown[OF Cons.prems(1) this]
  have w: "writes (c # calls) = writes [c] @ writes calls" by (cases c) auto
  show ?case
    using Cons.IH[OF r(1)] Cons.prems(2) r(2,3) w
    by (cases "snd (shown s)"; cases c) (auto split: if_splits)
qed (simp split: option.splits)

text \<open>
  C30: Buffering does not change a response.  For every sequence of calls without a connection takeover, the
  client ends up with all bytes written, in order and once, whether the upstream flushed in between or not,
  and with the first final status; informational 1xx statuses never count.
\<close>
theorem buffered_stream_integrity:
  assumes "RWHijack True \<notin> set calls" "proxyTo calls newClient = (b, cl)"
  shows "cw_body (replay b cl) = writes calls \<and> cw_status (replay b cl) = Some (finalStatus calls)"
proof -
  have s0: "streaming (newBufferedResponse, newClient)" "shown (newBufferedResponse, newClient) = ([], None)"
    by (simp_all add: streaming_def shown_def newBufferedResponse_def newClient_def)
  from fold_shown[OF s0(1) assms(1)] assms(2) s0(2)
  have f: "streaming (b, cl)" "fst (shown (b, cl)) = writes calls"
    "(case snd (shown (b, cl)) of Some st \<Rightarrow> st | None \<Rightarrow> 200) = finalStatus calls"
    by (simp_all add: proxyTo_def)
  show ?thesis
    using f by (auto simp: streaming_def shown_def replay_def clientWrite_def clientWriteHeader_def Let_def split: if_splits)
qed

subsection \<open>Round robin\<close>

lemma insert_at:
  assumes "i \<le> length qs" "p \<notin> set qs" "distinct qs"
  obtains l where "set l = insert p (set qs)" "distinct l" "length l = Suc (length qs)" "l ! i = p"
proof
  let ?l = "take i qs @ p # drop i qs"
  have ins: "set (xs @ p # ys) = insert p (set (xs @ ys)) \<and> (distinct (xs @ p # ys) \<longleftrightarrow> p \<notin> set (xs @ ys) \<and> distinct (xs @ ys))"
    for xs ys by auto
  show "set ?l = insert p (set qs)" "distinct ?l"
    using ins[of "take i qs" "drop i qs"] assms(2,3) unfolding append_take_drop_id by blast+
  show "length ?l = Suc (length qs)" "?l ! i = p" using assms(1) by (simp_all add: nth_append)
qed

text \<open>
  The fallback indexes a list whose order changes with every request, because Go ranges over maps in no
  particular order: for every counter and every pod there is an iteration order that picks this pod, so
  the requests need not be spread over the pods.
\<close>
theorem round_robin_any_pod:
  assumes "finite (ran (rs_pods ring))" "p \<in> ran (rs_pods ring)"
  shows "\<exists>listing. set (Pods listing ring) = ran (rs_pods ring) \<and> distinct (Pods listing ring)
     \<and> fst (roundRobinPod listing ring counter) = Some p"
proof -
  obtain qs where qs: "set qs = ran (rs_pods ring) - {p}" "distinct qs"
    using finite_distinct_list[of "ran (rs_pods ring) - {p}"] assms(1) by auto
  have i: "unat counter mod Suc (length qs) \<le> length qs" 
    using mod_less_divisor[of "Suc (length qs)" "unat counter"] by linarith
  have pn: "p \<notin> set qs" using qs(1) by simp
  obtain l where l: "set l = insert p (set qs)" "distinct l" "length l = Suc (length qs)"
    "l ! (unat counter mod Suc (length qs)) = p"
    by (rule insert_at[OF i pn qs(2)]) (rule that)
  have "set l = ran (rs_pods ring)" unfolding l(1) qs(1) by (rule insert_Diff[OF assms(2)])
  moreover have "fst (roundRobinPod (\<lambda>_. l) ring counter) = Some p"
  proof -
    have "l \<noteq> []" using l(3) by (cases l) simp_all
    moreover have "l ! (unat counter mod length l) = p" unfolding l(3) by (rule l(4))
    ultimately show ?thesis by (simp add: roundRobinPod_def Pods_def)
  qed
  ultimately show ?thesis using l(2) by (intro exI[of _ "\<lambda>_. l"]) (simp add: Pods_def)
qed

subsection \<open>A router with three pods\<close>

definition demo_ring :: ringSnapshot where
  "demo_ring = SetPods (sort_key vn_hash) 1 [podA, podB, podC]"

definition demo_hint :: Hint where
  "demo_hint = (case newHint 2 60 of Ok h \<Rightarrow> h)"

text \<open>Pod a holds no lease and answers 503; the other pods answer 200 with the body they were sent.\<close>

definition demo_up :: upstream where
  "demo_up n p body =
     (if pod_ID p = ''a'' then [RWWriteHeader 100, RWWriteHeader 503, RWWrite ''lease''] else [RWWriteHeader 200, RWWrite ''ok''])"

lemma demo_hint_inv: "hint_inv demo_hint"
proof -
  obtain h where "newHint 2 60 = Ok h" by (simp add: newHint_def)
  with newHint_inv[OF this] show ?thesis by (simp add: demo_hint_def)
qed

lemma demo_resolve: "resolvePod (\<lambda>_. []) demo_ring 0 ''s1'' demo_hint = (podA, ''ring'', demo_hint)"
  by (simp add: resolvePod_def hintGet_def demo_hint_def newHint_def demo_ring_def demo_get[unfolded One_nat_def])

lemma demo_retry: "GetNext demo_ring ''s1'' (pod_ID podA) = podC"
  using demo_next by (simp add: demo_ring_def podA_def)

lemma demo_first:
  "\<exists>first. proxyTo (demo_up 0 podA NoBody) newClient = (first, newClient) \<and> \<not> br_committed first \<and> failed first"
  by (simp add: proxyTo_def demo_up_def podA_def newBufferedResponse_def WriteHeader_def Write_def failed_def Let_def)



theorem buffered_stream_integrity_witness:
  "cw_body (answer [RWWriteHeader 103, RWWrite ''a'', RWFlush, RWWrite ''b'']) = ''ab''
   \<and> cw_status (answer [RWWriteHeader 103, RWWrite ''a'', RWFlush, RWWrite ''b'']) = Some 200"
proof -
  let ?c = "[RWWriteHeader 103, RWWrite ''a'', RWFlush, RWWrite ''b'']"
  obtain b cl where p: "proxyTo ?c newClient = (b, cl)" by (cases "proxyTo ?c newClient")
  have "br_committed (fst (proxyTo ?c newClient))"
    by (simp add: proxyTo_def newBufferedResponse_def WriteHeader_def Write_def Flush_def Let_def)
  then have "br_committed b" by (simp add: p)
  with buffered_stream_integrity[OF _ p] show ?thesis by (simp add: answer_def p replay_def)
qed

end
