(* ===== verification/Spec2Isabelle.thy ===== *)
theory Spec2Isabelle
  imports PktLine PreReceive MergeCorrect EventLog FinalizePlan AutoWorker SignIn SessionResume WSTickets RouterProxy
begin

text \<open>
  Verification development of jamsesh (skeleton).
\<close>

end
